(* ===== verification/Prelude.thy ===== *)
theory Prelude
  imports Main "HOL-Library.Word" "HOL-Library.Monad_Syntax"
begin

unbundle bit_operations_syntax

text \<open>
  Shared vocabulary of the Pintos development: machine integers, the error
  convention, bounded loops, byte buffers, and the little-endian layout of
  32-bit words in memory and on disk.

  The error convention is an \<^typ>\<open>'a option\<close>: \<^term>\<open>None\<close> is a run that
  stops the kernel (a failed \<open>ASSERT\<close>, a \<open>PANIC\<close>, an access outside an
  object), so a theorem that an operation returns \<^term>\<open>Some\<close> says in
  particular that none of these happens.  Ordinary failures that the C code
  reports to its caller (\<open>false\<close>, \<open>NULL\<close>, \<open>-1\<close>) are values inside
  \<^term>\<open>Some\<close>.
\<close>

section \<open>Machine integers\<close>

type_synonym byte = "8 word"
type_synonym u32 = "32 word"
type_synonym u64 = "64 word"

text \<open>The value of a \<open>size_t\<close> expression (an unsigned 32-bit integer).\<close>

definition szt :: "nat \<Rightarrow> nat" where
  "szt x = x mod 2 ^ 32"

text \<open>The value of an \<open>int\<close> expression on this two's-complement target.\<close>

definition i32 :: "int \<Rightarrow> int" where
  "i32 x = (x + 2 ^ 31) mod 2 ^ 32 - 2 ^ 31"

text \<open>C's integer division truncates towards zero.\<close>

definition cdiv :: "int \<Rightarrow> int \<Rightarrow> int" where
  "cdiv a b = sgn a * sgn b * (\<bar>a\<bar> div \<bar>b\<bar>)"

definition cmod :: "int \<Rightarrow> int \<Rightarrow> int" where
  "cmod a b = a - b * cdiv a b"

text \<open>The rounding macros of \<open>lib/round.h\<close>, at type \<open>size_t\<close>.\<close>

definition ROUND_UP :: "nat \<Rightarrow> nat \<Rightarrow> nat" where
  "ROUND_UP x step = szt (szt (x + step - 1) div step * step)"

definition DIV_ROUND_UP :: "nat \<Rightarrow> nat \<Rightarrow> nat" where
  "DIV_ROUND_UP x step = szt (x + step - 1) div step"

lemma szt_id [simp]: "x < 2 ^ 32 \<Longrightarrow> szt x = x"
  by (simp add: szt_def)

lemma szt_less [simp]: "szt x < 2 ^ 32"
  by (simp add: szt_def)

lemma i32_id: "- (2 ^ 31) \<le> x \<Longrightarrow> x < 2 ^ 31 \<Longrightarrow> i32 x = x"
  by (simp add: i32_def)

lemma cdiv_nonneg: "0 \<le> a \<Longrightarrow> 0 < b \<Longrightarrow> cdiv a b = a div b"
  by (cases "a = 0") (simp_all add: cdiv_def)

lemma cmod_nonneg: "0 \<le> a \<Longrightarrow> 0 < b \<Longrightarrow> cmod a b = a mod b"
  by (simp add: cmod_def cdiv_nonneg minus_mult_div_eq_mod)

lemma sint_of_int32:
  "- (2 ^ 31) \<le> x \<Longrightarrow> x < 2 ^ 31 \<Longrightarrow> sint (word_of_int x :: u32) = x"
  by (simp add: signed_of_int signed_take_bit_int_eq_self)

lemma unat_of_nat32: "n < 2 ^ 32 \<Longrightarrow> unat (of_nat n :: u32) = n"
  by (simp add: unat_of_nat)

section \<open>Panics and bounded loops\<close>

named_theorems kernel_defs \<open>definitions of straight-line kernel code\<close>

definition kassert :: "bool \<Rightarrow> unit option" where
  "kassert b = (if b then Some () else None)"

lemma kassert_True [simp]: "kassert True = Some ()"
  by (simp add: kassert_def)

lemma kassert_False [simp]: "kassert False = None"
  by (simp add: kassert_def)

lemma kassert_Some [simp]: "kassert b = Some u \<longleftrightarrow> b"
  by (simp add: kassert_def)

lemma kassert_bind_Some [simp]: "Option.bind (kassert b) f = Some x \<longleftrightarrow> b \<and> f () = Some x"
  by (cases b) simp_all

text \<open>A \<open>for\<close> loop whose body updates a state and may panic.\<close>

primrec mfold :: "('a \<Rightarrow> 's \<Rightarrow> 's option) \<Rightarrow> 'a list \<Rightarrow> 's \<Rightarrow> 's option" where
  "mfold f [] s = Some s"
| "mfold f (x # xs) s = Option.bind (f x s) (mfold f xs)"

lemma mfold_append: "mfold f (xs @ ys) s = Option.bind (mfold f xs s) (mfold f ys)"
  by (induction xs arbitrary: s) (simp_all split: bind_split)

lemma upt_split: "i \<le> j \<Longrightarrow> j \<le> k \<Longrightarrow> [i..<k] = [i..<j] @ [j..<k]"
  using upt_add_eq_append [of i j "k - j"] by simp

text \<open>The loop rule: an invariant indexed by the loop counter.\<close>

lemma mfold_range:
  assumes "a \<le> b" and "I a s"
    and step: "\<And>i s. a \<le> i \<Longrightarrow> i < b \<Longrightarrow> I i s \<Longrightarrow> \<exists>s'. f i s = Some s' \<and> I (Suc i) s'"
  shows "\<exists>s'. mfold f [a..<b] s = Some s' \<and> I b s'"
  using assms
proof (induction "b - a" arbitrary: a s)
  case 0
  then show ?case by simp
next
  case (Suc n)
  then have lt: "a < b" by simp
  with Suc.prems obtain s1 where s1: "f a s = Some s1" "I (Suc a) s1" by blast
  have "\<exists>s'. mfold f [Suc a..<b] s1 = Some s' \<and> I b s'"
    using Suc.hyps(2) lt s1(2) Suc.prems(3) by (intro Suc.hyps(1)) auto
  with lt s1(1) show ?case by (simp add: upt_conv_Cons)
qed

text \<open>Loops over a range of \<open>int\<close>s that starts at zero.\<close>

lemma mfold_map: "mfold f (map g xs) s = mfold (f \<circ> g) xs s"
  by (induction xs arbitrary: s) (simp_all split: bind_split)

lemma upto_map_int: "[0..int k] = map int [0..<Suc k]"
  by (induction k) (simp_all add: upto_rec2 add.commute)

section \<open>Byte buffers\<close>

text \<open>
  \<open>memcpy\<close> of \<^term>\<open>bs\<close> into a buffer at an offset, and out of it.  Both are
  only used where the copy stays inside the buffer.
\<close>

definition buf_put :: "nat \<Rightarrow> 'a list \<Rightarrow> 'a list \<Rightarrow> 'a list" where
  "buf_put ofs bs xs = take ofs xs @ bs @ drop (ofs + length bs) xs"

definition buf_get :: "nat \<Rightarrow> nat \<Rightarrow> 'a list \<Rightarrow> 'a list" where
  "buf_get ofs n xs = take n (drop ofs xs)"

lemma length_buf_put [simp]:
  "ofs + length bs \<le> length xs \<Longrightarrow> length (buf_put ofs bs xs) = length xs"
  by (simp add: buf_put_def)

lemma length_buf_get [simp]:
  "ofs + n \<le> length xs \<Longrightarrow> length (buf_get ofs n xs) = n"
  by (simp add: buf_get_def)

lemma nth_buf_get [simp]:
  "i < n \<Longrightarrow> ofs + n \<le> length xs \<Longrightarrow> buf_get ofs n xs ! i = xs ! (ofs + i)"
  by (simp add: buf_get_def)

lemma nth_buf_put:
  "ofs + length bs \<le> length xs \<Longrightarrow> i < length xs \<Longrightarrow>
   buf_put ofs bs xs ! i = (if ofs \<le> i \<and> i < ofs + length bs then bs ! (i - ofs) else xs ! i)"
  by (auto simp: buf_put_def nth_append)

lemma buf_get_put [simp]:
  "ofs + length bs \<le> length xs \<Longrightarrow> n = length bs \<Longrightarrow> buf_get ofs n (buf_put ofs bs xs) = bs"
  by (simp add: buf_get_def buf_put_def)

lemma buf_put_full: "length bs = length xs \<Longrightarrow> buf_put 0 bs xs = bs"
  by (simp add: buf_put_def)

lemma buf_get_full: "n = length xs \<Longrightarrow> buf_get 0 n xs = xs"
  by (simp add: buf_get_def)

section \<open>Little-endian 32-bit words\<close>

definition u32_bytes :: "u32 \<Rightarrow> byte list" where
  "u32_bytes w = [ucast w, ucast (drop_bit 8 w), ucast (drop_bit 16 w), ucast (drop_bit 24 w)]"

definition bytes_u32 :: "byte list \<Rightarrow> u32" where
  "bytes_u32 bs = ucast (bs ! 0) OR push_bit 8 (ucast (bs ! 1))
     OR push_bit 16 (ucast (bs ! 2)) OR push_bit 24 (ucast (bs ! 3))"

lemma length_u32_bytes [simp]: "length (u32_bytes w) = 4"
  by (simp add: u32_bytes_def)

lemma bytes_u32_bytes [simp]: "bytes_u32 (u32_bytes w) = w"
proof (rule bit_word_eqI)
  fix n
  assume "n < LENGTH(32)"
  then consider "n < 8" | "8 \<le> n" "n < 16" | "16 \<le> n" "n < 24" | "24 \<le> n" "n < 32"
    by fastforce
  then show "bit (bytes_u32 (u32_bytes w)) n \<longleftrightarrow> bit w n"
    by cases (auto simp: bytes_u32_def u32_bytes_def bit_or_iff bit_push_bit_iff bit_ucast_iff
        bit_drop_bit_eq)
qed

text \<open>Arrays of 32-bit words in a byte buffer.\<close>

definition u32s_bytes :: "u32 list \<Rightarrow> byte list" where
  "u32s_bytes ws = concat (map u32_bytes ws)"

definition bytes_u32s :: "byte list \<Rightarrow> u32 list" where
  "bytes_u32s bs = map (\<lambda>i. bytes_u32 (buf_get (4 * i) 4 bs)) [0..<length bs div 4]"

lemma u32s_bytes_simps [simp]:
  "u32s_bytes [] = []" "u32s_bytes (w # ws) = u32_bytes w @ u32s_bytes ws"
  by (simp_all add: u32s_bytes_def)

lemma length_u32s_bytes [simp]: "length (u32s_bytes ws) = 4 * length ws"
  by (induction ws) simp_all

lemma length_bytes_u32s [simp]: "length (bytes_u32s bs) = length bs div 4"
  by (simp add: bytes_u32s_def)

lemma buf_get_u32s_bytes: "i < length ws \<Longrightarrow> buf_get (4 * i) 4 (u32s_bytes ws) = u32_bytes (ws ! i)"
proof (induction ws arbitrary: i)
  case Nil
  then show ?case by simp
next
  case (Cons w ws)
  then show ?case by (cases i) (simp_all add: buf_get_def)
qed

lemma bytes_u32s_bytes [simp]: "bytes_u32s (u32s_bytes ws) = ws"
  by (rule nth_equalityI) (simp_all add: bytes_u32s_def buf_get_u32s_bytes)

section \<open>Bounds-checked arrays\<close>

text \<open>An access outside the array is undefined behaviour in C and stops the model.\<close>

definition arr_get :: "'a list \<Rightarrow> int \<Rightarrow> 'a option" where
  "arr_get a i = (if 0 \<le> i \<and> nat i < length a then Some (a ! nat i) else None)"

definition arr_set :: "'a list \<Rightarrow> int \<Rightarrow> 'a \<Rightarrow> 'a list option" where
  "arr_set a i x = (if 0 \<le> i \<and> nat i < length a then Some (a[nat i := x]) else None)"

lemma arr_get_ok: "i < length a \<Longrightarrow> arr_get a (int i) = Some (a ! i)"
  by (simp add: arr_get_def)

lemma arr_set_ok: "i < length a \<Longrightarrow> arr_set a (int i) x = Some (a[i := x])"
  by (simp add: arr_set_def)

end
