(* ===== verification/Lists.thy ===== *)
theory Lists
  imports Prelude
begin

text \<open>
  Doubly linked lists, \<open>lib/kernel/list.c\<close>, on an explicit store of list elements: every
  read and write of a \<open>prev\<close> or \<open>next\<close> field is one of the store, and one through a null
  or unknown pointer stops the model.  A list is the address of its \<open>struct list\<close>, which is
  that of its head; the tail lies 8 bytes behind it.  The comparison functions that the
  caller passes only look at the two elements and are an argument \<open>lt\<close>.
\<close>

section \<open>The store\<close>

record list_elem =
  lprev :: nat
  lnext :: nat

type_synonym lheap = "nat \<rightharpoonup> list_elem"

definition lget :: "nat \<Rightarrow> lheap \<Rightarrow> list_elem option" where
  "lget p h = (if p = 0 then None else h p)"

definition get_prev :: "nat \<Rightarrow> lheap \<Rightarrow> nat option" where
  "get_prev p h = map_option lprev (lget p h)"

definition get_next :: "nat \<Rightarrow> lheap \<Rightarrow> nat option" where
  "get_next p h = map_option lnext (lget p h)"

definition set_prev :: "nat \<Rightarrow> nat \<Rightarrow> lheap \<Rightarrow> lheap option" where
  "set_prev p x h = map_option (\<lambda>e. h(p \<mapsto> e\<lparr>lprev := x\<rparr>)) (lget p h)"

definition set_next :: "nat \<Rightarrow> nat \<Rightarrow> lheap \<Rightarrow> lheap option" where
  "set_next p x h = map_option (\<lambda>e. h(p \<mapsto> e\<lparr>lnext := x\<rparr>)) (lget p h)"

text \<open>The addresses of the two header elements inside a \<open>struct list\<close>.\<close>

definition list_head :: "nat \<Rightarrow> nat" where
  "list_head l = l"

definition list_tail :: "nat \<Rightarrow> nat" where
  "list_tail l = l + 8"

section \<open>Traversal\<close>

definition is_head :: "nat \<Rightarrow> lheap \<Rightarrow> bool option" where
  "is_head p h = (if p \<noteq> 0 then do {
     a \<leftarrow> get_prev p h;
     b \<leftarrow> get_next p h;
     Some (a = 0 \<and> b \<noteq> 0) } else Some False)"

definition is_interior :: "nat \<Rightarrow> lheap \<Rightarrow> bool option" where
  "is_interior p h = (if p \<noteq> 0 then do {
     a \<leftarrow> get_prev p h;
     b \<leftarrow> get_next p h;
     Some (a \<noteq> 0 \<and> b \<noteq> 0) } else Some False)"

definition is_tail :: "nat \<Rightarrow> lheap \<Rightarrow> bool option" where
  "is_tail p h = (if p \<noteq> 0 then do {
     a \<leftarrow> get_prev p h;
     b \<leftarrow> get_next p h;
     Some (a \<noteq> 0 \<and> b = 0) } else Some False)"

definition list_init :: "nat \<Rightarrow> lheap \<Rightarrow> lheap option" where
  "list_init l h = do {
     kassert (l \<noteq> 0);
     h \<leftarrow> set_prev l 0 h;
     h \<leftarrow> set_next l (list_tail l) h;
     h \<leftarrow> set_prev (list_tail l) l h;
     set_next (list_tail l) 0 h }"

definition list_begin :: "nat \<Rightarrow> lheap \<Rightarrow> nat option" where
  "list_begin l h = do { kassert (l \<noteq> 0); get_next l h }"

definition list_next :: "nat \<Rightarrow> lheap \<Rightarrow> nat option" where
  "list_next e h = do {
     a \<leftarrow> is_head e h;
     b \<leftarrow> is_interior e h;
     kassert (a \<or> b);
     get_next e h }"

definition list_end :: "nat \<Rightarrow> nat" where
  "list_end l = list_tail l"

definition list_rbegin :: "nat \<Rightarrow> lheap \<Rightarrow> nat option" where
  "list_rbegin l h = do { kassert (l \<noteq> 0); get_prev (list_tail l) h }"

definition list_prev :: "nat \<Rightarrow> lheap \<Rightarrow> nat option" where
  "list_prev e h = do {
     a \<leftarrow> is_interior e h;
     b \<leftarrow> is_tail e h;
     kassert (a \<or> b);
     get_prev e h }"

definition list_rend :: "nat \<Rightarrow> nat" where
  "list_rend l = list_head l"

section \<open>Insertion and removal\<close>

definition list_insert :: "nat \<Rightarrow> nat \<Rightarrow> lheap \<Rightarrow> lheap option" where
  "list_insert before e h = do {
     a \<leftarrow> is_interior before h;
     b \<leftarrow> is_tail before h;
     kassert (a \<or> b);
     kassert (e \<noteq> 0);
     p \<leftarrow> get_prev before h;
     h \<leftarrow> set_prev e p h;
     h \<leftarrow> set_next e before h;
     p \<leftarrow> get_prev before h;
     h \<leftarrow> set_next p e h;
     set_prev before e h }"

definition list_splice :: "nat \<Rightarrow> nat \<Rightarrow> nat \<Rightarrow> lheap \<Rightarrow> lheap option" where
  "list_splice before first lst h = do {
     a \<leftarrow> is_interior before h;
     b \<leftarrow> is_tail before h;
     kassert (a \<or> b);
     if first = lst then Some h
     else do {
       lst \<leftarrow> list_prev lst h;
       a \<leftarrow> is_interior first h;
       kassert a;
       b \<leftarrow> is_interior lst h;
       kassert b;
       fp \<leftarrow> get_prev first h;
       ln \<leftarrow> get_next lst h;
       h \<leftarrow> set_next fp ln h;
       ln \<leftarrow> get_next lst h;
       fp \<leftarrow> get_prev first h;
       h \<leftarrow> set_prev ln fp h;
       bp \<leftarrow> get_prev before h;
       h \<leftarrow> set_prev first bp h;
       h \<leftarrow> set_next lst before h;
       bp \<leftarrow> get_prev before h;
       h \<leftarrow> set_next bp first h;
       set_prev before lst h } }"

definition list_push_front :: "nat \<Rightarrow> nat \<Rightarrow> lheap \<Rightarrow> lheap option" where
  "list_push_front l e h = do { b \<leftarrow> list_begin l h; list_insert b e h }"

definition list_push_back :: "nat \<Rightarrow> nat \<Rightarrow> lheap \<Rightarrow> lheap option" where
  "list_push_back l e h = list_insert (list_end l) e h"

definition list_remove :: "nat \<Rightarrow> lheap \<Rightarrow> (nat \<times> lheap) option" where
  "list_remove e h = do {
     a \<leftarrow> is_interior e h;
     kassert a;
     p \<leftarrow> get_prev e h;
     n \<leftarrow> get_next e h;
     h \<leftarrow> set_next p n h;
     n \<leftarrow> get_next e h;
     p \<leftarrow> get_prev e h;
     h \<leftarrow> set_prev n p h;
     n \<leftarrow> get_next e h;
     Some (n, h) }"

definition list_empty :: "nat \<Rightarrow> lheap \<Rightarrow> bool option" where
  "list_empty l h = do { b \<leftarrow> list_begin l h; Some (b = list_end l) }"

definition list_front :: "nat \<Rightarrow> lheap \<Rightarrow> nat option" where
  "list_front l h = do {
     b \<leftarrow> list_empty l h;
     kassert (\<not> b);
     get_next l h }"

definition list_back :: "nat \<Rightarrow> lheap \<Rightarrow> nat option" where
  "list_back l h = do {
     b \<leftarrow> list_empty l h;
     kassert (\<not> b);
     get_prev (list_tail l) h }"

definition list_pop_front :: "nat \<Rightarrow> lheap \<Rightarrow> (nat \<times> lheap) option" where
  "list_pop_front l h = do {
     front \<leftarrow> list_front l h;
     (_, h) \<leftarrow> list_remove front h;
     Some (front, h) }"

definition list_pop_back :: "nat \<Rightarrow> lheap \<Rightarrow> (nat \<times> lheap) option" where
  "list_pop_back l h = do {
     back \<leftarrow> list_back l h;
     (_, h) \<leftarrow> list_remove back h;
     Some (back, h) }"

section \<open>Size and reversal\<close>

partial_function (option) size_loop :: "nat \<Rightarrow> nat \<Rightarrow> nat \<Rightarrow> lheap \<Rightarrow> nat option" where
  "size_loop l e cnt h =
     (if e \<noteq> list_end l then do {
        n \<leftarrow> list_next e h;
        size_loop l n (szt (cnt + 1)) h }
      else Some cnt)"

definition list_size :: "nat \<Rightarrow> lheap \<Rightarrow> nat option" where
  "list_size l h = do { e \<leftarrow> list_begin l h; size_loop l e 0 h }"

text \<open>\<open>swap\<close> is applied to two link fields, of one element or of two.\<close>

definition swap_links :: "nat \<Rightarrow> lheap \<Rightarrow> lheap option" where
  "swap_links e h = do {
     p \<leftarrow> get_prev e h;
     n \<leftarrow> get_next e h;
     h \<leftarrow> set_prev e n h;
     set_next e p h }"

definition swap_next_prev :: "nat \<Rightarrow> nat \<Rightarrow> lheap \<Rightarrow> lheap option" where
  "swap_next_prev a b h = do {
     x \<leftarrow> get_next a h;
     y \<leftarrow> get_prev b h;
     h \<leftarrow> set_next a y h;
     set_prev b x h }"

partial_function (option) reverse_loop :: "nat \<Rightarrow> nat \<Rightarrow> lheap \<Rightarrow> lheap option" where
  "reverse_loop l e h =
     (if e \<noteq> list_end l then do {
        h \<leftarrow> swap_links e h;
        p \<leftarrow> get_prev e h;
        reverse_loop l p h }
      else Some h)"

definition list_reverse :: "nat \<Rightarrow> lheap \<Rightarrow> lheap option" where
  "list_reverse l h = do {
     b \<leftarrow> list_empty l h;
     if \<not> b then do {
       e \<leftarrow> list_begin l h;
       h \<leftarrow> reverse_loop l e h;
       h \<leftarrow> swap_next_prev l (list_tail l) h;
       a \<leftarrow> get_next l h;
       b \<leftarrow> get_prev (list_tail l) h;
       swap_next_prev b a h }
     else Some h }"

section \<open>Ordered operations\<close>

type_synonym less_func = "nat \<Rightarrow> nat \<Rightarrow> bool"

partial_function (option) sorted_loop :: "nat \<Rightarrow> nat \<Rightarrow> less_func \<Rightarrow> lheap \<Rightarrow> bool option" where
  "sorted_loop a b lt h = do {
     a \<leftarrow> list_next a h;
     if a \<noteq> b then do {
       p \<leftarrow> list_prev a h;
       if lt a p then Some False else sorted_loop a b lt h }
     else Some True }"

definition is_sorted :: "nat \<Rightarrow> nat \<Rightarrow> less_func \<Rightarrow> lheap \<Rightarrow> bool option" where
  "is_sorted a b lt h = (if a \<noteq> b then sorted_loop a b lt h else Some True)"

partial_function (option) run_loop :: "nat \<Rightarrow> nat \<Rightarrow> less_func \<Rightarrow> lheap \<Rightarrow> nat option" where
  "run_loop a b lt h = do {
     a \<leftarrow> list_next a h;
     if a \<noteq> b then do {
       p \<leftarrow> list_prev a h;
       if \<not> lt a p then run_loop a b lt h else Some a }
     else Some a }"

definition find_end_of_run :: "nat \<Rightarrow> nat \<Rightarrow> less_func \<Rightarrow> lheap \<Rightarrow> nat option" where
  "find_end_of_run a b lt h = do {
     kassert (a \<noteq> 0);
     kassert (b \<noteq> 0);
     kassert (a \<noteq> b);
     run_loop a b lt h }"

partial_function (option) merge_loop ::
    "nat \<Rightarrow> nat \<Rightarrow> nat \<Rightarrow> less_func \<Rightarrow> lheap \<Rightarrow> lheap option" where
  "merge_loop a0 a1b0 b1 lt h =
     (if a0 \<noteq> a1b0 \<and> a1b0 \<noteq> b1 then
        (if \<not> lt a1b0 a0 then do {
           a0 \<leftarrow> list_next a0 h;
           merge_loop a0 a1b0 b1 lt h }
         else do {
           a1b0 \<leftarrow> list_next a1b0 h;
           p \<leftarrow> list_prev a1b0 h;
           h \<leftarrow> list_splice a0 p a1b0 h;
           merge_loop a0 a1b0 b1 lt h })
      else Some h)"

definition inplace_merge :: "nat \<Rightarrow> nat \<Rightarrow> nat \<Rightarrow> less_func \<Rightarrow> lheap \<Rightarrow> lheap option" where
  "inplace_merge a0 a1b0 b1 lt h = do {
     kassert (a0 \<noteq> 0);
     kassert (a1b0 \<noteq> 0);
     kassert (b1 \<noteq> 0);
     s1 \<leftarrow> is_sorted a0 a1b0 lt h;
     kassert s1;
     s2 \<leftarrow> is_sorted a1b0 b1 lt h;
     kassert s2;
     merge_loop a0 a1b0 b1 lt h }"

partial_function (option) sort_pass ::
    "nat \<Rightarrow> less_func \<Rightarrow> nat \<Rightarrow> nat \<Rightarrow> lheap \<Rightarrow> (nat \<times> lheap) option" where
  "sort_pass l lt a0 output_run_cnt h =
     (if a0 \<noteq> list_end l then do {
        let output_run_cnt = szt (output_run_cnt + 1);
        a1b0 \<leftarrow> find_end_of_run a0 (list_end l) lt h;
        if a1b0 = list_end l then Some (output_run_cnt, h)
        else do {
          b1 \<leftarrow> find_end_of_run a1b0 (list_end l) lt h;
          h \<leftarrow> inplace_merge a0 a1b0 b1 lt h;
          sort_pass l lt b1 output_run_cnt h } }
      else Some (output_run_cnt, h))"

partial_function (option) sort_loop :: "nat \<Rightarrow> less_func \<Rightarrow> lheap \<Rightarrow> lheap option" where
  "sort_loop l lt h = do {
     a0 \<leftarrow> list_begin l h;
     (output_run_cnt, h) \<leftarrow> sort_pass l lt a0 0 h;
     if output_run_cnt > 1 then sort_loop l lt h else Some h }"

definition list_sort :: "nat \<Rightarrow> less_func \<Rightarrow> lheap \<Rightarrow> lheap option" where
  "list_sort l lt h = do {
     kassert (l \<noteq> 0);
     h \<leftarrow> sort_loop l lt h;
     b \<leftarrow> list_begin l h;
     s \<leftarrow> is_sorted b (list_end l) lt h;
     kassert s;
     Some h }"

partial_function (option) ordered_loop :: "nat \<Rightarrow> nat \<Rightarrow> nat \<Rightarrow> less_func \<Rightarrow> lheap \<Rightarrow> nat option" where
  "ordered_loop l x e lt h =
     (if e \<noteq> list_end l then
        (if lt x e then Some e
         else do { n \<leftarrow> list_next e h; ordered_loop l x n lt h })
      else Some e)"

definition list_insert_ordered :: "nat \<Rightarrow> nat \<Rightarrow> less_func \<Rightarrow> lheap \<Rightarrow> lheap option" where
  "list_insert_ordered l x lt h = do {
     kassert (l \<noteq> 0);
     kassert (x \<noteq> 0);
     e \<leftarrow> list_begin l h;
     e \<leftarrow> ordered_loop l x e lt h;
     list_insert e x h }"

text \<open>\<open>dups\<close> is the list for the duplicates, 0 for a null pointer.\<close>

partial_function (option) unique_loop :: "nat \<Rightarrow> nat \<Rightarrow> nat \<Rightarrow> less_func \<Rightarrow> lheap \<Rightarrow> lheap option" where
  "unique_loop l dups e lt h = do {
     n \<leftarrow> list_next e h;
     if n \<noteq> list_end l then
       (if \<not> lt e n \<and> \<not> lt n e then do {
          (_, h) \<leftarrow> list_remove n h;
          h \<leftarrow> (if dups \<noteq> 0 then list_push_back dups n h else Some h);
          unique_loop l dups e lt h }
        else unique_loop l dups n lt h)
     else Some h }"

definition list_unique :: "nat \<Rightarrow> nat \<Rightarrow> less_func \<Rightarrow> lheap \<Rightarrow> lheap option" where
  "list_unique l dups lt h = do {
     kassert (l \<noteq> 0);
     b \<leftarrow> list_empty l h;
     if b then Some h
     else do { e \<leftarrow> list_begin l h; unique_loop l dups e lt h } }"

partial_function (option) max_loop :: "nat \<Rightarrow> nat \<Rightarrow> nat \<Rightarrow> less_func \<Rightarrow> lheap \<Rightarrow> nat option" where
  "max_loop l m e lt h =
     (if e \<noteq> list_end l then do {
        n \<leftarrow> list_next e h;
        max_loop l (if lt m e then e else m) n lt h }
      else Some m)"

definition list_max :: "nat \<Rightarrow> less_func \<Rightarrow> lheap \<Rightarrow> nat option" where
  "list_max l lt h = do {
     m \<leftarrow> list_begin l h;
     if m \<noteq> list_end l then do { e \<leftarrow> list_next m h; max_loop l m e lt h }
     else Some m }"

partial_function (option) min_loop :: "nat \<Rightarrow> nat \<Rightarrow> nat \<Rightarrow> less_func \<Rightarrow> lheap \<Rightarrow> nat option" where
  "min_loop l m e lt h =
     (if e \<noteq> list_end l then do {
        n \<leftarrow> list_next e h;
        min_loop l (if lt e m then e else m) n lt h }
      else Some m)"

definition list_min :: "nat \<Rightarrow> less_func \<Rightarrow> lheap \<Rightarrow> nat option" where
  "list_min l lt h = do {
     m \<leftarrow> list_begin l h;
     if m \<noteq> list_end l then do { e \<leftarrow> list_next m h; min_loop l m e lt h }
     else Some m }"

section \<open>Lists as sequences of addresses\<close>

text \<open>
  \<open>chain h ys\<close>: neighbours in \<open>ys\<close> point to each other.  A well-formed list is a chain
  from its head over its elements to its tail.
\<close>

definition nxt :: "lheap \<Rightarrow> nat \<Rightarrow> nat" where
  "nxt h p = (case h p of Some e \<Rightarrow> lnext e | None \<Rightarrow> 0)"

definition prv :: "lheap \<Rightarrow> nat \<Rightarrow> nat" where
  "prv h p = (case h p of Some e \<Rightarrow> lprev e | None \<Rightarrow> 0)"

fun chain :: "lheap \<Rightarrow> nat list \<Rightarrow> bool" where
  "chain h (a # b # ys) \<longleftrightarrow> nxt h a = b \<and> prv h b = a \<and> chain h (b # ys)"
| "chain h ys \<longleftrightarrow> True"

definition nodes :: "nat \<Rightarrow> nat list \<Rightarrow> nat list" where
  "nodes l xs = l # xs @ [list_tail l]"

definition is_list :: "lheap \<Rightarrow> nat \<Rightarrow> nat list \<Rightarrow> bool" where
  "is_list h l xs \<longleftrightarrow> distinct (nodes l xs) \<and> 0 \<notin> set (nodes l xs) \<and> set (nodes l xs) \<subseteq> dom h \<and>
     chain h (nodes l xs) \<and> prv h l = 0 \<and> nxt h (list_tail l) = 0"

lemma chain_split: "chain h (xs @ a # ys) \<longleftrightarrow> chain h (xs @ [a]) \<and> chain h (a # ys)"
proof (induction xs)
  case (Cons x xs)
  then show ?case by (cases xs) auto
qed simp

lemma chain_cong:
  assumes "\<forall>p \<in> set (butlast ys). nxt h' p = nxt h p" "\<forall>p \<in> set (tl ys). prv h' p = prv h p"
  shows "chain h' ys = chain h ys"
  using assms
proof (induction h ys rule: chain.induct)
  case (1 h a b ys)
  then show ?case by (cases ys) auto
qed simp_all

lemma chain_snoc: "chain h (xs @ [a, b]) \<longleftrightarrow> chain h (xs @ [a]) \<and> nxt h a = b \<and> prv h b = a"
  using chain_split [of h xs a "[b]"] by simp

lemma nxt_prv_upd [simp]:
  "nxt (h(p \<mapsto> e\<lparr>lprev := x\<rparr>)) q = (if q = p then lnext e else nxt h q)"
  "prv (h(p \<mapsto> e\<lparr>lprev := x\<rparr>)) q = (if q = p then x else prv h q)"
  "nxt (h(p \<mapsto> e\<lparr>lnext := x\<rparr>)) q = (if q = p then x else nxt h q)"
  "prv (h(p \<mapsto> e\<lparr>lnext := x\<rparr>)) q = (if q = p then lprev e else prv h q)"
  by (simp_all add: nxt_def prv_def)

text \<open>The accessors on known elements.\<close>

lemma get_ok: "p \<noteq> 0 \<Longrightarrow> p \<in> dom h \<Longrightarrow> get_prev p h = Some (prv h p) \<and> get_next p h = Some (nxt h p)"
  by (auto simp: get_prev_def get_next_def lget_def prv_def nxt_def)

definition upd_prev :: "nat \<Rightarrow> nat \<Rightarrow> lheap \<Rightarrow> lheap" where
  "upd_prev p x h = h(p \<mapsto> (the (h p))\<lparr>lprev := x\<rparr>)"

definition upd_next :: "nat \<Rightarrow> nat \<Rightarrow> lheap \<Rightarrow> lheap" where
  "upd_next p x h = h(p \<mapsto> (the (h p))\<lparr>lnext := x\<rparr>)"

lemma set_ok: "p \<noteq> 0 \<Longrightarrow> p \<in> dom h \<Longrightarrow> set_prev p x h = Some (upd_prev p x h) \<and> set_next p x h = Some (upd_next p x h)"
  by (auto simp: set_prev_def set_next_def lget_def upd_prev_def upd_next_def)

lemma upd_simps [simp]:
  "p \<in> dom h \<Longrightarrow> prv (upd_prev p x h) q = (if q = p then x else prv h q)"
  "p \<in> dom h \<Longrightarrow> nxt (upd_prev p x h) q = nxt h q"
  "p \<in> dom h \<Longrightarrow> nxt (upd_next p x h) q = (if q = p then x else nxt h q)"
  "p \<in> dom h \<Longrightarrow> prv (upd_next p x h) q = prv h q"
  "dom (upd_prev p x h) = insert p (dom h)" "dom (upd_next p x h) = insert p (dom h)"
  by (auto simp: upd_prev_def upd_next_def nxt_def prv_def)

lemma upd_other: "q \<noteq> p \<Longrightarrow> upd_prev p x h q = h q" "q \<noteq> p \<Longrightarrow> upd_next p x h q = h q"
  by (simp_all add: upd_prev_def upd_next_def)

lemma kind_ok:
  assumes "p \<noteq> 0" "p \<in> dom h"
  shows "is_head p h = Some (prv h p = 0 \<and> nxt h p \<noteq> 0)"
    "is_interior p h = Some (prv h p \<noteq> 0 \<and> nxt h p \<noteq> 0)"
    "is_tail p h = Some (prv h p \<noteq> 0 \<and> nxt h p = 0)"
  using assms by (simp_all add: is_head_def is_interior_def is_tail_def get_ok)

lemmas list_access = get_ok set_ok kind_ok

text \<open>The links around a position of a list.\<close>

lemma is_list_links:
  assumes "is_list h l (as @ bs)"
  defines "a \<equiv> last (l # as)" and "b \<equiv> hd (bs @ [list_tail l])"
  shows "nxt h a = b" "prv h b = a" "a \<noteq> 0" "b \<noteq> 0" "a \<in> dom h" "b \<in> dom h" "a \<noteq> b"
    "a \<in> set (l # as)" "b \<in> set (bs @ [list_tail l])"
proof -
  have n: "nodes l (as @ bs) = butlast (l # as) @ [a] @ [b] @ tl (bs @ [list_tail l])"
  proof -
    have "l # as = butlast (l # as) @ [a]" unfolding a_def by (rule append_butlast_last_id [symmetric]) simp
    moreover have "bs @ [list_tail l] = b # tl (bs @ [list_tail l])" unfolding b_def by (cases bs) simp_all
    ultimately show ?thesis unfolding nodes_def by (metis append.assoc append_Cons append_Nil)
  qed
  have "chain h (butlast (l # as) @ a # b # tl (bs @ [list_tail l]))"
    using assms(1) n by (simp add: is_list_def)
  then have "chain h (a # b # tl (bs @ [list_tail l]))" by (rule chain_split [THEN iffD1, THEN conjunct2])
  then show "nxt h a = b" "prv h b = a" by simp_all
  have s: "distinct (butlast (l # as) @ [a] @ [b] @ tl (bs @ [list_tail l]))"
    "0 \<notin> set (butlast (l # as) @ [a] @ [b] @ tl (bs @ [list_tail l]))"
    "set (butlast (l # as) @ [a] @ [b] @ tl (bs @ [list_tail l])) \<subseteq> dom h"
    using assms(1) unfolding is_list_def n by blast+
  then show "a \<noteq> 0" "b \<noteq> 0" "a \<in> dom h" "b \<in> dom h" "a \<noteq> b" by auto
  show "a \<in> set (l # as)" unfolding a_def by (rule last_in_set) simp
  show "b \<in> set (bs @ [list_tail l])" unfolding b_def by (rule hd_in_set) simp
qed

lemma chain_append:
  "xs \<noteq> [] \<Longrightarrow> ys \<noteq> [] \<Longrightarrow> chain h (xs @ ys) \<longleftrightarrow>
     chain h xs \<and> chain h ys \<and> nxt h (last xs) = hd ys \<and> prv h (hd ys) = last xs"
proof (induction xs rule: induct_list012)
  case (2 x)
  then show ?case by (cases ys) auto
qed auto

text \<open>
  Replacing a segment of a list: it is enough to look at the links of the new segment and of
  the two elements around it.
\<close>

lemma is_list_replace:
  assumes old: "is_list h l (as @ ms @ bs)"
    and nx: "\<forall>p \<in> set (butlast (l # as)) \<union> set (bs @ [list_tail l]). nxt h' p = nxt h p"
    and pv: "\<forall>p \<in> set (l # as) \<union> set (tl (bs @ [list_tail l])). prv h' p = prv h p"
    and mid: "chain h' (last (l # as) # ms' @ [hd (bs @ [list_tail l])])"
    and new: "distinct (nodes l (as @ ms' @ bs))" "0 \<notin> set ms'" "dom h \<subseteq> dom h'" "set ms' \<subseteq> dom h'"
  shows "is_list h' l (as @ ms' @ bs)"
proof -
  let ?L = "l # as" and ?R = "bs @ [list_tail l]"
  have ch: "chain h (?L @ ms @ ?R)" and st: "0 \<notin> set (?L @ ms @ ?R)" "set (?L @ ms @ ?R) \<subseteq> dom h"
    and ends: "prv h l = 0" "nxt h (list_tail l) = 0"
    using old by (simp_all add: is_list_def nodes_def)
  have "chain h ?L \<and> chain h ?R"
    using ch chain_append [of ?L "ms @ ?R" h] chain_append [of ms ?R h] by (cases "ms = []") auto
  moreover have "chain h' ?L = chain h ?L" using nx pv by (intro chain_cong) auto
  moreover have "chain h' ?R = chain h ?R"
    using nx pv by (intro chain_cong) (auto dest: in_set_butlastD)
  ultimately have "chain h' ?L" "chain h' ?R" by simp_all
  moreover have "chain h' (last ?L # ms' @ [hd ?R]) \<longleftrightarrow> (if ms' = [] then nxt h' (last ?L) = hd ?R \<and> prv h' (hd ?R) = last ?L
      else nxt h' (last ?L) = hd ms' \<and> prv h' (hd ms') = last ?L \<and> chain h' ms' \<and>
        nxt h' (last ms') = hd ?R \<and> prv h' (hd ?R) = last ms')"
    using chain_append [of "[last ?L]" "ms' @ [hd ?R]" h'] chain_append [of ms' "[hd ?R]" h'] by auto
  ultimately have "chain h' (?L @ ms' @ ?R)"
    using mid chain_append [of ?L "ms' @ ?R" h'] chain_append [of ms' ?R h'] chain_append [of ?L ?R h']
    by (cases "ms' = []") auto
  moreover have "prv h' l = 0" "nxt h' (list_tail l) = 0" using nx pv ends by simp_all
  moreover have "set (nodes l (as @ ms' @ bs)) \<subseteq> set (?L @ ms @ ?R) \<union> set ms'" by (auto simp: nodes_def)
  then have "set (nodes l (as @ ms' @ bs)) \<subseteq> dom h'" using new(3,4) st(2) by blast
  ultimately show ?thesis using new(1,2) st(1) by (simp add: is_list_def nodes_def)
qed

text \<open>The elements whose links a change at a position must leave alone.\<close>

lemma outer_links:
  assumes "distinct (nodes l (as @ ms @ bs))"
  shows "p \<in> set (butlast (l # as)) \<union> set (bs @ [list_tail l]) \<Longrightarrow>
      p \<noteq> last (l # as) \<and> p \<notin> set ms \<and> p \<in> set (nodes l (as @ bs))"
    "p \<in> set (l # as) \<union> set (tl (bs @ [list_tail l])) \<Longrightarrow>
      p \<noteq> hd (bs @ [list_tail l]) \<and> p \<notin> set ms \<and> p \<in> set (nodes l (as @ bs))"
proof -
  let ?L = "l # as" and ?R = "bs @ [list_tail l]"
  have L: "?L = butlast ?L @ [last ?L]" by (rule append_butlast_last_id [symmetric]) simp
  have R: "?R = hd ?R # tl ?R" by (cases bs) simp_all
  have d: "distinct (?L @ ms @ ?R)" using assms by (simp add: nodes_def)
  have sL: "set ?L = insert (last ?L) (set (butlast ?L))" and dL: "last ?L \<notin> set (butlast ?L)"
    using d by (metis L set_append list.set(1,2) Un_insert_right sup_bot_right)
      (metis L d distinct_append distinct.simps(2) Int_iff empty_iff list.set_intros(1))
  have sR: "set ?R = insert (hd ?R) (set (tl ?R))" and dR: "hd ?R \<notin> set (tl ?R)"
    using d R by (metis list.set(2)) (metis R d distinct_append distinct.simps(2))
  have dj: "set ?L \<inter> set ms = {}" "set ?L \<inter> set ?R = {}" "set ms \<inter> set ?R = {}" using d by auto
  have n: "set (nodes l (as @ bs)) = set ?L \<union> set ?R" by (auto simp: nodes_def)
  show "p \<in> set (butlast ?L) \<union> set ?R \<Longrightarrow> p \<noteq> last ?L \<and> p \<notin> set ms \<and> p \<in> set (nodes l (as @ bs))"
    using sL dL dj n by blast
  show "p \<in> set ?L \<union> set (tl ?R) \<Longrightarrow> p \<noteq> hd ?R \<and> p \<notin> set ms \<and> p \<in> set (nodes l (as @ bs))"
    using sR dR dj n by blast
qed

lemma list_insert_ok:
  assumes ls: "is_list h l (as @ bs)" and e: "e \<notin> set (nodes l (as @ bs))" "e \<noteq> 0" "e \<in> dom h"
  obtains h' where "list_insert (hd (bs @ [list_tail l])) e h = Some h'" "is_list h' l (as @ e # bs)"
    "\<forall>p. p \<notin> set (nodes l (as @ e # bs)) \<longrightarrow> h' p = h p" "dom h' = dom h"
proof -
  define a where "a = last (l # as)"
  define b where "b = hd (bs @ [list_tail l])"
  note lk = is_list_links [OF ls, folded a_def b_def]
  define h' where "h' = upd_prev b e (upd_next a e (upd_next e b (upd_prev e a h)))"
  have ne: "e \<noteq> a" "e \<noteq> b" using e(1) lk(8,9) by (auto simp: nodes_def)
  have run: "list_insert b e h = Some h'"
    using lk e ne by (auto simp: list_insert_def list_access h'_def)
  have nxt': "nxt h' p = (if p = a then e else if p = e then b else nxt h p)" for p
    using lk e ne by (auto simp: h'_def)
  have prv': "prv h' p = (if p = b then e else if p = e then a else prv h p)" for p
    using lk e ne by (auto simp: h'_def)
  have dom': "dom h' = dom h" using lk e by (auto simp: h'_def)
  have d: "distinct (nodes l (as @ bs))" using ls by (simp add: is_list_def)
  have "is_list h' l (as @ [e] @ bs)"
  proof (rule is_list_replace [of h _ _ "[]"])
    show "\<forall>p \<in> set (butlast (l # as)) \<union> set (bs @ [list_tail l]). nxt h' p = nxt h p"
      using outer_links(1) [of l as "[]" bs, folded a_def] d e(1) by (metis nxt' append_Nil)
    show "\<forall>p \<in> set (l # as) \<union> set (tl (bs @ [list_tail l])). prv h' p = prv h p"
      using outer_links(2) [of l as "[]" bs, folded b_def] d e(1) by (metis prv' append_Nil)
    show "chain h' (last (l # as) # [e] @ [hd (bs @ [list_tail l])])"
      unfolding a_def [symmetric] b_def [symmetric] using ne by (simp add: nxt' prv')
    show "distinct (nodes l (as @ [e] @ bs))" using d e(1) by (auto simp: nodes_def)
  qed (use ls e dom' in simp_all)
  moreover have "h' p = h p" if "p \<notin> set (nodes l (as @ e # bs))" for p
  proof -
    have "p \<noteq> a" "p \<noteq> b" "p \<noteq> e" using that lk(8,9) by (auto simp: nodes_def)
    then show ?thesis by (simp add: h'_def upd_other)
  qed
  ultimately show ?thesis using that run dom' by (simp add: b_def)
qed

lemma list_next_ok:
  assumes "is_list h l (as @ bs)"
  defines "a \<equiv> last (l # as)" and "b \<equiv> hd (bs @ [list_tail l])"
  shows "list_next a h = Some b" "list_prev b h = Some a"
  using is_list_links [OF assms(1), folded a_def b_def]
  by (auto simp: list_next_def list_prev_def list_access)

lemma list_begin_ok: "is_list h l xs \<Longrightarrow> list_begin l h = Some (hd (xs @ [list_tail l]))"
  using is_list_links [of h l "[]" xs] by (simp add: list_begin_def get_ok)

lemma list_back_ok: "is_list h l xs \<Longrightarrow> get_prev (list_tail l) h = Some (last (l # xs))"
  using is_list_links [of h l xs "[]"] by (simp add: get_ok)

lemma list_remove_ok:
  assumes ls: "is_list h l (as @ e # bs)"
  obtains h' where "list_remove e h = Some (hd (bs @ [list_tail l]), h')" "is_list h' l (as @ bs)"
    "\<forall>p. p \<notin> set (nodes l (as @ bs)) \<longrightarrow> h' p = h p" "dom h' = dom h"
proof -
  define a where "a = last (l # as)"
  define b where "b = hd (bs @ [list_tail l])"
  note la = is_list_links [OF ls, folded a_def, simplified]
  have "is_list h l ((as @ [e]) @ bs)" using ls by simp
  note lb = is_list_links [OF this, folded b_def, simplified]
  have d: "distinct (nodes l (as @ [e] @ bs))" using ls by (simp add: is_list_def)
  have ab: "a \<noteq> b" using d la(8) lb(9) unfolding nodes_def by auto
  define h' where "h' = upd_prev b a (upd_next a b h)"
  have run: "list_remove e h = Some (b, h')"
    using la lb ab by (auto simp: list_remove_def list_access h'_def)
  have nxt': "nxt h' p = (if p = a then b else nxt h p)" for p using la lb by (auto simp: h'_def)
  have prv': "prv h' p = (if p = b then a else prv h p)" for p using la lb by (auto simp: h'_def)
  have dom': "dom h' = dom h" using la lb by (auto simp: h'_def)
  have "is_list h' l (as @ [] @ bs)"
  proof (rule is_list_replace [of h _ _ "[e]"])
    show "\<forall>p \<in> set (butlast (l # as)) \<union> set (bs @ [list_tail l]). nxt h' p = nxt h p"
      using outer_links(1) [OF d, folded a_def] by (metis nxt')
    show "\<forall>p \<in> set (l # as) \<union> set (tl (bs @ [list_tail l])). prv h' p = prv h p"
      using outer_links(2) [OF d, folded b_def] by (metis prv')
    show "chain h' (last (l # as) # [] @ [hd (bs @ [list_tail l])])"
      unfolding a_def [symmetric] b_def [symmetric] by (simp add: nxt' prv')
  qed (use ls d dom' in \<open>auto simp: nodes_def\<close>)
  moreover have "h' p = h p" if "p \<notin> set (nodes l (as @ bs))" for p
  proof -
    have "p \<noteq> a" "p \<noteq> b" using that la(8) lb(9) by (auto simp: nodes_def)
    then show ?thesis by (simp add: h'_def upd_other)
  qed
  ultimately show ?thesis using that run dom' by (simp add: b_def)
qed

lemma list_insert_ex:
  "is_list h l (as @ bs) \<Longrightarrow> e \<notin> set (nodes l (as @ bs)) \<Longrightarrow> e \<noteq> 0 \<Longrightarrow> e \<in> dom h \<Longrightarrow>
   \<exists>h'. list_insert (hd (bs @ [list_tail l])) e h = Some h' \<and> is_list h' l (as @ e # bs) \<and> dom h' = dom h"
  by (rule list_insert_ok [of h l as bs e]) blast+

lemma list_remove_ex:
  "is_list h l (as @ e # bs) \<Longrightarrow>
   \<exists>h'. list_remove e h = Some (hd (bs @ [list_tail l]), h') \<and> is_list h' l (as @ bs) \<and> dom h' = dom h"
  by (rule list_remove_ok [of h l as e bs]) blast+

section \<open>The interface of a list\<close>

text \<open>
  What the kernel relies on when it uses a list as a queue or a stack: \<open>rep h l xs\<close> says that
  list \<open>l\<close> holds the elements \<open>xs\<close>, \<open>fits\<close> that an element may be added, \<open>apart\<close> that a
  second list is not touched.
\<close>

locale kernel_list =
  fixes rep :: "'h \<Rightarrow> 'l \<Rightarrow> 'e list \<Rightarrow> bool"
    and fits :: "'h \<Rightarrow> 'l \<Rightarrow> 'e list \<Rightarrow> 'e \<Rightarrow> bool"
    and push_back :: "'l \<Rightarrow> 'e \<Rightarrow> 'h \<Rightarrow> 'h option"
    and push_front :: "'l \<Rightarrow> 'e \<Rightarrow> 'h \<Rightarrow> 'h option"
    and pop_front :: "'l \<Rightarrow> 'h \<Rightarrow> ('e \<times> 'h) option"
    and pop_back :: "'l \<Rightarrow> 'h \<Rightarrow> ('e \<times> 'h) option"
    and empty :: "'l \<Rightarrow> 'h \<Rightarrow> bool option"
  assumes push_back_law: "rep h l xs \<Longrightarrow> fits h l xs e \<Longrightarrow> \<exists>h'. push_back l e h = Some h' \<and>
      rep h' l (xs @ [e]) \<and> (\<forall>x. x \<noteq> e \<longrightarrow> fits h l xs x \<longrightarrow> fits h' l (xs @ [e]) x)"
    and push_front_law: "rep h l xs \<Longrightarrow> fits h l xs e \<Longrightarrow> \<exists>h'. push_front l e h = Some h' \<and>
      rep h' l (e # xs) \<and> (\<forall>x. x \<noteq> e \<longrightarrow> fits h l xs x \<longrightarrow> fits h' l (e # xs) x)"
    and pop_front_law: "rep h l (x # xs) \<Longrightarrow> \<exists>h'. pop_front l h = Some (x, h') \<and> rep h' l xs \<and> fits h' l xs x"
    and pop_back_law: "rep h l (xs @ [x]) \<Longrightarrow> \<exists>h'. pop_back l h = Some (x, h') \<and> rep h' l xs \<and> fits h' l xs x"
    and pop_empty_law: "rep h l [] \<Longrightarrow> pop_front l h = None \<and> pop_back l h = None"
    and empty_law: "rep h l xs \<Longrightarrow> empty l h = Some (xs = [])"

text \<open>Repeating an operation that returns a value.\<close>

primrec repeat_op :: "nat \<Rightarrow> ('h \<Rightarrow> ('e \<times> 'h) option) \<Rightarrow> 'h \<Rightarrow> ('e list \<times> 'h) option" where
  "repeat_op 0 f h = Some ([], h)"
| "repeat_op (Suc n) f h = do { (x, h) \<leftarrow> f h; (xs, h) \<leftarrow> repeat_op n f h; Some (x # xs, h) }"

context kernel_list
begin

lemma push_all:
  assumes "rep h l xs" "distinct es" "\<forall>e \<in> set es. fits h l xs e"
  shows "\<exists>h'. mfold (push_back l) es h = Some h' \<and> rep h' l (xs @ es)"
  using assms
proof (induction es arbitrary: h xs)
  case (Cons e es)
  obtain h1 where h1: "push_back l e h = Some h1" "rep h1 l (xs @ [e])"
    "\<forall>x. x \<noteq> e \<longrightarrow> fits h l xs x \<longrightarrow> fits h1 l (xs @ [e]) x"
    using push_back_law [OF Cons.prems(1), of e] Cons.prems(3) by auto
  then have "\<forall>x \<in> set es. fits h1 l (xs @ [e]) x" using Cons.prems(2,3) by auto
  then show ?case using Cons.IH [OF h1(2)] Cons.prems(2) h1(1) by auto
qed simp

lemma pop_all:
  assumes "rep h l (es @ xs)"
  shows "\<exists>h'. repeat_op (length es) (pop_front l) h = Some (es, h') \<and> rep h' l xs"
  using assms
proof (induction es arbitrary: h)
  case (Cons e es)
  then obtain h1 where h1: "pop_front l h = Some (e, h1)" "rep h1 l (es @ xs)"
    using pop_front_law [of h l e "es @ xs"] by auto
  then show ?case using Cons.IH [OF h1(2)] by auto
qed simp

text \<open>Elements leave at the front in the order in which they entered at the back.\<close>

lemma fifo:
  assumes "rep h l []" "distinct es" "\<forall>e \<in> set es. fits h l [] e"
  obtains h1 h2 where "mfold (push_back l) es h = Some h1"
    "repeat_op (length es) (pop_front l) h1 = Some (es, h2)" "rep h2 l []"
proof -
  obtain h1 where h1: "mfold (push_back l) es h = Some h1" "rep h1 l es" using push_all [OF assms] by auto
  then show ?thesis using that pop_all [of h1 l es "[]"] by auto
qed

end

definition lfits :: "lheap \<Rightarrow> nat \<Rightarrow> nat list \<Rightarrow> nat \<Rightarrow> bool" where
  "lfits h l xs e \<longleftrightarrow> e \<notin> set (nodes l xs) \<and> e \<noteq> 0 \<and> e \<in> dom h"

interpretation kl: kernel_list is_list lfits list_push_back list_push_front list_pop_front list_pop_back list_empty
proof
  fix h l xs e
  assume ls: "is_list h l xs" and fit: "lfits h l xs e"
  then have e: "e \<notin> set (nodes l xs)" "e \<noteq> 0" "e \<in> dom h" by (simp_all add: lfits_def)
  obtain h' where "list_insert (list_tail l) e h = Some h'" "is_list h' l (xs @ [e])" "dom h' = dom h"
    using list_insert_ex [of h l xs "[]" e] ls e by auto
  then show "\<exists>h'. list_push_back l e h = Some h' \<and> is_list h' l (xs @ [e]) \<and>
      (\<forall>x. x \<noteq> e \<longrightarrow> lfits h l xs x \<longrightarrow> lfits h' l (xs @ [e]) x)"
    by (auto simp: list_push_back_def list_end_def lfits_def nodes_def)
  obtain h' where "list_insert (hd (xs @ [list_tail l])) e h = Some h'" "is_list h' l (e # xs)" "dom h' = dom h"
    using list_insert_ex [of h l "[]" xs e] ls e by auto
  then show "\<exists>h'. list_push_front l e h = Some h' \<and> is_list h' l (e # xs) \<and>
      (\<forall>x. x \<noteq> e \<longrightarrow> lfits h l xs x \<longrightarrow> lfits h' l (e # xs) x)"
    using list_begin_ok [OF ls] by (auto simp: list_push_front_def lfits_def nodes_def)
next
  fix h l x xs
  assume ls: "is_list h l (x # xs)"
  have f: "x \<notin> set (nodes l xs)" "x \<noteq> 0" "x \<noteq> list_tail l" "x \<in> dom h"
    using ls by (auto simp: is_list_def nodes_def)
  obtain h' where "list_remove x h = Some (hd (xs @ [list_tail l]), h')" "is_list h' l xs" "dom h' = dom h"
    using list_remove_ex [of h l "[]" x xs] ls by auto
  then show "\<exists>h'. list_pop_front l h = Some (x, h') \<and> is_list h' l xs \<and> lfits h' l xs x"
    using list_begin_ok [OF ls] is_list_links(3,5) [of h l "[]" "x # xs"] is_list_links(1) [of h l "[]" "x # xs"] ls f
    by (auto simp: list_pop_front_def list_front_def list_empty_def list_end_def get_ok lfits_def)
next
  fix h l x xs
  assume ls: "is_list h l (xs @ [x])"
  have f: "x \<notin> set (nodes l xs)" "x \<noteq> 0" "hd (xs @ [x]) \<noteq> list_tail l" "x \<in> dom h"
    using ls by (cases xs; auto simp: is_list_def nodes_def)+
  obtain h' where "list_remove x h = Some (list_tail l, h')" "is_list h' l xs" "dom h' = dom h"
    using list_remove_ex [of h l xs x "[]"] ls by auto
  moreover have "list_begin l h = Some (hd (xs @ [x]))" using list_begin_ok [OF ls] by (cases xs) simp_all
  ultimately show "\<exists>h'. list_pop_back l h = Some (x, h') \<and> is_list h' l xs \<and> lfits h' l xs x"
    using list_back_ok [OF ls] f
    by (auto simp: list_pop_back_def list_back_def list_empty_def list_end_def lfits_def)
next
  fix h l
  assume "is_list h l []"
  then show "list_pop_front l h = None \<and> list_pop_back l h = None"
    using list_begin_ok [of h l "[]"]
    by (simp add: list_pop_front_def list_pop_back_def list_front_def list_back_def list_empty_def list_end_def)
next
  fix h l xs
  assume ls: "is_list h l xs"
  then have "hd (xs @ [list_tail l]) = list_tail l \<longleftrightarrow> xs = []"
    by (cases xs) (auto simp: is_list_def nodes_def)
  then show "list_empty l h = Some (xs = [])"
    using list_begin_ok [OF ls] by (simp add: list_empty_def list_end_def)
qed

end
