(* ===== verification/List_Ops.thy ===== *)
theory List_Ops
  imports Lists
begin

text \<open>
  The operations of \<open>lib/kernel/list.c\<close> that walk or rearrange a list, specified on the
  sequence of its elements: \<open>list_splice\<close>, \<open>list_size\<close>, \<open>list_reverse\<close>,
  \<open>list_insert_ordered\<close>, \<open>list_max\<close> and \<open>list_min\<close>.
\<close>

section \<open>Positions of a list\<close>

text \<open>The address of the element at the start of the rest \<open>bs\<close> of list \<open>l\<close>.\<close>

definition lpos :: "nat \<Rightarrow> nat list \<Rightarrow> nat" where
  "lpos l bs = hd (bs @ [list_tail l])"

lemma lpos_simps [simp]: "lpos l [] = list_tail l" "lpos l (b # bs) = b"
  by (simp_all add: lpos_def)

lemma lpos_eq:
  assumes "is_list h l (as @ bs @ cs)"
  shows "lpos l (bs @ cs) = lpos l cs \<longleftrightarrow> bs = []"
proof -
  have "distinct (bs @ cs @ [list_tail l])" using assms by (simp add: is_list_def nodes_def)
  then show ?thesis by (cases bs; cases cs) auto
qed

lemma lpos_end: "is_list h l (as @ bs) \<Longrightarrow> lpos l bs = list_end l \<longleftrightarrow> bs = []"
  using lpos_eq [of h l as bs "[]"] by (simp add: list_end_def)

lemma lpos_nonzero: "is_list h l (as @ bs) \<Longrightarrow> lpos l bs \<noteq> 0"
  by (cases bs) (auto simp: is_list_def nodes_def)

lemma list_begin_pos: "is_list h l xs \<Longrightarrow> list_begin l h = Some (lpos l xs)"
  by (simp add: list_begin_ok lpos_def)

lemma list_next_pos:
  assumes "is_list h l (as @ b # bs)"
  shows "list_next b h = Some (lpos l bs)"
  using list_next_ok(1) [of h l "as @ [b]" bs] assms by (simp add: lpos_def)

lemma list_prev_pos:
  assumes "is_list h l (as @ b # bs)"
  shows "list_prev (lpos l bs) h = Some b"
  using list_next_ok(2) [of h l "as @ [b]" bs] assms by (simp add: lpos_def)

lemmas list_lpos = list_begin_pos list_next_pos list_prev_pos

section \<open>Walking a list\<close>

lemma size_loop_ok:
  assumes "is_list h l (as @ bs)" "n + length bs < 2 ^ 32"
  shows "size_loop l (lpos l bs) n h = Some (n + length bs)"
  using assms
proof (induction bs arbitrary: as n)
  case Nil
  then show ?case by (simp add: size_loop.simps list_end_def)
next
  case (Cons b bs)
  moreover have "b \<noteq> list_end l" using lpos_end [OF Cons.prems(1)] by simp
  ultimately show ?case using Cons.IH [of "as @ [b]" "n + 1"] list_next_pos [OF Cons.prems(1)]
    by (subst size_loop.simps) (simp add: szt_def)
qed

lemma list_size_ok: "is_list h l xs \<Longrightarrow> length xs < 2 ^ 32 \<Longrightarrow> list_size l h = Some (length xs)"
  using size_loop_ok [of h l "[]" xs 0] by (simp add: list_size_def list_begin_pos)

lemma ordered_loop_ok:
  assumes "is_list h l (as @ bs)"
  shows "ordered_loop l x (lpos l bs) lt h = Some (lpos l (dropWhile (\<lambda>y. \<not> lt x y) bs))"
  using assms
proof (induction bs arbitrary: as)
  case Nil
  then show ?case by (simp add: ordered_loop.simps list_end_def)
next
  case (Cons b bs)
  moreover have "b \<noteq> list_end l" using lpos_end [OF Cons.prems(1)] by simp
  ultimately show ?case using Cons.IH [of "as @ [b]"] list_next_pos [OF Cons.prems(1)]
    by (subst ordered_loop.simps) simp
qed

lemma list_insert_ordered_ok:
  assumes ls: "is_list h l xs" and e: "lfits h l xs x"
  shows "\<exists>h'. list_insert_ordered l x lt h = Some h' \<and> dom h' = dom h \<and>
    is_list h' l (takeWhile (\<lambda>y. \<not> lt x y) xs @ x # dropWhile (\<lambda>y. \<not> lt x y) xs)"
proof -
  have "is_list h l (takeWhile (\<lambda>y. \<not> lt x y) xs @ dropWhile (\<lambda>y. \<not> lt x y) xs)" "l \<noteq> 0"
    using ls by (auto simp: is_list_def nodes_def)
  then show ?thesis
    using list_insert_ex [of h l "takeWhile (\<lambda>y. \<not> lt x y) xs" "dropWhile (\<lambda>y. \<not> lt x y) xs" x] e
      ordered_loop_ok [of h l "[]" xs x lt] ls
    by (auto simp: list_insert_ordered_def list_begin_pos lfits_def lpos_def [symmetric])
qed

lemma max_loop_ok:
  assumes "is_list h l (as @ bs)"
  shows "max_loop l m (lpos l bs) lt h = Some (foldl (\<lambda>m e. if lt m e then e else m) m bs)"
  using assms
proof (induction bs arbitrary: as m)
  case Nil
  then show ?case by (simp add: max_loop.simps list_end_def)
next
  case (Cons b bs)
  moreover have "b \<noteq> list_end l" using lpos_end [OF Cons.prems(1)] by simp
  ultimately show ?case using Cons.IH [of "as @ [b]"] list_next_pos [OF Cons.prems(1)]
    by (subst max_loop.simps) simp
qed

lemma min_loop_ok:
  assumes "is_list h l (as @ bs)"
  shows "min_loop l m (lpos l bs) lt h = Some (foldl (\<lambda>m e. if lt e m then e else m) m bs)"
  using assms
proof (induction bs arbitrary: as m)
  case Nil
  then show ?case by (simp add: min_loop.simps list_end_def)
next
  case (Cons b bs)
  moreover have "b \<noteq> list_end l" using lpos_end [OF Cons.prems(1)] by simp
  ultimately show ?case using Cons.IH [of "as @ [b]"] list_next_pos [OF Cons.prems(1)]
    by (subst min_loop.simps) simp
qed

text \<open>\<open>lt\<close> orders the elements: a strict weak order, as a comparison of keys is.\<close>

definition weak_order :: "less_func \<Rightarrow> bool" where
  "weak_order lt \<longleftrightarrow> (\<forall>a b. lt a b \<longrightarrow> \<not> lt b a) \<and> (\<forall>a b c. \<not> lt a b \<longrightarrow> \<not> lt b c \<longrightarrow> \<not> lt a c)"

lemma weak_orderD:
  "weak_order lt \<Longrightarrow> lt a b \<Longrightarrow> \<not> lt b a"
  "weak_order lt \<Longrightarrow> \<not> lt a b \<Longrightarrow> \<not> lt b c \<Longrightarrow> \<not> lt a c"
  unfolding weak_order_def by blast+

lemma fold_max:
  assumes "weak_order lt"
  defines "r m bs \<equiv> foldl (\<lambda>m e. if lt m e then e else m) m bs"
  shows "r m bs \<in> set (m # bs) \<and> (\<forall>y \<in> set (m # bs). \<not> lt (r m bs) y)"
proof (induction bs arbitrary: m)
  case Nil
  then show ?case using weak_orderD(1) [OF assms(1)] by (auto simp: r_def)
next
  case (Cons b bs)
  have s: "r m (b # bs) = r (if lt m b then b else m) bs" by (simp add: r_def)
  show ?case
  proof (cases "lt m b")
    case True
    then have i: "r m (b # bs) \<in> set (b # bs)" "\<forall>y \<in> set (b # bs). \<not> lt (r m (b # bs)) y"
      using Cons.IH [of b] s by simp_all
    moreover have "\<not> lt (r m (b # bs)) m"
      using i(2) weak_orderD(2) [OF assms(1), of "r m (b # bs)" "b" "m"] weak_orderD(1) [OF assms(1) True] by simp
    ultimately show ?thesis by auto
  next
    case False
    then have i: "r m (b # bs) \<in> set (m # bs)" "\<forall>y \<in> set (m # bs). \<not> lt (r m (b # bs)) y"
      using Cons.IH [of m] s by simp_all
    moreover have "\<not> lt (r m (b # bs)) b"
      using i(2) weak_orderD(2) [OF assms(1), of "r m (b # bs)" "m" "b"] False by simp
    ultimately show ?thesis by auto
  qed
qed

lemma fold_min:
  assumes "weak_order lt"
  defines "r m bs \<equiv> foldl (\<lambda>m e. if lt e m then e else m) m bs"
  shows "r m bs \<in> set (m # bs) \<and> (\<forall>y \<in> set (m # bs). \<not> lt y (r m bs))"
proof (induction bs arbitrary: m)
  case Nil
  then show ?case using weak_orderD(1) [OF assms(1)] by (auto simp: r_def)
next
  case (Cons b bs)
  have s: "r m (b # bs) = r (if lt b m then b else m) bs" by (simp add: r_def)
  show ?case
  proof (cases "lt b m")
    case True
    then have i: "r m (b # bs) \<in> set (b # bs)" "\<forall>y \<in> set (b # bs). \<not> lt y (r m (b # bs))"
      using Cons.IH [of b] s by simp_all
    moreover have "\<not> lt m (r m (b # bs))"
      using i(2) weak_orderD(2) [OF assms(1), of "m" "b" "r m (b # bs)"] weak_orderD(1) [OF assms(1) True] by simp
    ultimately show ?thesis by auto
  next
    case False
    then have i: "r m (b # bs) \<in> set (m # bs)" "\<forall>y \<in> set (m # bs). \<not> lt y (r m (b # bs))"
      using Cons.IH [of m] s by simp_all
    moreover have "\<not> lt b (r m (b # bs))"
      using i(2) weak_orderD(2) [OF assms(1), of "b" "m" "r m (b # bs)"] False by simp
    ultimately show ?thesis by auto
  qed
qed

lemma list_max_min_ok:
  assumes "is_list h l (x # xs)" "weak_order lt"
  obtains m n where "list_max l lt h = Some m" "m \<in> set (x # xs)" "\<forall>y \<in> set (x # xs). \<not> lt m y"
    "list_min l lt h = Some n" "n \<in> set (x # xs)" "\<forall>y \<in> set (x # xs). \<not> lt y n"
proof -
  have "x \<noteq> list_end l" using lpos_end [of h l "[]" "x # xs"] assms(1) by simp
  moreover have "list_begin l h = Some x" "list_next x h = Some (lpos l xs)"
    using list_begin_pos [OF assms(1)] list_next_pos [of h l "[]" x xs] assms(1) by simp_all
  ultimately show ?thesis
    using that fold_max [OF assms(2), of x xs] fold_min [OF assms(2), of x xs] assms(1)
      max_loop_ok [of h l "[x]" xs] min_loop_ok [of h l "[x]" xs]
    by (simp add: list_max_def list_min_def)
qed

section \<open>Splicing\<close>

text \<open>\<open>list_splice\<close> inside one list: a non-empty segment moves in front of an earlier one.\<close>

lemma ends_of_segments:
  assumes "distinct (A @ B @ F @ C)" "A \<noteq> []" "B \<noteq> []" "F \<noteq> []" "C \<noteq> []"
  shows "last A \<noteq> last B" "last A \<noteq> last F" "last B \<noteq> last F" "hd B \<noteq> hd F" "hd B \<noteq> hd C" "hd F \<noteq> hd C"
    "hd F \<in> set F" "last F \<in> set F" "hd B \<in> set B" "last B \<in> set B" "last A \<in> set A" "hd C \<in> set C"
proof -
  have i: "hd F \<in> set F" "last F \<in> set F" "hd B \<in> set B" "last B \<in> set B" "last A \<in> set A" "hd C \<in> set C"
    using assms by auto
  then show "hd F \<in> set F" "last F \<in> set F" "hd B \<in> set B" "last B \<in> set B" "last A \<in> set A" "hd C \<in> set C"
    by blast+
  have d: "set A \<inter> set B = {}" "set A \<inter> set F = {}" "set B \<inter> set F = {}" "set B \<inter> set C = {}" "set F \<inter> set C = {}"
    using assms(1) by auto
  show "last A \<noteq> last B" "last A \<noteq> last F" "last B \<noteq> last F" "hd B \<noteq> hd F" "hd B \<noteq> hd C" "hd F \<noteq> hd C"
    using i d by (metis disjoint_iff)+
qed

lemma distinct_ends:
  "distinct xs \<Longrightarrow> p \<in> set (butlast xs) \<Longrightarrow> p \<noteq> last xs"
  "distinct xs \<Longrightarrow> p \<in> set (tl xs) \<Longrightarrow> p \<noteq> hd xs"
proof -
  show "distinct xs \<Longrightarrow> p \<in> set (butlast xs) \<Longrightarrow> p \<noteq> last xs"
    by (cases xs rule: rev_cases) auto
  show "distinct xs \<Longrightarrow> p \<in> set (tl xs) \<Longrightarrow> p \<noteq> hd xs"
    by (cases xs) auto
qed

lemma chain_cong_ends:
  assumes "distinct S" "\<And>p. p \<in> set S \<Longrightarrow> p \<noteq> last S \<Longrightarrow> nxt h' p = nxt h p"
    "\<And>p. p \<in> set S \<Longrightarrow> p \<noteq> hd S \<Longrightarrow> prv h' p = prv h p"
  shows "chain h' S = chain h S"
proof (rule chain_cong)
  show "\<forall>p \<in> set (butlast S). nxt h' p = nxt h p"
    using assms(2) distinct_ends(1) [OF assms(1)] by (blast dest: in_set_butlastD)
  have "set (tl S) \<subseteq> set S" by (cases S) auto
  then show "\<forall>p \<in> set (tl S). prv h' p = prv h p"
    using assms(3) distinct_ends(2) [OF assms(1)] by blast
qed

lemma is_list_interior:
  assumes "is_list h l xs" "x \<in> set xs"
  shows "nxt h x \<noteq> 0" "prv h x \<noteq> 0" "x \<noteq> 0" "x \<in> dom h"
proof -
  obtain as bs where xs: "xs = as @ x # bs" using assms(2) by (meson split_list)
  show "nxt h x \<noteq> 0" using is_list_links(1,4) [of h l "as @ [x]" bs] assms(1) xs by simp
  show "prv h x \<noteq> 0" using is_list_links(2,3) [of h l as "x # bs"] assms(1) xs by simp
  show "x \<noteq> 0" "x \<in> dom h" using assms(1) xs by (auto simp: is_list_def nodes_def)
qed

lemma chain_moved:
  assumes ch: "chain h (A @ B @ F @ C)" and d: "distinct (A @ B @ F @ C)"
    and ne: "A \<noteq> []" "B \<noteq> []" "F \<noteq> []" "C \<noteq> []"
    and nx: "\<And>p. nxt h' p = (if p = last A then hd F else if p = last F then hd B
      else if p = last B then hd C else nxt h p)"
    and pv: "\<And>p. prv h' p = (if p = hd B then last F else if p = hd F then last A
      else if p = hd C then last B else prv h p)"
  shows "chain h' (A @ F @ B @ C)"
proof -
  note e = ends_of_segments [OF d ne]
  have seg: "chain h A" "chain h B" "chain h F" "chain h C"
    using ch ne by (simp_all add: chain_append)
  have dA: "distinct A" "distinct B" "distinct F" "distinct C" using d by auto
  have ni: "last A \<notin> set B" "last A \<notin> set F" "last A \<notin> set C" "last F \<notin> set A" "last F \<notin> set B" "last F \<notin> set C"
    "last B \<notin> set A" "last B \<notin> set F" "last B \<notin> set C" "hd B \<notin> set A" "hd B \<notin> set F" "hd B \<notin> set C"
    "hd F \<notin> set A" "hd F \<notin> set B" "hd F \<notin> set C" "hd C \<notin> set A" "hd C \<notin> set B" "hd C \<notin> set F"
    using d e(7-12) by auto
  have "chain h' A = chain h A" "chain h' B = chain h B" "chain h' F = chain h F" "chain h' C = chain h C"
    by (rule chain_cong_ends; use dA ni in \<open>simp add: nx pv\<close>; metis ni)+
  moreover have "nxt h' (last A) = hd F" "prv h' (hd F) = last A" "nxt h' (last F) = hd B" "prv h' (hd B) = last F"
    "nxt h' (last B) = hd C" "prv h' (hd C) = last B"
    using e by (auto simp: nx pv)
  ultimately show ?thesis using seg ne by (simp add: chain_append)
qed

lemma list_splice_ok:
  assumes ls: "is_list h l (as @ bs @ fs @ cs)" and ne: "bs \<noteq> []" "fs \<noteq> []"
  shows "\<exists>h'. list_splice (hd bs) (hd fs) (lpos l cs) h = Some h' \<and> is_list h' l (as @ fs @ bs @ cs) \<and> dom h' = dom h"
proof -
  let ?A = "l # as" and ?C = "cs @ [list_tail l]"
  have dt: "distinct (?A @ bs @ fs @ ?C)" and ch: "chain h (?A @ bs @ fs @ ?C)"
    and st: "0 \<notin> set (?A @ bs @ fs @ ?C)" "set (?A @ bs @ fs @ ?C) \<subseteq> dom h"
    and en: "prv h l = 0" "nxt h (list_tail l) = 0"
    using ls by (simp_all add: is_list_def nodes_def)
  define a b0 b1 f0 f1 c where v: "a = last ?A" "b0 = hd bs" "b1 = last bs" "f0 = hd fs" "f1 = last fs" "c = hd ?C"
  note e = ends_of_segments [OF dt _ ne, simplified, folded v]
  have lk: "nxt h a = b0" "prv h b0 = a" "nxt h b1 = f0" "prv h f0 = b1" "nxt h f1 = c" "prv h c = f1"
    using ch ne chain_append [of ?A "bs @ fs @ ?C" h] chain_append [of bs "fs @ ?C" h] chain_append [of fs ?C h]
    unfolding v by auto
  define N where "N = set (?A @ bs @ fs @ ?C)"
  have mem: "a \<in> N" "b0 \<in> N" "b1 \<in> N" "f0 \<in> N" "f1 \<in> N" "c \<in> N"
    using ends_of_segments(7-12) [OF dt _ ne] unfolding v N_def set_append by blast+
  have nz: "a \<noteq> 0" "b0 \<noteq> 0" "b1 \<noteq> 0" "f0 \<noteq> 0" "f1 \<noteq> 0" "c \<noteq> 0"
    and dm: "a \<in> dom h" "b0 \<in> dom h" "b1 \<in> dom h" "f0 \<in> dom h" "f1 \<in> dom h" "c \<in> dom h"
    using mem st unfolding N_def [symmetric] by (metis subsetD)+
  have sym: "lpos l cs = c" by (simp add: lpos_def v)
  have pc: "list_prev c h = Some f1"
    using nz dm lk by (auto simp: list_prev_def list_access)
  have ff: "nxt h f0 \<noteq> 0" "prv h f1 \<noteq> 0" "nxt h b0 \<noteq> 0"
    using is_list_interior(1) [OF ls, of f0] is_list_interior(1) [OF ls, of b0] is_list_interior(2) [OF ls, of f1] ne by (auto simp: v)
  define h' where "h' = upd_prev b0 f1 (upd_next a f0 (upd_next f1 b0 (upd_prev f0 a (upd_prev c b1 (upd_next b1 c h)))))"
  have run: "list_splice b0 f0 c h = Some h'"
    using nz dm lk e ff pc by (simp add: list_splice_def list_access h'_def)
  have nx: "nxt h' p = (if p = a then f0 else if p = f1 then b0 else if p = b1 then c else nxt h p)" for p
    using dm by (simp add: h'_def)
  have pv: "prv h' p = (if p = b0 then f1 else if p = f0 then a else if p = c then b1 else prv h p)" for p
    using dm by (simp add: h'_def)
  have dom': "dom h' = dom h" using dm by (auto simp: h'_def)
  have "chain h' (?A @ fs @ bs @ ?C)"
    by (rule chain_moved [OF ch dt _ ne]) (use nx pv in \<open>simp_all add: v\<close>)
  moreover have "l \<noteq> b0" "l \<noteq> f0" "l \<noteq> c" "list_tail l \<noteq> a" "list_tail l \<noteq> f1" "list_tail l \<noteq> b1"
    using dt ends_of_segments(7-12) [OF dt _ ne, folded v] by auto
  then have "prv h' l = 0" "nxt h' (list_tail l) = 0" using en by (simp_all add: nx pv)
  ultimately have "is_list h' l (as @ fs @ bs @ cs)"
    using st dt dom' unfolding is_list_def nodes_def by auto
  then show ?thesis using run dom' by (auto simp: sym v)
qed

section \<open>Reversal\<close>

lemma chain_rev:
  assumes "chain h ys" "\<forall>p \<in> set (tl ys). nxt h' p = prv h p" "\<forall>p \<in> set (butlast ys). prv h' p = nxt h p"
  shows "chain h' (rev ys)"
  using assms
proof (induction h ys rule: chain.induct)
  case (1 h a b ys)
  then have "chain h' (rev (b # ys))" by (cases ys) auto
  moreover have "nxt h' b = a" "prv h' a = b" using 1 by auto
  ultimately show ?case using chain_snoc [of h' "rev ys" b a] by simp
qed simp_all

lemma swap_links_ok:
  assumes "e \<noteq> 0" "e \<in> dom h"
  obtains h' where "swap_links e h = Some h'" "dom h' = dom h"
    "\<And>p. nxt h' p = (if p = e then prv h e else nxt h p)" "\<And>p. prv h' p = (if p = e then nxt h e else prv h p)"
proof (rule that [of "upd_next e (prv h e) (upd_prev e (nxt h e) h)"])
  show "swap_links e h = Some (upd_next e (prv h e) (upd_prev e (nxt h e) h))"
    using assms by (simp add: swap_links_def list_access)
qed (use assms in auto)

lemma reverse_loop_ok:
  assumes "chain h (bs @ [list_tail l])" "distinct (bs @ [list_tail l])" "0 \<notin> set bs" "set bs \<subseteq> dom h"
  shows "\<exists>h'. reverse_loop l (lpos l bs) h = Some h' \<and> dom h' = dom h \<and>
    (\<forall>p. nxt h' p = (if p \<in> set bs then prv h p else nxt h p) \<and>
         prv h' p = (if p \<in> set bs then nxt h p else prv h p))"
  using assms
proof (induction bs arbitrary: h)
  case Nil
  then show ?case by (simp add: reverse_loop.simps list_end_def)
next
  case (Cons b bs)
  have b: "b \<noteq> 0" "b \<in> dom h" "b \<noteq> list_end l" "b \<notin> set (bs @ [list_tail l])"
    using Cons.prems by (auto simp: list_end_def)
  obtain h1 where h1: "swap_links b h = Some h1" "dom h1 = dom h"
    "\<And>p. nxt h1 p = (if p = b then prv h b else nxt h p)" "\<And>p. prv h1 p = (if p = b then nxt h b else prv h p)"
    using swap_links_ok [OF b(1,2)] by blast
  have "nxt h b = lpos l bs" using Cons.prems(1) by (cases bs) auto
  then have g: "get_prev b h1 = Some (lpos l bs)" using b h1 by (simp add: get_ok)
  have "chain h (bs @ [list_tail l])" using Cons.prems(1) by (cases bs) auto
  moreover have "chain h1 (bs @ [list_tail l]) = chain h (bs @ [list_tail l])"
    using b Cons.prems(2) by (intro chain_cong_ends) (auto simp: h1)
  ultimately obtain h' where h': "reverse_loop l (lpos l bs) h1 = Some h'" "dom h' = dom h"
    "\<forall>p. nxt h' p = (if p \<in> set bs then prv h1 p else nxt h1 p) \<and>
         prv h' p = (if p \<in> set bs then nxt h1 p else prv h1 p)"
    using Cons.IH [of h1] Cons.prems h1(2) by auto
  have "reverse_loop l b h = Some h'" using b h1(1) g h'(1) by (subst reverse_loop.simps) simp
  moreover have "\<forall>p. nxt h' p = (if p \<in> set (b # bs) then prv h p else nxt h p) \<and>
         prv h' p = (if p \<in> set (b # bs) then nxt h p else prv h p)"
    using h'(3) b by (simp add: h1)
  ultimately show ?case using h'(2) by auto
qed

lemma swap_next_prev_ok:
  assumes "a \<noteq> 0" "a \<in> dom h" "b \<noteq> 0" "b \<in> dom h"
  obtains h' where "swap_next_prev a b h = Some h'" "dom h' = dom h"
    "\<And>p. nxt h' p = (if p = a then prv h b else nxt h p)" "\<And>p. prv h' p = (if p = b then nxt h a else prv h p)"
proof (rule that [of "upd_prev b (nxt h a) (upd_next a (prv h b) h)"])
  show "swap_next_prev a b h = Some (upd_prev b (nxt h a) (upd_next a (prv h b) h))"
    using assms by (simp add: swap_next_prev_def list_access)
qed (use assms in auto)

lemma list_reverse_ok:
  assumes ls: "is_list h l xs"
  shows "\<exists>h'. list_reverse l h = Some h' \<and> is_list h' l (rev xs) \<and> dom h' = dom h"
proof (cases "xs = []")
  case True
  then show ?thesis using kl.empty_law [OF ls] ls by (simp add: list_reverse_def)
next
  case False
  let ?t = "list_tail l"
  define x y where xy: "x = hd xs" "y = last xs"
  have st: "distinct (l # xs @ [?t])" "0 \<notin> set (l # xs @ [?t])" "set (l # xs @ [?t]) \<subseteq> dom h"
    and ch: "chain h (l # xs @ [?t])" and en: "prv h l = 0" "nxt h ?t = 0"
    using ls by (simp_all add: is_list_def nodes_def)
  have "chain h (xs @ [?t])" and cx: "chain h xs" and lk: "nxt h l = x" "prv h x = l" "nxt h y = ?t" "prv h ?t = y"
    using ch False chain_append [of "[l]" "xs @ [?t]" h] chain_append [of xs "[?t]" h] by (simp_all add: xy)
  then obtain h1 where h1: "reverse_loop l (lpos l xs) h = Some h1" "dom h1 = dom h"
    "\<forall>p. nxt h1 p = (if p \<in> set xs then prv h p else nxt h p) \<and>
         prv h1 p = (if p \<in> set xs then nxt h p else prv h p)"
    using reverse_loop_ok [of h xs l] st by auto
  have m: "x \<in> set xs" "y \<in> set xs" "l \<notin> set xs" "?t \<notin> set xs" "l \<noteq> ?t" "l \<noteq> 0" "?t \<noteq> 0" "l \<in> dom h" "?t \<in> dom h"
    using False st by (simp_all add: xy)
  have xy': "x \<noteq> 0" "y \<noteq> 0" "x \<in> dom h" "y \<in> dom h" using is_list_interior(3,4) [OF ls] m by blast+
  have l1: "prv h1 ?t = y" "nxt h1 l = x" using h1(3) m lk by simp_all
  obtain h2 where h2: "swap_next_prev l ?t h1 = Some h2" "dom h2 = dom h"
    "\<And>p. nxt h2 p = (if p = l then y else nxt h1 p)" "\<And>p. prv h2 p = (if p = ?t then x else prv h1 p)"
    using swap_next_prev_ok [of l h1 ?t, unfolded l1 h1(2)] m by blast
  obtain h3 where h3: "swap_next_prev x y h2 = Some h3" "dom h3 = dom h"
    "\<And>p. nxt h3 p = (if p = x then prv h2 y else nxt h2 p)" "\<And>p. prv h3 p = (if p = y then nxt h2 x else prv h2 p)"
    using swap_next_prev_ok [of x h2 y, unfolded h2(2)] xy' by blast
  have nx: "nxt h3 p = (if p = l then y else if p = x then ?t else if p \<in> set xs then prv h p else nxt h p)" for p
    using m lk h1(3) by (auto simp: h3 h2)
  have pv: "prv h3 p = (if p = ?t then x else if p = y then l else if p \<in> set xs then nxt h p else prv h p)" for p
    using m lk h1(3) by (auto simp: h3 h2)
  have run: "list_reverse l h = Some h3"
    using kl.empty_law [OF ls] False h1(1) h2(1,2) h3(1) list_begin_pos [OF ls] m
    by (simp add: list_reverse_def get_ok h2(3,4))
  have "chain h3 (rev xs)"
  proof (rule chain_rev [OF cx])
    have "distinct xs" using st by simp
    note d = distinct_ends [OF this, folded xy]
    have "set (tl xs) \<subseteq> set xs" by (cases xs) auto
    then show "\<forall>p \<in> set (tl xs). nxt h3 p = prv h p" using d(2) m(3) by (simp add: nx) blast
    show "\<forall>p \<in> set (butlast xs). prv h3 p = nxt h p"
      using d(1) m(4) by (simp add: pv) (blast dest: in_set_butlastD)
  qed
  moreover have "hd (rev xs @ [?t]) = y" "last (rev xs) = x" using False by (simp_all add: xy hd_rev last_rev)
  moreover have "x \<noteq> l" "y \<noteq> ?t" using m by metis+
  ultimately have "chain h3 (l # rev xs @ [?t])"
    using chain_append [of "[l]" "rev xs @ [?t]" h3] chain_append [of "rev xs" "[?t]" h3] False
    by (simp add: nx pv)
  moreover have "prv h3 l = 0" "nxt h3 ?t = 0" using m en by (auto simp: nx pv)
  ultimately have "is_list h3 l (rev xs)" using st h3(2) by (auto simp: is_list_def nodes_def)
  then show ?thesis using run h3(2) by blast
qed

end
