(* ===== verification/List_Sort.thy ===== *)
theory List_Sort
  imports List_Ops "HOL-Library.Multiset"
begin

text \<open>
  \<open>list_sort\<close> of \<open>lib/kernel/list.c\<close>, a natural merge sort in place: every pass merges
  pairs of adjacent runs until one run is left.  The loops on the linked list are shown to
  compute functions on the sequence of elements, and those to sort it.
\<close>

section \<open>Runs, merges and passes on sequences\<close>

fun run_split :: "less_func \<Rightarrow> nat \<Rightarrow> nat list \<Rightarrow> nat list \<times> nat list" where
  "run_split lt a [] = ([a], [])"
| "run_split lt a (b # bs) = (if \<not> lt b a then (case run_split lt b bs of (r, rest) \<Rightarrow> (a # r, rest)) else ([a], b # bs))"

fun mrg :: "less_func \<Rightarrow> nat list \<Rightarrow> nat list \<Rightarrow> nat list" where
  "mrg lt [] bs = bs"
| "mrg lt as [] = as"
| "mrg lt (a # as) (b # bs) = (if \<not> lt b a then a # mrg lt as (b # bs) else b # mrg lt (a # as) bs)"

text \<open>Adjacent elements are in order.\<close>

fun ascending :: "less_func \<Rightarrow> nat list \<Rightarrow> bool" where
  "ascending lt (a # b # xs) \<longleftrightarrow> \<not> lt b a \<and> ascending lt (b # xs)"
| "ascending lt xs \<longleftrightarrow> True"

text \<open>The number of maximal ascending runs.\<close>

fun runs :: "less_func \<Rightarrow> nat list \<Rightarrow> nat" where
  "runs lt [] = 0"
| "runs lt [a] = 1"
| "runs lt (a # b # xs) = (if lt b a then 1 else 0) + runs lt (b # xs)"

lemma run_split_spec:
  "run_split lt a xs = (r, rest) \<Longrightarrow>
     a # xs = r @ rest \<and> r \<noteq> [] \<and> hd r = a \<and> ascending lt r \<and> runs lt (a # xs) = 1 + runs lt rest"
proof (induction xs arbitrary: a r rest)
  case (Cons b xs)
  show ?case
  proof (cases "lt b a")
    case False
    obtain r' where r': "run_split lt b xs = (r', rest)" "r = a # r'"
      using Cons.prems False by (cases "run_split lt b xs") simp
    have i: "b # xs = r' @ rest" "r' \<noteq> []" "hd r' = b" "ascending lt r'" "runs lt (b # xs) = 1 + runs lt rest"
      using Cons.IH [OF r'(1)] by blast+
    obtain r'' where r'': "r' = b # r''" using i(2,3) by (cases r') simp_all
    have "ascending lt (a # r')" using i(4) False unfolding r'' by simp
    moreover have "runs lt (a # b # xs) = 1 + runs lt rest" using i(5) False by (simp only: runs.simps) simp
    moreover have "a # b # xs = r @ rest" unfolding i(1) r'(2) by simp
    ultimately show ?thesis unfolding r'(2) list.sel by (intro conjI refl list.distinct(2))
  qed (use Cons.prems in auto)
qed simp

lemma run_split_length: "(r, rest) = run_split lt a xs \<Longrightarrow> length rest \<le> length xs"
proof -
  assume "(r, rest) = run_split lt a xs"
  then have "a # xs = r @ rest" "r \<noteq> []" using run_split_spec [of lt a xs r rest] by auto
  then show ?thesis by (cases r) auto
qed

function pass :: "less_func \<Rightarrow> nat list \<Rightarrow> nat list" where
  "pass lt [] = []"
| "pass lt (x # xs) = (case run_split lt x xs of (r1, rest) \<Rightarrow>
     (case rest of [] \<Rightarrow> r1
      | y # ys \<Rightarrow> (case run_split lt y ys of (r2, rest2) \<Rightarrow> mrg lt r1 r2 @ pass lt rest2)))"
  by pat_completeness auto
termination
proof (relation "measure (length \<circ> snd)")
  fix lt x xs r1 rest y ys r2 rest2
  assume "(r1, rest) = run_split lt x xs" "rest = y # ys" "(r2, rest2) = run_split lt y ys"
  then have "length rest \<le> length xs" "length rest2 < length rest"
    using run_split_length [of r1 rest lt x xs] run_split_length [of r2 rest2 lt y ys] by auto
  then show "((lt, rest2), lt, x # xs) \<in> measure (length \<circ> snd)" by simp
qed simp

lemmas pass_Cons = pass.simps(2)
declare pass.simps(2) [simp del]

lemma mset_mrg [simp]: "mset (mrg lt as bs) = mset as + mset bs"
  by (induction lt as bs rule: mrg.induct) auto

lemma ascending_Cons: "ascending lt (a # xs) \<longleftrightarrow> ascending lt xs \<and> (xs = [] \<or> \<not> lt (hd xs) a)"
  by (cases xs) auto

lemma hd_mrg: "as \<noteq> [] \<or> bs \<noteq> [] \<Longrightarrow>
    mrg lt as bs \<noteq> [] \<and> (as \<noteq> [] \<and> hd (mrg lt as bs) = hd as \<or> bs \<noteq> [] \<and> hd (mrg lt as bs) = hd bs)"
  by (cases as; cases bs) auto

lemma ascending_mrg:
  assumes "ascending lt as" "ascending lt bs" "\<forall>a b. lt a b \<longrightarrow> \<not> lt b a"
  shows "ascending lt (mrg lt as bs)"
  using assms
proof (induction lt as bs rule: mrg.induct)
  case (3 lt a as b bs)
  note p = 3(3,4) [unfolded ascending_Cons [of _ a] ascending_Cons [of _ b]]
  show ?case
  proof (cases "lt b a")
    case True
    then have "ascending lt (mrg lt (a # as) bs)" "\<not> lt a b" using 3(2-5) p by blast+
    then show ?thesis using hd_mrg [of "a # as" bs lt] p True by (auto simp: ascending_Cons)
  next
    case False
    then have "ascending lt (mrg lt as (b # bs))" using 3(1,3-5) p by blast
    then show ?thesis using hd_mrg [of as "b # bs" lt] p False by (auto simp: ascending_Cons)
  qed
qed simp_all

lemma runs_append: "runs lt (xs @ ys) \<le> runs lt xs + runs lt ys"
proof (induction lt xs rule: runs.induct)
  case (2 lt a)
  then show ?case by (cases ys) auto
qed auto

lemma runs_ascending: "ascending lt xs \<Longrightarrow> runs lt xs \<le> 1"
  by (induction lt xs rule: ascending.induct) auto

lemma ascending_runs: "runs lt xs \<le> 1 \<Longrightarrow> ascending lt xs"
proof (induction lt xs rule: ascending.induct)
  case (1 lt a b xs)
  moreover have "0 < runs lt (b # xs)" by (induction xs arbitrary: b) auto
  ultimately show ?case by (auto split: if_splits)
qed auto

text \<open>A pass halves the number of runs, permutes the elements and keeps equal ones in order.\<close>

lemma pass_cases:
  obtains "xs = []" | "xs \<noteq> []" "ascending lt xs" "runs lt xs = 1" "pass lt xs = xs" "run_split lt (hd xs) (tl xs) = (xs, [])"
  | r1 r2 rest where "xs = r1 @ r2 @ rest" "r1 \<noteq> []" "r2 \<noteq> []" "ascending lt r1" "ascending lt r2"
    "runs lt xs = 2 + runs lt rest" "pass lt xs = mrg lt r1 r2 @ pass lt rest"
    "run_split lt (hd xs) (tl xs) = (r1, r2 @ rest)" "run_split lt (hd (r2 @ rest)) (tl (r2 @ rest)) = (r2, rest)"
proof (cases xs)
  case (Cons x xs')
  obtain r1 rest where r1: "run_split lt x xs' = (r1, rest)" by fastforce
  note s1 = run_split_spec [OF r1]
  show ?thesis
  proof (cases rest)
    case Nil
    then have "xs = r1" using s1 \<open>xs = x # xs'\<close> by simp
    moreover have "pass lt xs = r1" "run_split lt (hd xs) (tl xs) = (r1, [])"
      using r1 Nil unfolding \<open>xs = x # xs'\<close> by (simp_all add: pass_Cons)
    moreover have "runs lt (x # xs') = 1 + runs lt rest" using s1 by blast
    then have "runs lt xs = 1" using Nil unfolding \<open>xs = x # xs'\<close> by (simp only: runs.simps)
    ultimately show ?thesis using that(2) s1 by metis
  next
    case (Cons y ys)
    obtain r2 rest2 where r2: "run_split lt y ys = (r2, rest2)" by fastforce
    note s2 = run_split_spec [OF r2]
    have "rest = r2 @ rest2" using s2 Cons by simp
    moreover have "runs lt (x # xs') = 1 + runs lt rest" "runs lt (y # ys) = 1 + runs lt rest2" using s1 s2 by blast+
    then have "runs lt xs = 2 + runs lt rest2" unfolding \<open>xs = x # xs'\<close> Cons by simp
    moreover have "pass lt xs = mrg lt r1 r2 @ pass lt rest2"
      using r1 r2 \<open>xs = x # xs'\<close> Cons by (simp add: pass_Cons)
    moreover have "run_split lt (hd xs) (tl xs) = (r1, rest)" "run_split lt (hd rest) (tl rest) = (r2, rest2)"
      using r1 r2 \<open>xs = x # xs'\<close> Cons by simp_all
    ultimately show ?thesis using that(3) [of r1 r2 rest2] s1 s2 \<open>xs = x # xs'\<close> by simp
  qed
qed (use that(1) in simp)

lemma runs_pass:
  assumes "\<forall>a b. lt a b \<longrightarrow> \<not> lt b a"
  shows "runs lt (pass lt xs) \<le> (runs lt xs + 1) div 2"
proof (induction xs rule: length_induct)
  case (1 xs)
  show ?case
  proof (cases rule: pass_cases [where xs = xs and lt = lt])
    case (3 r1 r2 rest)
    have "runs lt (pass lt xs) \<le> runs lt (mrg lt r1 r2) + runs lt (pass lt rest)"
      unfolding 3(7) by (rule runs_append)
    also have "runs lt (mrg lt r1 r2) \<le> 1" by (intro runs_ascending ascending_mrg 3 assms)
    finally have "runs lt (pass lt xs) \<le> 1 + runs lt (pass lt rest)" by simp
    moreover have "runs lt (pass lt rest) \<le> (runs lt rest + 1) div 2" using 1 3(1,2) by simp
    ultimately show ?thesis unfolding 3(6) by simp
  qed simp_all
qed

lemma mset_pass: "mset (pass lt xs) = mset xs"
proof (induction xs rule: length_induct)
  case (1 xs)
  show ?case
  proof (cases rule: pass_cases [where xs = xs and lt = lt])
    case (3 r1 r2 rest)
    moreover have "mset (pass lt rest) = mset rest" using 1 3(1,2) by simp
    ultimately show ?thesis by simp
  qed simp_all
qed

definition eqv :: "less_func \<Rightarrow> nat \<Rightarrow> nat \<Rightarrow> bool" where
  "eqv lt x y \<longleftrightarrow> \<not> lt x y \<and> \<not> lt y x"

lemma ascending_sorted:
  assumes "weak_order lt"
  shows "ascending lt xs \<longleftrightarrow> sorted_wrt (\<lambda>a b. \<not> lt b a) xs"
  using assms
proof (induction lt xs rule: ascending.induct)
  case (1 lt a b xs)
  have "\<not> lt c a" if "\<not> lt b a" "\<not> lt c b" for c using weak_orderD(2) [OF 1(2) that(2,1)] .
  then show ?case using 1 by auto
qed simp_all

lemma filter_mrg:
  assumes "weak_order lt" "ascending lt as"
  shows "filter (eqv lt x) (mrg lt as bs) = filter (eqv lt x) as @ filter (eqv lt x) bs"
  using assms
proof (induction lt as bs rule: mrg.induct)
  case (3 lt a as b bs)
  show ?case
  proof (cases "lt b a")
    case True
    have "\<not> eqv lt x c" if c: "c \<in> set (a # as)" and xb: "eqv lt x b" for c
    proof
      assume "eqv lt x c"
      then have "\<not> lt b c" using xb weak_orderD(2) [OF 3(3), of b x c] by (simp add: eqv_def)
      moreover have "\<not> lt c a" using c 3(3,4) weak_orderD(1) [OF 3(3), of a a] by (auto simp: ascending_sorted)
      ultimately show False using weak_orderD(2) [OF 3(3), of b c a] True by blast
    qed
    then have "eqv lt x b \<Longrightarrow> filter (eqv lt x) (a # as) = []" by (simp add: filter_empty_conv)
    then show ?thesis using 3(2-4) True by (cases "eqv lt x b") simp_all
  next
    case False
    then show ?thesis using 3(1,3,4) by (simp add: ascending_Cons)
  qed
qed simp_all

lemma filter_pass:
  assumes "weak_order lt"
  shows "filter (eqv lt x) (pass lt xs) = filter (eqv lt x) xs"
proof (induction xs rule: length_induct)
  case (1 xs)
  show ?case
  proof (cases rule: pass_cases [where xs = xs and lt = lt])
    case (3 r1 r2 rest)
    moreover have "filter (eqv lt x) (pass lt rest) = filter (eqv lt x) rest" using 1 3(1,2) by simp
    ultimately show ?thesis using filter_mrg [OF assms] by simp
  qed simp_all
qed

section \<open>The loops on the linked list\<close>

lemma run_loop_ok:
  assumes "is_list h l (as @ b # bs)"
  shows "run_loop b (list_end l) lt h = Some (lpos l (snd (run_split lt b bs)))"
  using assms
proof (induction bs arbitrary: as b)
  case Nil
  then show ?case using list_next_pos [of h l as b "[]"] by (simp add: run_loop.simps list_end_def)
next
  case (Cons c bs)
  have ls: "is_list h l ((as @ [b]) @ c # bs)" using Cons.prems by simp
  have ne: "c \<noteq> list_end l" using lpos_end [OF ls] by simp
  have nx: "list_next b h = Some c" "list_prev c h = Some b"
    using list_next_pos [of h l as b "c # bs"] list_prev_pos [of h l as b "c # bs"] Cons.prems by simp_all
  show ?case using Cons.IH [OF ls] ne nx
    by (subst run_loop.simps) (simp split: prod.splits)
qed

lemma find_end_of_run_ok:
  assumes "is_list h l (as @ b # bs)"
  shows "find_end_of_run b (list_end l) lt h = Some (lpos l (snd (run_split lt b bs)))"
  using run_loop_ok [OF assms] lpos_end [OF assms] lpos_nonzero [OF assms] lpos_nonzero [of h l "as @ b # bs" "[]"] assms
  by (simp add: find_end_of_run_def list_end_def)

lemma sorted_loop_ok:
  assumes "is_list h l (as @ b # bs @ cs)"
  shows "sorted_loop b (lpos l cs) lt h = Some (ascending lt (b # bs))"
  using assms
proof (induction bs arbitrary: as b)
  case Nil
  then show ?case using list_next_pos [of h l as b cs] by (simp add: sorted_loop.simps)
next
  case (Cons c bs)
  have ls: "is_list h l ((as @ [b]) @ c # bs @ cs)" using Cons.prems by simp
  have ne: "c \<noteq> lpos l cs" using lpos_eq [of h l "as @ [b]" "c # bs" cs] ls by simp
  have nx: "list_next b h = Some c" "list_prev c h = Some b"
    using list_next_pos [of h l as b "c # bs @ cs"] list_prev_pos [of h l as b "c # bs @ cs"] Cons.prems by simp_all
  show ?case using Cons.IH [OF ls] ne nx by (subst sorted_loop.simps) simp
qed

lemma is_sorted_ok:
  assumes "is_list h l (as @ bs @ cs)"
  shows "is_sorted (lpos l (bs @ cs)) (lpos l cs) lt h = Some (ascending lt bs)"
proof (cases bs)
  case (Cons b bs')
  then show ?thesis using assms sorted_loop_ok [of h l as b bs' cs lt] lpos_eq [OF assms] by (simp add: is_sorted_def)
qed (simp add: is_sorted_def)

lemma merge_loop_ok:
  assumes "is_list h l (pre @ as @ bs @ post)"
  shows "\<exists>h'. merge_loop (lpos l (as @ bs @ post)) (lpos l (bs @ post)) (lpos l post) lt h = Some h' \<and>
    is_list h' l (pre @ mrg lt as bs @ post) \<and> dom h' = dom h"
  using assms
proof (induction lt as bs arbitrary: pre h rule: mrg.induct)
  case (1 lt bs)
  then show ?case by (simp add: merge_loop.simps)
next
  case (2 lt a as)
  then show ?case by (simp add: merge_loop.simps)
next
  case (3 lt a as b bs)
  have ne: "a \<noteq> b" "b \<noteq> lpos l post"
    using 3(3) lpos_eq [of h l "pre @ a # as" "b # bs" post] by (auto simp: is_list_def nodes_def)
  show ?case
  proof (cases "lt b a")
    case False
    have "list_next a h = Some (lpos l (as @ (b # bs) @ post))"
      using list_next_pos [of h l pre a "as @ (b # bs) @ post"] 3(3) by simp
    moreover obtain h' where "merge_loop (lpos l (as @ (b # bs) @ post)) b (lpos l post) lt h = Some h'"
      "is_list h' l (pre @ a # mrg lt as (b # bs) @ post)" "dom h' = dom h"
      using 3(1) [OF False, of h "pre @ [a]"] 3(3) by auto
    ultimately show ?thesis using ne False by (subst merge_loop.simps) simp
  next
    case True
    have ls: "is_list h l ((pre @ a # as) @ b # bs @ post)" using 3(3) by simp
    obtain h1 where h1: "list_splice a b (lpos l (bs @ post)) h = Some h1"
      "is_list h1 l ((pre @ [b]) @ (a # as) @ bs @ post)" "dom h1 = dom h"
      using list_splice_ok [of h l pre "a # as" "[b]" "bs @ post"] 3(3) by auto
    obtain h' where "merge_loop a (lpos l (bs @ post)) (lpos l post) lt h1 = Some h'"
      "is_list h' l (pre @ b # mrg lt (a # as) bs @ post)" "dom h' = dom h"
      using 3(2) [of h1 "pre @ [b]"] True h1(2,3) by auto
    then show ?thesis using ne True h1(1) list_next_pos [OF ls] list_prev_pos [OF ls]
      by (subst merge_loop.simps) simp
  qed
qed

lemma inplace_merge_ok:
  assumes ls: "is_list h l (pre @ as @ bs @ post)" and sorted: "ascending lt as" "ascending lt bs"
  shows "\<exists>h'. inplace_merge (lpos l (as @ bs @ post)) (lpos l (bs @ post)) (lpos l post) lt h = Some h' \<and>
    is_list h' l (pre @ mrg lt as bs @ post) \<and> dom h' = dom h"
proof -
  have "lpos l (as @ bs @ post) \<noteq> 0" "lpos l (bs @ post) \<noteq> 0" "lpos l post \<noteq> 0"
    using lpos_nonzero [of h l pre "as @ bs @ post"] lpos_nonzero [of h l "pre @ as" "bs @ post"]
      lpos_nonzero [of h l "pre @ as @ bs" post] ls by simp_all
  moreover have "is_sorted (lpos l (as @ bs @ post)) (lpos l (bs @ post)) lt h = Some True"
    "is_sorted (lpos l (bs @ post)) (lpos l post) lt h = Some True"
    using is_sorted_ok [of h l pre as "bs @ post" lt] is_sorted_ok [of h l "pre @ as" bs post lt] ls sorted by simp_all
  ultimately show ?thesis using merge_loop_ok [OF ls, of lt] by (simp add: inplace_merge_def)
qed

lemma sort_pass_ok:
  assumes "is_list h l (as @ xs)" "n + length xs < 2 ^ 32"
  shows "\<exists>h'. sort_pass l lt (lpos l xs) n h = Some (n + (runs lt xs + 1) div 2, h') \<and>
    is_list h' l (as @ pass lt xs) \<and> dom h' = dom h"
  using assms
proof (induction xs arbitrary: as n h rule: length_induct)
  case (1 xs)
  note IH = 1(1) and ls = 1(2) and n = 1(3)
  show ?case
  proof (cases rule: pass_cases [where xs = xs and lt = lt])
    case 1
    then show ?thesis using ls by (simp add: sort_pass.simps list_end_def)
  next
    case 2
    then obtain x xs' where xs: "xs = x # xs'" by (cases xs) auto
    have "szt (n + 1) = n + 1" using n xs by (simp add: szt_def)
    moreover have "find_end_of_run x (list_end l) lt h = Some (list_end l)"
      using find_end_of_run_ok [of h l as x xs' lt] ls 2(5) xs by (simp add: list_end_def)
    ultimately show ?thesis using lpos_end [OF ls] ls 2(3,4) xs by (subst sort_pass.simps) simp
  next
    case (3 r1 r2 rest)
    have "xs \<noteq> []" using 3(1,2) by simp
    then obtain x xs' where xs: "xs = x # xs'" by (meson list.exhaust)
    obtain y ys where y: "r2 @ rest = y # ys" using 3(3) by (cases r2) auto
    have ls2: "is_list h l ((as @ r1) @ y # ys)" using ls 3(1) y by simp
    have szt: "szt (n + 1) = n + 1" using n xs by (simp add: szt_def)
    have f1: "find_end_of_run x (list_end l) lt h = Some y"
      using find_end_of_run_ok [OF ls [unfolded xs], of lt] 3(8) [unfolded y xs list.sel] by simp
    have f2: "find_end_of_run y (list_end l) lt h = Some (lpos l rest)"
      using find_end_of_run_ok [OF ls2, of lt] 3(9) [unfolded y list.sel] by simp
    have p: "lpos l (r1 @ r2 @ rest) = x" "lpos l (r2 @ rest) = y"
      using lpos_simps(2) [of l x xs'] lpos_simps(2) [of l y ys] unfolding xs [symmetric] y [symmetric] 3(1) .
    obtain h1 where h1: "inplace_merge x y (lpos l rest) lt h = Some h1"
      "is_list h1 l ((as @ mrg lt r1 r2) @ rest)" "dom h1 = dom h"
      using inplace_merge_ok [of h l as r1 r2 rest lt, unfolded p] 3(4,5) ls [unfolded 3(1)] by auto
    have "length rest < length xs" "n + 1 + length rest < 2 ^ 32" 
      using n 3(2) unfolding 3(1) by (cases r1; simp)+
    then obtain h2 where h2: "sort_pass l lt (lpos l rest) (n + 1) h1 = Some (n + 1 + (runs lt rest + 1) div 2, h2)"
      "is_list h2 l (as @ mrg lt r1 r2 @ pass lt rest)" "dom h2 = dom h"
      using IH [rule_format, of rest h1 "as @ mrg lt r1 r2" "n + 1"] h1(2,3) by auto
    have "x \<noteq> list_end l" "y \<noteq> list_end l" using lpos_end [OF ls [unfolded xs]] lpos_end [OF ls2] by simp_all
    then have "sort_pass l lt x n h = Some (n + 1 + (runs lt rest + 1) div 2, h2)"
      using szt f1 f2 h1(1) h2(1) by (subst sort_pass.simps) simp
    moreover have "n + 1 + (runs lt rest + 1) div 2 = n + (runs lt xs + 1) div 2" unfolding 3(6) by simp
    moreover have "lpos l xs = x" unfolding xs by simp
    ultimately show ?thesis using h2(2,3) 3(7) by simp
  qed
qed

lemma sort_loop_ok:
  assumes "is_list h l xs" "length xs < 2 ^ 32" "weak_order lt"
  shows "\<exists>h' ys. sort_loop l lt h = Some h' \<and> is_list h' l ys \<and> dom h' = dom h \<and> ascending lt ys \<and>
    mset ys = mset xs \<and> (\<forall>x. filter (eqv lt x) ys = filter (eqv lt x) xs)"
  using assms
proof (induction "runs lt xs" arbitrary: xs h rule: less_induct)
  case less
  let ?n = "(runs lt xs + 1) div 2"
  obtain h1 where h1: "sort_pass l lt (lpos l xs) 0 h = Some (?n, h1)" "is_list h1 l (pass lt xs)" "dom h1 = dom h"
    using sort_pass_ok [of h l "[]" xs 0 lt] less.prems(1,2) unfolding append_Nil add_0 by blast
  have rn: "runs lt (pass lt xs) \<le> ?n"
    using weak_orderD(1) [OF less.prems(3)] by (intro runs_pass) blast
  have len: "length (pass lt xs) < 2 ^ 32" using less.prems(2) mset_eq_length [OF mset_pass] by metis
  show ?case
  proof (cases "?n > 1")
    case True
    then have "runs lt (pass lt xs) < runs lt xs" using rn by linarith
    from less.hyps [OF this h1(2) len less.prems(3)] obtain h' ys where
      "sort_loop l lt h1 = Some h'" "is_list h' l ys" "dom h' = dom h1" "ascending lt ys"
      "mset ys = mset (pass lt xs)" "\<forall>x. filter (eqv lt x) ys = filter (eqv lt x) (pass lt xs)" by blast
    moreover have "sort_loop l lt h = sort_loop l lt h1"
      using h1 True list_begin_pos [OF less.prems(1)] by (subst sort_loop.simps) simp
    ultimately show ?thesis unfolding mset_pass filter_pass [OF less.prems(3)] h1(3) by metis
  next
    case False
    then have "ascending lt (pass lt xs)" using rn by (intro ascending_runs) simp
    moreover have "sort_loop l lt h = Some h1"
      using h1 False list_begin_pos [OF less.prems(1)] by (subst sort_loop.simps) simp
    ultimately show ?thesis using h1(2,3) mset_pass filter_pass [OF less.prems(3)] by blast
  qed
qed

lemma list_sort_ok:
  assumes "is_list h l xs" "length xs < 2 ^ 32" "weak_order lt"
  shows "\<exists>h' ys. list_sort l lt h = Some h' \<and> is_list h' l ys \<and> dom h' = dom h \<and>
    sorted_wrt (\<lambda>a b. \<not> lt b a) ys \<and> mset ys = mset xs \<and> (\<forall>x. filter (eqv lt x) ys = filter (eqv lt x) xs)"
proof -
  obtain h' ys where s: "sort_loop l lt h = Some h'" "is_list h' l ys" "dom h' = dom h" "ascending lt ys"
    "mset ys = mset xs" "\<forall>x. filter (eqv lt x) ys = filter (eqv lt x) xs"
    using sort_loop_ok [OF assms] by blast
  have "l \<noteq> 0" using assms(1) by (simp add: is_list_def nodes_def)
  moreover have "is_sorted (lpos l ys) (list_end l) lt h' = Some True"
    using is_sorted_ok [of h' l "[]" ys "[]" lt] s by (simp add: list_end_def)
  ultimately have "list_sort l lt h = Some h'"
    using s list_begin_pos [OF s(2)] by (simp add: list_sort_def)
  then show ?thesis using s ascending_sorted [OF assms(3)] by blast
qed

section \<open>Claims\<close>

lemma list_init_ok:
  assumes "l \<noteq> 0" "l \<in> dom h" "list_tail l \<in> dom h"
  shows "\<exists>h'. list_init l h = Some h' \<and> is_list h' l [] \<and> dom h' = dom h"
proof -
  have t: "list_tail l \<noteq> 0" "list_tail l \<noteq> l" by (simp_all add: list_tail_def)
  let ?h = "upd_next (list_tail l) 0 (upd_prev (list_tail l) l (upd_next l (list_tail l) (upd_prev l 0 h)))"
  have "list_init l h = Some ?h" using assms t by (simp add: list_init_def list_access)
  moreover have "is_list ?h l []" using assms t by (auto simp: is_list_def nodes_def)
  moreover have "dom ?h = dom h" using assms by auto
  ultimately show ?thesis by blast
qed

text \<open>A store with a list header at 100 and elements at 1 to 4.\<close>

definition sample_store :: lheap where
  "sample_store = map_of (map (\<lambda>p. (p, \<lparr>lprev = 0, lnext = 0\<rparr>)) [100, 108, 1, 2, 3, 4])"

lemma sample_dom: "dom sample_store = {100, 108, 1, 2, 3, 4}"
  by (auto simp: sample_store_def split: if_splits)

text \<open>
  C30: A list is a FIFO queue: after \<open>list_init\<close>, any distinct elements pushed at the back
  leave at the front in the same order, and the list is empty again.  No access leaves the
  header and the elements.
\<close>

theorem list_queue_fifo:
  assumes "l \<noteq> 0" "l \<in> dom h" "list_tail l \<in> dom h"
    and "distinct es" "set es \<subseteq> dom h - {0, l, list_tail l}"
  shows "\<exists>h0 h1 h2. list_init l h = Some h0 \<and> mfold (list_push_back l) es h0 = Some h1 \<and>
    repeat_op (length es) (list_pop_front l) h1 = Some (es, h2) \<and> list_empty l h2 = Some True"
proof -
  obtain h0 where h0: "list_init l h = Some h0" "is_list h0 l []" "dom h0 = dom h"
    using list_init_ok [OF assms(1-3)] by blast
  have "\<forall>e \<in> set es. lfits h0 l [] e" using assms(5) h0(3) by (auto simp: lfits_def nodes_def)
  from kl.fifo [OF h0(2) assms(4) this] obtain h1 h2 where
    "mfold (list_push_back l) es h0 = Some h1" "repeat_op (length es) (list_pop_front l) h1 = Some (es, h2)"
    "is_list h2 l []" .
  then show ?thesis using h0(1) kl.empty_law [of h2 l "[]"] by auto
qed

theorem list_queue_fifo_witness:
  "\<exists>h0 h1 h2. list_init 100 sample_store = Some h0 \<and> mfold (list_push_back 100) [3, 1, 2] h0 = Some h1 \<and>
    repeat_op 3 (list_pop_front 100) h1 = Some ([3, 1, 2], h2) \<and> list_empty 100 h2 = Some True"
proof -
  have n: "length [3, 1, 2 :: nat] = 3" by simp
  show ?thesis by (rule list_queue_fifo [of 100 sample_store "[3, 1, 2]", unfolded n])
    (simp_all add: sample_dom list_tail_def)
qed

text \<open>
  C31: \<open>list_sort\<close> sorts: on every list of fewer than \<open>2^32\<close> elements and every strict weak
  order it returns (all its assertions hold and its loops end), and leaves a well-formed
  list with the same elements in ascending order, in which elements that compare equal
  keep their relative order.
\<close>

theorem list_sort_sorts:
  assumes "is_list h l xs" "length xs < 2 ^ 32" "weak_order lt"
  shows "\<exists>h' ys. list_sort l lt h = Some h' \<and> is_list h' l ys \<and> mset ys = mset xs \<and>
    sorted_wrt (\<lambda>a b. \<not> lt b a) ys \<and> (\<forall>x. filter (eqv lt x) ys = filter (eqv lt x) xs)"
  using list_sort_ok [OF assms] by blast

definition sample_list :: lheap where
  "sample_list = [100 \<mapsto> \<lparr>lprev = 0, lnext = 3\<rparr>, 3 \<mapsto> \<lparr>lprev = 100, lnext = 1\<rparr>, 1 \<mapsto> \<lparr>lprev = 3, lnext = 2\<rparr>,
     2 \<mapsto> \<lparr>lprev = 1, lnext = 108\<rparr>, 108 \<mapsto> \<lparr>lprev = 2, lnext = 0\<rparr>]"

lemma sample_is_list: "is_list sample_list 100 [3, 1, 2]"
  by (simp add: is_list_def nodes_def sample_list_def list_tail_def nxt_def prv_def)

theorem list_sort_sorts_witness:
  "\<exists>h' ys. list_sort 100 (<) sample_list = Some h' \<and> is_list h' 100 ys \<and> mset ys = {#1, 2, 3#} \<and>
    sorted_wrt (\<lambda>a b. \<not> b < a) ys"
proof -
  have "weak_order (<)" unfolding weak_order_def by auto
  then show ?thesis using list_sort_sorts [OF sample_is_list, of "(<)"] by (auto simp: add_mset_commute)
qed

lemma sorted_wrt_insert:
  "sorted_wrt (\<lambda>a b. \<not> lt b a) (as @ bs) \<Longrightarrow> \<forall>y \<in> set as. \<not> lt x y \<Longrightarrow> \<forall>y \<in> set bs. \<not> lt y x \<Longrightarrow>
    sorted_wrt (\<lambda>a b. \<not> lt b a) (as @ x # bs)"
  by (simp add: sorted_wrt_append)

text \<open>
  \<open>list_insert_ordered\<close> keeps a sorted list sorted: the new element goes in front of
  the first greater element, behind all elements that compare equal.
\<close>

theorem list_insert_ordered_keeps_sorted:
  assumes "is_list h l xs" "lfits h l xs x" "weak_order lt" "sorted_wrt (\<lambda>a b. \<not> lt b a) xs"
  shows "\<exists>h' as bs. list_insert_ordered l x lt h = Some h' \<and> xs = as @ bs \<and> is_list h' l (as @ x # bs) \<and>
    sorted_wrt (\<lambda>a b. \<not> lt b a) (as @ x # bs) \<and> (\<forall>y \<in> set as. \<not> lt x y) \<and> (\<forall>y \<in> set bs. lt x y)"
proof -
  let ?as = "takeWhile (\<lambda>y. \<not> lt x y) xs" and ?bs = "dropWhile (\<lambda>y. \<not> lt x y) xs"
  have s: "sorted_wrt (\<lambda>a b. \<not> lt b a) (?as @ ?bs)" using assms(4) by simp
  have as: "\<forall>y \<in> set ?as. \<not> lt x y" by (auto dest: set_takeWhileD)
  have bs: "\<forall>y \<in> set ?bs. lt x y"
  proof (cases ?bs)
    case (Cons b bs)
    then have b: "lt x b" by (metis hd_dropWhile list.sel(1) list.distinct(1))
    have sb: "sorted_wrt (\<lambda>a b. \<not> lt b a) (b # bs)" using s unfolding Cons sorted_wrt_append by blast
    show ?thesis unfolding Cons
    proof
      fix y assume y: "y \<in> set (b # bs)"
      then have "\<not> lt y b" using sb weak_orderD(1) [OF assms(3), of b b] by auto
      then show "lt x y" using weak_orderD(2) [OF assms(3), of x y b] b by blast
    qed
  qed (simp del: dropWhile_eq_Nil_conv)
  have "\<forall>y \<in> set ?bs. \<not> lt y x" using bs weak_orderD(1) [OF assms(3)] by blast
  then have "sorted_wrt (\<lambda>a b. \<not> lt b a) (?as @ x # ?bs)" 
    by (rule sorted_wrt_insert [OF s as])
  then show ?thesis using list_insert_ordered_ok [OF assms(1,2), of lt] as bs
    takeWhile_dropWhile_id [symmetric] by blast
qed

theorem list_insert_ordered_keeps_sorted_witness:
  "\<exists>h' as bs. list_insert_ordered 100 4 (\<lambda>a b. a mod 3 < b mod 3) (sample_list(4 \<mapsto> \<lparr>lprev = 0, lnext = 0\<rparr>)) = Some h' \<and>
    [3, 1, 2] = as @ bs \<and> is_list h' 100 (as @ 4 # bs)"
proof -
  let ?lt = "\<lambda>a b. a mod 3 < b mod 3 :: bool" and ?h = "sample_list(4 \<mapsto> \<lparr>lprev = 0, lnext = 0\<rparr>)"
  have "is_list ?h 100 [3, 1, 2]" "lfits ?h 100 [3, 1, 2] 4"
    by (simp_all add: is_list_def nodes_def sample_list_def list_tail_def nxt_def prv_def lfits_def)
  moreover have "weak_order ?lt" unfolding weak_order_def by auto
  ultimately show ?thesis using list_insert_ordered_keeps_sorted [of ?h 100 "[3, 1, 2]" 4 ?lt] by auto
qed

end
