(* ===== verification/Stdlib.thy ===== *)
theory Stdlib
  imports Prelude "HOL-Library.Multiset"
begin

text \<open>
  \<open>lib/stdlib.c\<close>: conversion of numbers, the heap sort and the binary search, on arrays of
  bytes that hold elements of a given size.  The main results are that \<open>sort\<close> ends and leaves
  a sorted permutation of the elements, and that \<open>binary_search\<close> finds an element that
  compares equal exactly if there is one.
\<close>

section \<open>Definitions\<close>

definition isspace :: "byte \<Rightarrow> bool" where
  "isspace c \<longleftrightarrow> c = 32 \<or> c = 12 \<or> c = 10 \<or> c = 13 \<or> c = 9 \<or> c = 11"

text \<open>The argument is a \<open>char\<close>, which is signed.\<close>

definition isdigit :: "byte \<Rightarrow> bool" where
  "isdigit c \<longleftrightarrow> sint c \<ge> 48 \<and> sint c \<le> 57"

fun skip_spaces :: "byte list \<Rightarrow> byte list option" where
  "skip_spaces [] = None"
| "skip_spaces (c # s) = (if isspace c then skip_spaces s else Some (c # s))"

fun parse_digits :: "int \<Rightarrow> byte list \<Rightarrow> int option" where
  "parse_digits v [] = None"
| "parse_digits v (c # s) = (if isdigit c then parse_digits (i32 (v * 10 - (sint c - 48))) s else Some v)"

definition atoi :: "byte list \<Rightarrow> int option" where
  "atoi s = do {
     s \<leftarrow> skip_spaces s;
     c \<leftarrow> arr_get s 0;
     let negative = (c = 45);
     value \<leftarrow> parse_digits 0 (if c = 43 \<or> c = 45 then tl s else s);
     Some (if \<not> negative then i32 (- value) else value) }"

text \<open>Elements have indices from 1 on.\<close>

definition elem_at :: "nat \<Rightarrow> byte list \<Rightarrow> nat \<Rightarrow> byte list" where
  "elem_at sz a k = buf_get ((k - 1) * sz) sz a"

definition swap_step :: "nat \<Rightarrow> nat \<Rightarrow> nat \<Rightarrow> byte list \<Rightarrow> byte list option" where
  "swap_step p q i a = do {
     t \<leftarrow> arr_get a (int (p + i));
     u \<leftarrow> arr_get a (int (q + i));
     a \<leftarrow> arr_set a (int (p + i)) u;
     arr_set a (int (q + i)) t }"

definition do_swap :: "nat \<Rightarrow> nat \<Rightarrow> nat \<Rightarrow> byte list \<Rightarrow> byte list option" where
  "do_swap a_idx b_idx sz = mfold (swap_step ((a_idx - 1) * sz) ((b_idx - 1) * sz)) [0..<sz]"

definition do_compare :: "(byte list \<Rightarrow> byte list \<Rightarrow> int) \<Rightarrow> nat \<Rightarrow> nat \<Rightarrow> nat \<Rightarrow> byte list \<Rightarrow> int option" where
  "do_compare compare a_idx b_idx sz a = do {
     kassert (a_idx * sz \<le> length a \<and> b_idx * sz \<le> length a);
     Some (compare (elem_at sz a a_idx) (elem_at sz a b_idx)) }"

text \<open>The index of the largest of an element and its children.\<close>

definition pick_max :: "(byte list \<Rightarrow> byte list \<Rightarrow> int) \<Rightarrow> nat \<Rightarrow> nat \<Rightarrow> nat \<Rightarrow> byte list \<Rightarrow> nat option" where
  "pick_max compare i cnt sz a = do {
     let left = szt (2 * i);
     let right = szt (2 * i + 1);
     m \<leftarrow> (if left \<le> cnt then do { c \<leftarrow> do_compare compare left i sz a; Some (if c > 0 then left else i) } else Some i);
     (if right \<le> cnt then do { c \<leftarrow> do_compare compare right m sz a; Some (if c > 0 then right else m) } else Some m) }"

partial_function (option) heapify :: "(byte list \<Rightarrow> byte list \<Rightarrow> int) \<Rightarrow> nat \<Rightarrow> nat \<Rightarrow> nat \<Rightarrow> byte list \<Rightarrow> byte list option" where
  "heapify compare i cnt sz a = do {
     m \<leftarrow> pick_max compare i cnt sz a;
     if m = i then Some a
     else do {
       a \<leftarrow> do_swap i m sz a;
       heapify compare m cnt sz a } }"

definition sort_step :: "(byte list \<Rightarrow> byte list \<Rightarrow> int) \<Rightarrow> nat \<Rightarrow> nat \<Rightarrow> byte list \<Rightarrow> byte list option" where
  "sort_step compare sz i a = do {
     a \<leftarrow> do_swap 1 i sz a;
     heapify compare 1 (i - 1) sz a }"

definition sort_array :: "(byte list \<Rightarrow> byte list \<Rightarrow> int) \<Rightarrow> nat \<Rightarrow> nat \<Rightarrow> byte list \<Rightarrow> byte list option" where
  "sort_array compare cnt sz a = do {
     kassert (sz > 0);
     a \<leftarrow> mfold (\<lambda>i. heapify compare i cnt sz) (rev [1..<cnt div 2 + 1]) a;
     mfold (sort_step compare sz) (rev [2..<cnt + 1]) a }"

definition qsort :: "(byte list \<Rightarrow> byte list \<Rightarrow> int) \<Rightarrow> nat \<Rightarrow> nat \<Rightarrow> byte list \<Rightarrow> byte list option" where
  "qsort compare cnt sz a = sort_array compare cnt sz a"

text \<open>Positions in the array; the result is that of the element, or \<^term>\<open>None\<close> for a null pointer.\<close>

partial_function (option) search_loop ::
    "(byte list \<Rightarrow> byte list \<Rightarrow> int) \<Rightarrow> byte list \<Rightarrow> nat \<Rightarrow> byte list \<Rightarrow> nat \<Rightarrow> nat \<Rightarrow> nat option option" where
  "search_loop compare key sz a first lst =
     (if first < lst then do {
        let range = (lst - first) div sz;
        let middle = first + range div 2 * sz;
        kassert (middle + sz \<le> length a);
        let cmp = compare key (buf_get middle sz a);
        if cmp < 0 then search_loop compare key sz a first middle
        else if cmp > 0 then search_loop compare key sz a (middle + sz) lst
        else Some (Some middle) }
      else Some None)"

definition binary_search ::
    "(byte list \<Rightarrow> byte list \<Rightarrow> int) \<Rightarrow> byte list \<Rightarrow> nat \<Rightarrow> nat \<Rightarrow> byte list \<Rightarrow> nat option option" where
  "binary_search compare key cnt sz a = search_loop compare key sz a 0 (szt (sz * cnt))"

definition bsearch ::
    "(byte list \<Rightarrow> byte list \<Rightarrow> int) \<Rightarrow> byte list \<Rightarrow> nat \<Rightarrow> nat \<Rightarrow> byte list \<Rightarrow> nat option option" where
  "bsearch compare key cnt sz a = binary_search compare key cnt sz a"

section \<open>Elements\<close>

definition elems :: "nat \<Rightarrow> byte list \<Rightarrow> byte list list" where
  "elems sz a = map (\<lambda>k. buf_get (k * sz) sz a) [0..<length a div sz]"

definition swapped :: "nat \<Rightarrow> nat \<Rightarrow> 'a list \<Rightarrow> 'a list" where
  "swapped i j xs = xs[i := xs ! j, j := xs ! i]"

lemma length_elems [simp]: "0 < sz \<Longrightarrow> length a = n * sz \<Longrightarrow> length (elems sz a) = n"
  by (simp add: elems_def)

lemma nth_elems: "0 < sz \<Longrightarrow> length a = n * sz \<Longrightarrow> k < n \<Longrightarrow> elems sz a ! k = buf_get (k * sz) sz a"
  by (simp add: elems_def)

lemma elem_at_elems: "0 < sz \<Longrightarrow> length a = n * sz \<Longrightarrow> 1 \<le> k \<Longrightarrow> k \<le> n \<Longrightarrow> elem_at sz a k = elems sz a ! (k - 1)"
  by (simp add: elem_at_def nth_elems)

lemma mset_swapped: "i < length xs \<Longrightarrow> j < length xs \<Longrightarrow> mset (swapped i j xs) = mset xs"
  by (simp add: swapped_def mset_swap)

lemma length_swapped [simp]: "length (swapped i j xs) = length xs"
  by (simp add: swapped_def)

lemma nth_swapped:
  "i < length xs \<Longrightarrow> j < length xs \<Longrightarrow> k < length xs \<Longrightarrow> swapped i j xs ! k = (if k = j then xs ! i else if k = i then xs ! j else xs ! k)"
  by (auto simp: swapped_def nth_list_update)

text \<open>The position of byte \<open>m\<close> of element \<open>k\<close>.\<close>

lemma block_less: "k < n \<Longrightarrow> m < sz \<Longrightarrow> k * sz + m < n * (sz :: nat)"
proof -
  assume "k < n" "m < sz"
  then have "k * sz + m < Suc k * sz" "Suc k * sz \<le> n * sz"
    by (simp_all only: mult_le_mono1 Suc_leI) simp
  then show ?thesis
    by linarith
qed

lemma block_inj:
  assumes "m < sz" "m' < sz" "k * sz + m = k' * sz + (m' :: nat)"
  shows "k = k' \<and> m = m'"
proof -
  have "(k * sz + m) div sz = k" "(k' * sz + m') div sz = k'"
    using assms(1,2) by simp_all
  then show ?thesis
    using assms(3) by simp
qed

lemma swap_step_ok:
  "p + m < length b \<Longrightarrow> q + m < length b \<Longrightarrow> swap_step p q m b = Some (b[p + m := b ! (q + m), q + m := b ! (p + m)])"
  by (simp only: swap_step_def arr_get_ok arr_set_ok length_list_update Option.bind.bind_lunit)

lemma do_swap_elems:
  assumes sz: "0 < sz" "length a = n * sz" and ij: "1 \<le> i" "i \<le> n" "1 \<le> j" "j \<le> n"
  obtains a' where "do_swap i j sz a = Some a'" "length a' = length a" "elems sz a' = swapped (i - 1) (j - 1) (elems sz a)"
proof -
  let ?p = "(i - 1) * sz" and ?q = "(j - 1) * sz"
  have pq: "?p + m < length a" "?q + m < length a" if "m < sz" for m
    using block_less [of "i - 1" n m sz] block_less [of "j - 1" n m sz] that ij sz by simp_all
  define sw where "sw = (\<lambda>m b. length b = length a \<and> (\<forall>k l. k < n \<longrightarrow> l < sz \<longrightarrow> b ! (k * sz + l) =
      (if l < m \<and> k = j - 1 then a ! (?p + l) else if l < m \<and> k = i - 1 then a ! (?q + l) else a ! (k * sz + l))))"
  have "\<exists>a'. mfold (swap_step ?p ?q) [0..<sz] a = Some a' \<and> sw sz a'"
  proof (rule mfold_range)
    show "sw 0 a"
      by (simp add: sw_def)
    fix m b
    assume m: "m < sz" and b: "sw m b"
    have len: "length b = length a"
      using b by (simp add: sw_def)
    have at: "b ! (?p + m) = a ! (?p + m)" "b ! (?q + m) = a ! (?q + m)"
      using b m ij by (simp_all add: sw_def)
    let ?b = "b[?p + m := b ! (?q + m), ?q + m := b ! (?p + m)]"
    have "swap_step ?p ?q m b = Some ?b"
      using pq [OF m] len by (intro swap_step_ok) simp_all
    moreover have "sw (Suc m) ?b"
      unfolding sw_def
    proof (intro conjI allI impI)
      show "length ?b = length a"
        using len by simp
      fix k l
      assume k: "k < n" and l: "l < sz"
      have kl: "k * sz + l < length b"
        using block_less [OF k l] len sz by simp
      have old: "b ! (k * sz + l) = (if l < m \<and> k = j - 1 then a ! (?p + l) else if l < m \<and> k = i - 1 then a ! (?q + l) else a ! (k * sz + l))"
        using b k l by (simp add: sw_def)
      have eq: "?p + m = k * sz + l \<longleftrightarrow> k = i - 1 \<and> l = m" "?q + m = k * sz + l \<longleftrightarrow> k = j - 1 \<and> l = m"
        using block_inj [OF m l] by metis+
      show "?b ! (k * sz + l) = (if l < Suc m \<and> k = j - 1 then a ! (?p + l) else if l < Suc m \<and> k = i - 1 then a ! (?q + l) else a ! (k * sz + l))"
      proof -
        have "?b ! (k * sz + l) = (if ?q + m = k * sz + l then a ! (?p + m) else if ?p + m = k * sz + l then a ! (?q + m) else b ! (k * sz + l))"
          using kl pq [OF m] len by (simp only: nth_list_update length_list_update at)
        then show ?thesis
          unfolding eq old by (simp add: less_Suc_eq del: One_nat_def)
      qed
    qed
    ultimately show "\<exists>s'. swap_step ?p ?q m b = Some s' \<and> sw (Suc m) s'"
      by blast
  qed simp
  then obtain a' where a': "mfold (swap_step ?p ?q) [0..<sz] a = Some a'" "sw sz a'"
    by blast
  have len: "length a' = length a"
    using a'(2) by (simp add: sw_def)
  have "elems sz a' = swapped (i - 1) (j - 1) (elems sz a)"
  proof (rule nth_equalityI)
    show "length (elems sz a') = length (swapped (i - 1) (j - 1) (elems sz a))"
      using sz len by (simp add: elems_def)
    fix k
    assume "k < length (elems sz a')"
    then have k: "k < n"
      using sz len by (simp add: elems_def)
    have in_bounds: "u * sz + sz \<le> length a" if "u < n" for u
      using mult_le_mono1 [of "Suc u" n sz] that sz by simp
    show "elems sz a' ! k = swapped (i - 1) (j - 1) (elems sz a) ! k"
    proof (rule nth_equalityI)
      show "length (elems sz a' ! k) = length (swapped (i - 1) (j - 1) (elems sz a) ! k)"
        using k ij sz len in_bounds by (simp add: nth_swapped nth_elems)
      fix l
      assume "l < length (elems sz a' ! k)"
      then have l: "l < sz"
        using k sz len in_bounds by (simp add: nth_elems)
      show "elems sz a' ! k ! l = swapped (i - 1) (j - 1) (elems sz a) ! k ! l"
        using a'(2) k l ij sz len in_bounds [OF k] in_bounds [of "i - 1"] in_bounds [of "j - 1"]
        by (simp add: sw_def nth_swapped nth_elems)
    qed
  qed
  with a'(1) len show ?thesis
    by (intro that) (simp add: do_swap_def)
qed

section \<open>The heap sort\<close>

text \<open>A comparison function in the sense of the comment on \<open>sort\<close>: the sign of its result
  is that of a total preorder.\<close>

definition total_compare :: "(byte list \<Rightarrow> byte list \<Rightarrow> int) \<Rightarrow> bool" where
  "total_compare compare \<longleftrightarrow> (\<forall>x y. 0 < compare x y \<longleftrightarrow> compare y x < 0) \<and>
     (\<forall>x y z. compare x y \<le> 0 \<longrightarrow> compare y z \<le> 0 \<longrightarrow> compare x z \<le> 0)"

abbreviation below :: "(byte list \<Rightarrow> byte list \<Rightarrow> int) \<Rightarrow> byte list \<Rightarrow> byte list \<Rightarrow> bool" where
  "below compare x y \<equiv> compare x y \<le> 0"

lemma below_trans: "total_compare c \<Longrightarrow> below c x y \<Longrightarrow> below c y z \<Longrightarrow> below c x z"
  unfolding total_compare_def by blast

lemma below_refl: "total_compare c \<Longrightarrow> below c x x"
  unfolding total_compare_def by (metis not_le order_less_asym)

lemma above_below: "total_compare c \<Longrightarrow> 0 < c x y \<Longrightarrow> below c y x"
  unfolding total_compare_def by (simp add: less_imp_le)

text \<open>The subtrees from index \<open>l\<close> on of the first \<open>n\<close> elements are heaps; the second predicate
  leaves out the children of element \<open>i\<close>, which are still below its parent.\<close>

definition heap_from :: "(byte list \<Rightarrow> byte list \<Rightarrow> int) \<Rightarrow> nat \<Rightarrow> nat \<Rightarrow> byte list list \<Rightarrow> bool" where
  "heap_from c l n xs \<longleftrightarrow> (\<forall>k. 2 * l \<le> k \<longrightarrow> k \<le> n \<longrightarrow> below c (xs ! (k - 1)) (xs ! (k div 2 - 1)))"

definition heap_but :: "(byte list \<Rightarrow> byte list \<Rightarrow> int) \<Rightarrow> nat \<Rightarrow> nat \<Rightarrow> nat \<Rightarrow> byte list list \<Rightarrow> bool" where
  "heap_but c l n i xs \<longleftrightarrow>
     (\<forall>k. 2 * l \<le> k \<longrightarrow> k \<le> n \<longrightarrow> k div 2 \<noteq> i \<longrightarrow> below c (xs ! (k - 1)) (xs ! (k div 2 - 1))) \<and>
     (\<forall>k. k \<le> n \<longrightarrow> k div 2 = i \<longrightarrow> 2 * l \<le> i \<longrightarrow> below c (xs ! (k - 1)) (xs ! (i div 2 - 1)))"

text \<open>The choice of the largest of three, and what it means.\<close>

definition is_max :: "(byte list \<Rightarrow> byte list \<Rightarrow> int) \<Rightarrow> nat \<Rightarrow> nat \<Rightarrow> byte list list \<Rightarrow> nat \<Rightarrow> bool" where
  "is_max c i n xs m \<longleftrightarrow> (m = i \<or> m div 2 = i \<and> m \<le> n) \<and> below c (xs ! (i - 1)) (xs ! (m - 1)) \<and>
     (\<forall>k. k \<le> n \<longrightarrow> k div 2 = i \<longrightarrow> below c (xs ! (k - 1)) (xs ! (m - 1)))"

lemma do_compare_ok:
  assumes "0 < sz" "length a = N * sz" "1 \<le> i" "i \<le> N" "1 \<le> j" "j \<le> N"
  shows "do_compare c i j sz a = Some (c (elems sz a ! (i - 1)) (elems sz a ! (j - 1)))"
proof -
  have "i * sz \<le> length a" "j * sz \<le> length a"
    using assms mult_le_mono1 by simp_all
  then show ?thesis
    using assms by (simp add: do_compare_def elem_at_elems [of sz a N])
qed

lemma pick_max_spec:
  assumes c: "total_compare c" and sz: "0 < sz" "length a = N * sz" and i: "1 \<le> i" "i \<le> N" "i < 2 ^ 31" and n: "n \<le> N"
  obtains m where "pick_max c i n sz a = Some m" "is_max c i n (elems sz a) m"
proof -
  let ?x = "\<lambda>k. elems sz a ! (k - 1)"
  have szt: "szt (2 * i) = 2 * i" "szt (2 * i + 1) = 2 * i + 1"
    using i(3) by (simp_all add: szt_def)
  define l where "l = (if 2 * i \<le> n \<and> 0 < c (?x (2 * i)) (?x i) then 2 * i else i)"
  define m where "m = (if 2 * i + 1 \<le> n \<and> 0 < c (?x (2 * i + 1)) (?x l) then 2 * i + 1 else l)"
  have l: "1 \<le> l" "l \<le> N"
    using i n by (auto simp: l_def)
  have first: "(if 2 * i \<le> n then do { r \<leftarrow> do_compare c (2 * i) i sz a; Some (if r > 0 then 2 * i else i) } else Some i) = Some l"
    using i n by (auto simp: l_def do_compare_ok [OF sz])
  have second: "(if 2 * i + 1 \<le> n then do { r \<leftarrow> do_compare c (2 * i + 1) l sz a; Some (if r > 0 then 2 * i + 1 else l) } else Some l) = Some m"
    using i n l by (auto simp: m_def do_compare_ok [OF sz])
  have "pick_max c i n sz a = Some m"
    unfolding pick_max_def Let_def szt first Option.bind.bind_lunit by (rule second)
  moreover have "is_max c i n (elems sz a) m"
  proof -
    have il: "below c (?x i) (?x l)" and ll: "2 * i \<le> n \<Longrightarrow> below c (?x (2 * i)) (?x l)"
      using above_below [OF c] below_refl [OF c] by (simp_all add: l_def not_less)
    have lm: "below c (?x l) (?x m)" and rm: "2 * i + 1 \<le> n \<Longrightarrow> below c (?x (2 * i + 1)) (?x m)"
      using above_below [OF c] below_refl [OF c] by (simp_all add: m_def not_less)
    have "below c (?x k) (?x m)" if "k \<le> n" "k div 2 = i" for k
    proof -
      have "k = 2 * i \<or> k = 2 * i + 1"
        using that(2) by presburger
      then show ?thesis
        using that(1) rm below_trans [OF c ll lm] by blast
    qed
    moreover have "m = i \<or> m div 2 = i \<and> m \<le> n"
      by (auto simp: m_def l_def)
    ultimately show ?thesis
      using below_trans [OF c il lm] by (simp add: is_max_def)
  qed
  ultimately show ?thesis
    by (rule that)
qed

lemma heap_but_done: "heap_but c l n i xs \<Longrightarrow> is_max c i n xs i \<Longrightarrow> heap_from c l n xs"
  unfolding heap_but_def is_max_def heap_from_def by metis

lemma heap_but_down:
  assumes heap: "heap_but c l n i xs" and max: "is_max c i n xs m" and m: "m \<noteq> i"
    and i: "1 \<le> l" "l \<le> i" and n: "n \<le> length xs"
  shows "heap_but c l n m (swapped (i - 1) (m - 1) xs)"
proof -
  have mi: "m div 2 = i" "m \<le> n" "i < m" "1 \<le> i"
    using max m i by (auto simp: is_max_def)
  define y where "y = (\<lambda>k. swapped (i - 1) (m - 1) xs ! (k - 1))"
  have at: "y k = (if k = m then xs ! (i - 1) else if k = i then xs ! (m - 1) else xs ! (k - 1))" if "1 \<le> k" "k \<le> n" for k
  proof -
    have "k - 1 = m - 1 \<longleftrightarrow> k = m" "k - 1 = i - 1 \<longleftrightarrow> k = i" "i - 1 < length xs" "m - 1 < length xs" "k - 1 < length xs"
      using that mi n by linarith+
    then show ?thesis
      by (simp add: y_def nth_swapped del: One_nat_def)
  qed
  have up: "\<And>k. 2 * l \<le> k \<Longrightarrow> k \<le> n \<Longrightarrow> k div 2 \<noteq> i \<Longrightarrow> below c (xs ! (k - 1)) (xs ! (k div 2 - 1))"
    and over: "2 * l \<le> i \<Longrightarrow> below c (xs ! (m - 1)) (xs ! (i div 2 - 1))"
    using heap mi by (auto simp: heap_but_def)
  have im: "below c (xs ! (i - 1)) (xs ! (m - 1))" and km: "\<And>k. k \<le> n \<Longrightarrow> k div 2 = i \<Longrightarrow> below c (xs ! (k - 1)) (xs ! (m - 1))"
    using max by (auto simp: is_max_def)
  have "below c (y k) (y (k div 2))" if k: "2 * l \<le> k" "k \<le> n" "k div 2 \<noteq> m" for k
  proof -
    have k1: "1 \<le> k" "1 \<le> k div 2" "k div 2 \<le> n" "k div 2 < k"
      using k i by auto
    consider "k = m" | "k \<noteq> m" "k div 2 = i" | "k = i" | "k \<noteq> m" "k \<noteq> i" "k div 2 \<noteq> i"
      by blast
    then show ?thesis
    proof cases
      case 1
      then show ?thesis
        using im mi at [of m] at [of i] m by simp
    next
      case 2
      then have "y k = xs ! (k - 1)" "y (k div 2) = xs ! (m - 1)"
        using k1 k(2) at [of k] at [of "k div 2"] m by simp_all
      with 2 show ?thesis
        using km [of k] k(2) by simp
    next
      case 3
      then have "y k = xs ! (m - 1)" "y (k div 2) = xs ! (i div 2 - 1)"
        using k1 k(2) at [of k] at [of "k div 2"] m mi by simp_all
      with 3 show ?thesis
        using over k by simp
    next
      case 4
      then have "y k = xs ! (k - 1)" "y (k div 2) = xs ! (k div 2 - 1)"
        using at [OF k1(1) k(2)] at [OF k1(2,3)] k(3) by simp_all
      with 4 show ?thesis
        using up [OF k(1,2)] by simp
    qed
  qed
  moreover have "below c (y k) (y (m div 2))" if k: "k \<le> n" "k div 2 = m" "2 * l \<le> m" for k
  proof -
    have k1: "1 \<le> k" "m < k" "k \<noteq> m" "k \<noteq> i" "2 * l \<le> k" "k div 2 \<noteq> i"
      using k mi i by auto
    then have "y k = xs ! (k - 1)" "y (m div 2) = xs ! (m - 1)"
      using k at [of k] at [of i] mi m by simp_all
    then show ?thesis
      using up [of k] k k1 by simp
  qed
  ultimately show ?thesis
    by (simp add: heap_but_def y_def)
qed

text \<open>What floating an element down leaves: a heap of the same elements, and nothing changed
  after the first \<open>n\<close>.\<close>

definition heapified :: "(byte list \<Rightarrow> byte list \<Rightarrow> int) \<Rightarrow> nat \<Rightarrow> nat \<Rightarrow> byte list list \<Rightarrow> byte list list \<Rightarrow> bool" where
  "heapified c l n xs ys \<longleftrightarrow> heap_from c l n ys \<and> mset ys = mset xs \<and> drop n ys = drop n xs"

lemma drop_swapped: "i < n \<Longrightarrow> j < n \<Longrightarrow> drop n (swapped i j xs) = drop n xs"
  by (simp add: swapped_def)

lemma heapify_ok:
  assumes c: "total_compare c" and sz: "0 < sz" and n: "n \<le> N" "N < 2 ^ 31" and l: "1 \<le> l"
  shows "length a = N * sz \<Longrightarrow> l \<le> i \<Longrightarrow> i \<le> n \<Longrightarrow> heap_but c l n i (elems sz a) \<Longrightarrow>
    \<exists>a'. heapify c i n sz a = Some a' \<and> length a' = length a \<and> heapified c l n (elems sz a) (elems sz a')"
proof (induction "n - i" arbitrary: i a rule: less_induct)
  case less
  have i: "1 \<le> i" "i \<le> N" "i < 2 ^ 31"
    using less.prems l n by simp_all
  obtain m where m: "pick_max c i n sz a = Some m" "is_max c i n (elems sz a) m"
    using pick_max_spec [OF c sz less.prems(1) i n(1)] by blast
  show ?case
  proof (cases "m = i")
    case True
    then have "heap_from c l n (elems sz a)"
      using heap_but_done less.prems(4) m(2) by blast
    then show ?thesis
      using True m(1) by (subst heapify.simps) (simp add: heapified_def)
  next
    case False
    then have mi: "m div 2 = i" "m \<le> n" "i < m"
      using m(2) i(1) by (auto simp: is_max_def)
    obtain b where b: "do_swap i m sz a = Some b" "length b = length a" "elems sz b = swapped (i - 1) (m - 1) (elems sz a)"
      using do_swap_elems [OF sz less.prems(1), of i m] i mi n by auto
    have len: "length (elems sz a) = N"
      using sz less.prems(1) by simp
    have "heap_but c l n m (elems sz b)"
      unfolding b(3) using heap_but_down [OF less.prems(4) m(2) False l less.prems(2)] n len by simp
    then obtain a' where a': "heapify c m n sz b = Some a'" "length a' = length b" "heapified c l n (elems sz b) (elems sz a')"
      using less.hyps [of m b, OF _ _ _ mi(2)] mi(2,3) b(2) less.prems(1,2) by fastforce
    have "heapified c l n (elems sz a) (elems sz a')"
      using a'(3) i mi n len unfolding heapified_def b(3) by (simp add: mset_swapped drop_swapped)
    moreover have "heapify c i n sz a = Some a'"
      using False m(1) b(1) a'(1) by (subst heapify.simps) simp
    ultimately show ?thesis
      using a'(2) b(2) by simp
  qed
qed

lemma mfold_down:
  assumes "a \<le> b" and "I b s"
    and step: "\<And>i s. a \<le> i \<Longrightarrow> i < b \<Longrightarrow> I (Suc i) s \<Longrightarrow> \<exists>s'. f i s = Some s' \<and> I i s'"
  shows "\<exists>s'. mfold f (rev [a..<b]) s = Some s' \<and> I a s'"
  using assms
proof (induction b arbitrary: s rule: nat_induct_at_least)
  case base
  then show ?case by simp
next
  case (Suc n)
  then obtain t where t: "f n s = Some t" "I n t"
    by (meson lessI)
  then obtain s' where "mfold f (rev [a..<n]) t = Some s'" "I a s'"
    using Suc.IH [of t] Suc.prems(2) less_Suc_eq by meson
  then show ?case
    using t Suc.hyps by simp
qed

lemma heap_root:
  assumes c: "total_compare c" and heap: "heap_from c 1 n xs"
  shows "1 \<le> k \<Longrightarrow> k \<le> n \<Longrightarrow> below c (xs ! (k - 1)) (xs ! 0)"
proof (induction k rule: less_induct)
  case (less k)
  show ?case
  proof (cases "k = 1")
    case True
    then show ?thesis
      using below_refl [OF c] by simp
  next
    case False
    then have "1 \<le> k div 2" "k div 2 < k" "2 * 1 \<le> k"
      using less.prems by auto
    moreover from this have "below c (xs ! (k - 1)) (xs ! (k div 2 - 1))"
      using heap less.prems by (simp add: heap_from_def)
    moreover from calculation(1,2) have "below c (xs ! (k div 2 - 1)) (xs ! 0)"
      using less.IH [of "k div 2"] less.prems by simp
    ultimately show ?thesis
      using below_trans [OF c] by blast
  qed
qed

text \<open>The state of the second loop when the elements after the first \<open>i\<close> are in place.\<close>

definition settled :: "(byte list \<Rightarrow> byte list \<Rightarrow> int) \<Rightarrow> nat \<Rightarrow> byte list list \<Rightarrow> bool" where
  "settled c i xs \<longleftrightarrow> heap_from c 1 i xs \<and> sorted_wrt (below c) (drop i xs) \<and>
     (\<forall>x\<in>set (take i xs). \<forall>y\<in>set (drop i xs). below c x y)"

lemma settled_swap:
  assumes c: "total_compare c" and xs: "settled c (Suc i) xs" and i: "1 \<le> i" "i < length xs"
  defines "ys \<equiv> swapped 0 i xs"
  shows "heap_but c 1 i 1 ys" "sorted_wrt (below c) (drop i ys)"
    "\<forall>x\<in>set (take i ys). \<forall>y\<in>set (drop i ys). below c x y"
proof -
  have heap: "heap_from c 1 (Suc i) xs" and tail: "sorted_wrt (below c) (drop (Suc i) xs)"
    and parts: "\<forall>x\<in>set (take (Suc i) xs). \<forall>y\<in>set (drop (Suc i) xs). below c x y"
    using xs by (simp_all add: settled_def)
  have ne: "0 < length xs"
    using i by linarith
  have drop: "drop i ys = xs ! 0 # drop (Suc i) xs"
  proof -
    have "drop i ys = ys ! i # drop (Suc i) ys"
      using i by (simp add: ys_def Cons_nth_drop_Suc)
    then show ?thesis
      using i nth_swapped [OF ne, of i i] drop_swapped [of 0 "Suc i" i xs] by (simp add: ys_def)
  qed
  have take: "mset (take i ys) + {#xs ! 0#} = mset (take (Suc i) xs)"
  proof -
    have "mset ys = mset xs"
      using i mset_swapped [OF ne, of i] by (simp add: ys_def)
    then have "mset (take i ys) + mset (drop i ys) = mset (take (Suc i) xs) + mset (drop (Suc i) xs)"
      by (simp only: mset_append [symmetric] append_take_drop_id)
    then show ?thesis
      unfolding drop by simp
  qed
  have sub: "set (take i ys) \<subseteq> set (take (Suc i) xs)"
    using arg_cong [OF take, of set_mset] by auto
  have top: "below c x (xs ! 0)" if x: "x \<in> set (take (Suc i) xs)" for x
  proof -
    obtain k where "k < Suc i" "x = xs ! k"
      using x i by (auto simp: in_set_conv_nth)
    then show ?thesis
      using heap_root [OF c heap, of "Suc k"] by simp
  qed
  have zero: "xs ! 0 \<in> set (take (Suc i) xs)"
    using i by (cases xs) simp_all
  show "sorted_wrt (below c) (drop i ys)"
    using tail parts zero by (simp add: drop)
  show "\<forall>x\<in>set (take i ys). \<forall>y\<in>set (drop i ys). below c x y"
    using parts top sub by (auto simp: drop)
  have "ys ! (k - 1) = xs ! (k - 1)" if k: "2 \<le> k" "k \<le> i" for k
  proof -
    have "k - 1 < length xs" "k - 1 \<noteq> i" "k - 1 \<noteq> 0"
      using k i by linarith+
    then show ?thesis
      using i nth_swapped [OF ne, of i "k - 1"] by (simp add: ys_def)
  qed
  then show "heap_but c 1 i 1 ys"
    using heap by (auto simp: heap_but_def heap_from_def)
qed

lemma heapified_set:
  assumes "heapified c l n ys zs"
  shows "set (take n zs) = set (take n ys)"
proof -
  have "mset zs = mset ys" and drop: "drop n zs = drop n ys"
    using assms by (simp_all add: heapified_def)
  from this(1) have "mset (take n zs) + mset (drop n zs) = mset (take n ys) + mset (drop n ys)"
    by (simp only: mset_append [symmetric] append_take_drop_id)
  then have "mset (take n zs) = mset (take n ys)"
    by (simp add: drop)
  then show ?thesis
    by (rule mset_eq_setD)
qed

lemma sort_step_ok:
  assumes c: "total_compare c" and sz: "0 < sz" "length a = N * sz" and N: "N < 2 ^ 31"
    and i: "2 \<le> i" "i \<le> N" and a: "settled c i (elems sz a)"
  shows "\<exists>a'. sort_step c sz i a = Some a' \<and> length a' = length a \<and>
    mset (elems sz a') = mset (elems sz a) \<and> settled c (i - 1) (elems sz a')"
proof -
  have len: "length (elems sz a) = N"
    using sz by simp
  have i1: "i - 1 \<le> N" "1 \<le> i - 1" and i2: "settled c (Suc (i - 1)) (elems sz a)" "i - 1 < length (elems sz a)"
    using i a len by simp_all
  obtain b where b: "do_swap 1 i sz a = Some b" "length b = length a" "elems sz b = swapped 0 (i - 1) (elems sz a)"
    using do_swap_elems [OF sz, of 1 i] i by auto
  have step: "heap_but c 1 (i - 1) 1 (elems sz b)" "sorted_wrt (below c) (drop (i - 1) (elems sz b))"
    "\<forall>x\<in>set (take (i - 1) (elems sz b)). \<forall>y\<in>set (drop (i - 1) (elems sz b)). below c x y"
    unfolding b(3) using settled_swap [OF c i2(1) i1(2) i2(2)] by simp_all
  obtain a' where a': "heapify c 1 (i - 1) sz b = Some a'" "length a' = length b" "heapified c 1 (i - 1) (elems sz b) (elems sz a')"
    using heapify_ok [OF c sz(1) _ N, of "i - 1" 1 b 1] step(1) i1 b(2) sz by auto
  have "mset (elems sz a') = mset (elems sz a)"
    using a'(3) i len by (simp add: heapified_def b(3) mset_swapped)
  moreover have "settled c (i - 1) (elems sz a')"
    using a'(3) step heapified_set [OF a'(3)] by (simp add: settled_def heapified_def)
  ultimately show ?thesis
    using a' b by (simp add: sort_step_def)
qed

lemma heap_from_start: "heap_from c (Suc (n div 2)) n xs"
  by (auto simp: heap_from_def)

lemma heap_from_but: "heap_from c (Suc i) n xs \<Longrightarrow> 1 \<le> i \<Longrightarrow> heap_but c i n i xs"
proof -
  assume heap: "heap_from c (Suc i) n xs" and "1 \<le> i"
  have "2 * Suc i \<le> k" if "2 * i \<le> k" "k div 2 \<noteq> i" for k
    using that by presburger
  then show ?thesis
    using heap \<open>1 \<le> i\<close> by (auto simp: heap_from_def heap_but_def)
qed

lemma build_heap_ok:
  assumes c: "total_compare c" and sz: "0 < sz" "length a = N * sz" and N: "N < 2 ^ 31"
  shows "\<exists>a'. mfold (\<lambda>i. heapify c i N sz) (rev [1..<N div 2 + 1]) a = Some a' \<and>
    (length a' = length a \<and> mset (elems sz a') = mset (elems sz a) \<and> heap_from c 1 N (elems sz a'))"
proof (rule mfold_down)
  show "length a = length a \<and> mset (elems sz a) = mset (elems sz a) \<and> heap_from c (N div 2 + 1) N (elems sz a)"
    using heap_from_start by simp
  fix i b
  assume i: "1 \<le> i" "i < N div 2 + 1"
    and b: "length b = length a \<and> mset (elems sz b) = mset (elems sz a) \<and> heap_from c (Suc i) N (elems sz b)"
  have less_i: "i \<le> N"
    using i by linarith
  have "heap_but c i N i (elems sz b)"
    using heap_from_but b i by blast
  then show "\<exists>b'. heapify c i N sz b = Some b' \<and> (length b' = length a \<and> mset (elems sz b') = mset (elems sz a) \<and> heap_from c i N (elems sz b'))"
    using heapify_ok [OF c sz(1) order_refl N i(1), of b i] b less_i sz(2) by (auto simp: heapified_def)
qed simp

lemma settled_start: "n = length xs \<Longrightarrow> heap_from c 1 n xs \<Longrightarrow> settled c n xs"
  by (simp add: settled_def)

lemma settled_one:
  assumes "settled c 1 xs"
  shows "sorted_wrt (below c) xs"
  using assms by (cases xs) (auto simp: settled_def)

text \<open>C33: \<open>sort\<close> returns for every array of \<open>cnt\<close> elements of \<open>size\<close> bytes and every
  comparison function that is a total preorder; the elements are a permutation of the old ones
  and in order.\<close>

theorem sort_sorts:
  assumes "total_compare compare" "0 < sz" "length a = cnt * sz" "cnt < 2 ^ 31"
  shows "\<exists>a'. sort_array compare cnt sz a = Some a' \<and> length a' = length a \<and>
    mset (elems sz a') = mset (elems sz a) \<and> sorted_wrt (\<lambda>x y. compare x y \<le> 0) (elems sz a')"
proof -
  obtain b where b: "mfold (\<lambda>i. heapify compare i cnt sz) (rev [1..<cnt div 2 + 1]) a = Some b"
      "length b = length a" "mset (elems sz b) = mset (elems sz a)" "heap_from compare 1 cnt (elems sz b)"
    using build_heap_ok [OF assms] by blast
  let ?I = "\<lambda>i d. length d = length a \<and> mset (elems sz d) = mset (elems sz a) \<and> settled compare (i - 1) (elems sz d)"
  have start: "?I (cnt + 1) b"
    using b assms by (simp add: settled_start)
  show ?thesis
  proof (cases "cnt = 0")
    case True
    then show ?thesis
      using b assms by (simp add: sort_array_def elems_def)
  next
    case False
    have "\<exists>d. mfold (sort_step compare sz) (rev [2..<cnt + 1]) b = Some d \<and> ?I 2 d"
    proof (rule mfold_down [where I = ?I, OF _ start])
      fix i d
      assume i: "2 \<le> i" "i < cnt + 1" and d: "?I (Suc i) d"
      then show "\<exists>d'. sort_step compare sz i d = Some d' \<and> ?I i d'"
        using sort_step_ok [OF assms(1,2) _ assms(4) i(1), of d] assms(3) by auto
    qed (use False in simp)
    then show ?thesis
      using b(1) assms(2) settled_one by (fastforce simp: sort_array_def)
  qed
qed

text \<open>The comparison of the first byte of two elements.\<close>

definition first_byte :: "byte list \<Rightarrow> byte list \<Rightarrow> int" where
  "first_byte x y = uint (hd x) - uint (hd y)"

lemma first_byte_total: "total_compare first_byte"
  by (auto simp: total_compare_def first_byte_def)

theorem sort_sorts_witness:
  "\<exists>a'. sort_array first_byte 3 2 [5, 1, 3, 2, 4, 3] = Some a' \<and> length a' = length [5, 1, 3, 2, 4, 3 :: byte] \<and>
    mset (elems 2 a') = mset (elems 2 [5, 1, 3, 2, 4, 3]) \<and> sorted_wrt (\<lambda>x y. first_byte x y \<le> 0) (elems 2 a')"
  using sort_sorts [OF first_byte_total, of 2 "[5, 1, 3, 2, 4, 3]" 3] by simp

section \<open>The binary search\<close>

text \<open>The key lies between the elements on the two sides.\<close>

definition key_sorted :: "(byte list \<Rightarrow> byte list \<Rightarrow> int) \<Rightarrow> byte list \<Rightarrow> byte list list \<Rightarrow> bool" where
  "key_sorted compare key xs \<longleftrightarrow> (\<forall>i j. i \<le> j \<longrightarrow> j < length xs \<longrightarrow>
     (compare key (xs ! i) < 0 \<longrightarrow> compare key (xs ! j) < 0) \<and>
     (compare key (xs ! j) > 0 \<longrightarrow> compare key (xs ! i) > 0))"

lemma sorted_key_sorted:
  assumes c: "total_compare c" and xs: "sorted_wrt (below c) xs"
  shows "key_sorted c key xs"
  unfolding key_sorted_def
proof (intro allI impI conjI)
  fix i j
  assume ij: "i \<le> j" "j < length xs"
  have le: "below c (xs ! i) (xs ! j)"
    using xs ij below_refl [OF c] by (cases "i = j") (auto simp: sorted_wrt_iff_nth_less)
  have neg: "c x y < 0 \<longleftrightarrow> \<not> below c y x" for x y
    using c by (simp add: total_compare_def not_le)
  show "c key (xs ! j) < 0" if "c key (xs ! i) < 0"
    using that below_trans [OF c le] unfolding neg by blast
  show "c key (xs ! i) > 0" if "c key (xs ! j) > 0"
    using that below_trans [OF c _ le] unfolding not_le [symmetric] by blast
qed

lemma search_loop_ok:
  assumes sz: "0 < sz" "length a = n * sz" and key: "key_sorted c key (elems sz a)"
  shows "l \<le> n \<Longrightarrow> (\<forall>k<f. c key (elems sz a ! k) > 0) \<Longrightarrow> (\<forall>k<n. l \<le> k \<longrightarrow> c key (elems sz a ! k) < 0) \<Longrightarrow>
    \<exists>r. search_loop c key sz a (f * sz) (l * sz) = Some r \<and>
      (case r of None \<Rightarrow> \<forall>k<n. c key (elems sz a ! k) \<noteq> 0 | Some p \<Rightarrow> \<exists>k<n. p = k * sz \<and> c key (elems sz a ! k) = 0)"
proof (induction "l - f" arbitrary: f l rule: less_induct)
  case less
  show ?case
  proof (cases "f < l")
    case False
    then have "\<forall>k<n. c key (elems sz a ! k) \<noteq> 0"
      using less.prems by (metis less_irrefl not_le order_less_le_trans)
    then show ?thesis
      using False by (subst search_loop.simps) simp
  next
    case True
    define m where "m = f + (l - f) div 2"
    have m: "f \<le> m" "m < l" "m < n"
      using True less.prems(1) by (simp_all add: m_def)
    have lt: "f * sz < l * sz"
      using True sz by simp
    have range: "(l * sz - f * sz) div sz = l - f"
      using sz by (simp add: diff_mult_distrib [symmetric])
    have mid: "f * sz + (l - f) div 2 * sz = m * sz"
      by (simp add: m_def add_mult_distrib)
    have in_bounds: "m * sz + sz \<le> length a"
      using mult_le_mono1 [of "Suc m" n sz] m sz by simp
    have elem: "buf_get (m * sz) sz a = elems sz a ! m"
      using nth_elems [OF sz m(3)] by simp
    have len: "length (elems sz a) = n"
      using sz by simp
    have step: "search_loop c key sz a (f * sz) (l * sz) =
        (if c key (elems sz a ! m) < 0 then search_loop c key sz a (f * sz) (m * sz)
         else if c key (elems sz a ! m) > 0 then search_loop c key sz a (Suc m * sz) (l * sz)
         else Some (Some (m * sz)))"
      using lt in_bounds by (subst search_loop.simps) (simp add: Let_def range mid elem add.commute [of sz])
    consider "c key (elems sz a ! m) < 0" | "c key (elems sz a ! m) > 0" | "c key (elems sz a ! m) = 0"
      by linarith
    then show ?thesis
    proof cases
      case 1
      then have "\<forall>k<n. m \<le> k \<longrightarrow> c key (elems sz a ! k) < 0"
        using key len by (simp add: key_sorted_def)
      then show ?thesis
        unfolding step using 1 less.hyps [of m f] less.prems m by simp
    next
      case 2
      then have "\<forall>k<Suc m. c key (elems sz a ! k) > 0"
        using key len m(3) unfolding key_sorted_def less_Suc_eq_le by blast
      moreover have "l - Suc m < l - f"
        using m by linarith
      ultimately have "\<exists>r. search_loop c key sz a (Suc m * sz) (l * sz) = Some r \<and>
          (case r of None \<Rightarrow> \<forall>k<n. c key (elems sz a ! k) \<noteq> 0 | Some p \<Rightarrow> \<exists>k<n. p = k * sz \<and> c key (elems sz a ! k) = 0)"
        by (intro less.hyps less.prems)
      moreover have "search_loop c key sz a (f * sz) (l * sz) = search_loop c key sz a (Suc m * sz) (l * sz)"
        unfolding step using 2 by (simp only: if_True if_False less_not_sym not_False_eq_True)
      ultimately show ?thesis
        by simp
    next
      case 3
      then show ?thesis
        unfolding step using m by auto
    qed
  qed
qed

text \<open>C34: in a sorted array \<open>binary_search\<close> returns, and returns the position of an element
  that compares equal to the key if there is one and a null pointer if there is none.\<close>

theorem binary_search_finds:
  assumes "total_compare compare" "0 < sz" "length a = cnt * sz" "length a < 2 ^ 32"
    "sorted_wrt (\<lambda>x y. compare x y \<le> 0) (elems sz a)"
  shows "\<exists>r. binary_search compare key cnt sz a = Some r \<and>
    (case r of None \<Rightarrow> \<forall>k<cnt. compare key (elems sz a ! k) \<noteq> 0
     | Some p \<Rightarrow> \<exists>k<cnt. p = k * sz \<and> compare key (elems sz a ! k) = 0)"
proof -
  have "szt (sz * cnt) = cnt * sz"
    using assms(3,4) by (simp add: szt_def mult.commute)
  then show ?thesis
    using search_loop_ok [OF assms(2,3) sorted_key_sorted [OF assms(1,5)], of cnt 0] by (simp add: binary_search_def)
qed

theorem binary_search_finds_witness:
  "\<exists>r. binary_search first_byte [4, 0] 3 2 [3, 2, 4, 3, 5, 1] = Some r \<and>
    (case r of None \<Rightarrow> \<forall>k<3. first_byte [4, 0] (elems 2 [3, 2, 4, 3, 5, 1] ! k) \<noteq> 0
     | Some p \<Rightarrow> \<exists>k<3. p = k * 2 \<and> first_byte [4, 0] (elems 2 [3, 2, 4, 3, 5, 1] ! k) = 0)"
proof (rule binary_search_finds [OF first_byte_total])
  show "sorted_wrt (below first_byte) (elems 2 [3, 2, 4, 3, 5, 1])"
    by (simp add: elems_def buf_get_def first_byte_def upt_rec)
qed simp_all

section \<open>Numbers\<close>

text \<open>The digits of a natural number, and that \<open>atoi\<close> reads them back, with or without a
  sign, over the whole range of \<open>int\<close>.\<close>

fun digits :: "nat \<Rightarrow> byte list" where
  "digits n = (if n < 10 then [word_of_nat (48 + n)] else digits (n div 10) @ [word_of_nat (48 + n mod 10)])"

declare digits.simps [simp del]

definition print_int :: "int \<Rightarrow> byte list" where
  "print_int z = (if z < 0 then 45 # digits (nat (- z)) else digits (nat z))"

lemma digit_cases: "d < 10 \<Longrightarrow> d = 0 \<or> d = 1 \<or> d = 2 \<or> d = 3 \<or> d = 4 \<or> d = 5 \<or> d = 6 \<or> d = 7 \<or> d = 8 \<or> d = (9 :: nat)"
  by (simp add: less_Suc_eq eval_nat_numeral)

lemma sint_digit: "d < 10 \<Longrightarrow> sint (word_of_nat (48 + d) :: byte) = 48 + int d"
  by (drule digit_cases) (elim disjE; simp)

lemma isdigit_digit: "d < 10 \<Longrightarrow> isdigit (word_of_nat (48 + d))"
  unfolding isdigit_def by (simp only: sint_digit) simp

lemma parse_digits_digit: "d < 10 \<Longrightarrow> parse_digits v (word_of_nat (48 + d) # s) = parse_digits (i32 (v * 10 - int d)) s"
  by (simp only: parse_digits.simps isdigit_digit sint_digit if_True add_diff_cancel_left')

lemma parse_digits_digits: "n \<le> 2 ^ 31 \<Longrightarrow> parse_digits 0 (digits n @ s) = parse_digits (- int n) s"
proof (induction n arbitrary: s rule: digits.induct)
  case (1 n)
  show ?case
  proof (cases "n < 10")
    case True
    then show ?thesis
      by (subst digits.simps) (simp add: parse_digits_digit i32_id del: of_nat_add parse_digits.simps)
  next
    case False
    have "- int (n div 10) * 10 - int (n mod 10) = - int n"
      by presburger
    moreover have "digits n = digits (n div 10) @ [word_of_nat (48 + n mod 10)]"
      using False by (subst digits.simps) simp
    moreover have "parse_digits 0 (digits (n div 10) @ word_of_nat (48 + n mod 10) # s)
        = parse_digits (- int (n div 10)) (word_of_nat (48 + n mod 10) # s)"
      using False "1.prems" by (intro "1.IH") simp_all
    ultimately show ?thesis
      using "1.prems" by (simp add: parse_digits_digit i32_id del: of_nat_add parse_digits.simps)
  qed
qed

lemma hd_digits: "\<exists>d ds. digits n = word_of_nat (48 + d) # ds \<and> d < 10"
proof (induction n rule: digits.induct)
  case (1 n)
  show ?case
  proof (cases "n < 10")
    case True
    then show ?thesis
      by (subst digits.simps) auto
  next
    case False
    then show ?thesis
      using 1 by (subst digits.simps) fastforce
  qed
qed

lemma digit_no_space: "d < 10 \<Longrightarrow> \<not> isspace (word_of_nat (48 + d)) \<and> word_of_nat (48 + d) \<noteq> (43 :: byte) \<and> word_of_nat (48 + d) \<noteq> (45 :: byte)"
  by (drule digit_cases) (elim disjE; simp add: isspace_def)

lemma skip_spaces_replicate: "skip_spaces (replicate k 32 @ s) = skip_spaces s"
  by (induction k) (simp_all add: isspace_def)

text \<open>\<open>atoi\<close> reads back every value of the type \<open>int\<close> from its decimal representation,
  with white space before it and anything but a digit after it.\<close>

theorem atoi_print_int:
  assumes "- (2 ^ 31) \<le> z" "z < 2 ^ 31" "\<not> isdigit e"
  shows "atoi (replicate k 32 @ print_int z @ e # s) = Some z"
proof -
  have *: "parse_digits 0 (digits n @ e # s) = Some (- int n)" if "n \<le> 2 ^ 31" for n
    using parse_digits_digits [OF that] assms(3) by simp
  show ?thesis
  proof (cases "z < 0")
    case True
    then show ?thesis
      using * [of "nat (- z)"] assms
      by (simp add: atoi_def skip_spaces_replicate print_int_def isspace_def arr_get_def)
  next
    case False
    obtain d ds where d: "digits (nat z) = word_of_nat (48 + d) # ds" "d < 10"
      using hd_digits by blast
    then have "parse_digits 0 (word_of_nat (48 + d) # ds @ e # s) = Some (- z)"
      using * [of "nat z"] False assms by simp
    then show ?thesis
      using False assms digit_no_space [OF d(2)]
      by (simp add: atoi_def skip_spaces_replicate print_int_def d(1) arr_get_def i32_id del: of_nat_add parse_digits.simps)
  qed
qed

theorem atoi_print_int_witness: "atoi (replicate 2 32 @ print_int (- 2147483648) @ 0 # []) = Some (- 2147483648)"
  by (rule atoi_print_int) (simp_all add: isdigit_def)

end
