(* ===== verification/Arith64.thy ===== *)
theory Arith64
  imports Prelude
begin

text \<open>
  64-bit division on a 32-bit machine, \<open>lib/arithmetic.c\<close>.  Unsigned values are numbers
  below \<open>2^64\<close>, signed ones integers; every conversion and every operation that wraps is
  written with its \<open>mod\<close>.  \<open>divl\<close> is the processor's instruction, which traps when the
  quotient does not fit.
\<close>

section \<open>Definitions\<close>

definition divl :: "nat \<Rightarrow> nat \<Rightarrow> nat option" where
  "divl n d = do {
     kassert (d \<noteq> 0);
     kassert (n div d < 2 ^ 32);
     Some (n div d) }"

text \<open>The value of an unsigned 64-bit expression.\<close>

definition u64of :: "int \<Rightarrow> nat" where
  "u64of x = nat (x mod 2 ^ 64)"

definition i64 :: "int \<Rightarrow> int" where
  "i64 x = (x + 2 ^ 63) mod 2 ^ 64 - 2 ^ 63"

definition nlz_step :: "nat \<Rightarrow> nat \<Rightarrow> nat \<times> nat \<Rightarrow> nat \<times> nat" where
  "nlz_step lim k = (\<lambda>(n, x). if x \<le> lim then (n + k, szt (x * 2 ^ k)) else (n, x))"

definition nlz :: "nat \<Rightarrow> nat" where
  "nlz x = (let
     (n, x) = nlz_step 0x0000FFFF 16 (0, x);
     (n, x) = nlz_step 0x00FFFFFF 8 (n, x);
     (n, x) = nlz_step 0x0FFFFFFF 4 (n, x);
     (n, x) = nlz_step 0x3FFFFFFF 2 (n, x)
     in if x \<le> 0x7FFFFFFF then n + 1 else n)"

definition udiv64 :: "nat \<Rightarrow> nat \<Rightarrow> nat option" where
  "udiv64 n d =
     (if d div 2 ^ 32 = 0 then do {
        let b = 2 ^ 32;
        let n1 = n div 2 ^ 32;
        let n0 = n mod 2 ^ 32;
        let d0 = d mod 2 ^ 32;
        kassert (d0 \<noteq> 0);
        q \<leftarrow> divl ((b * (n1 mod d0) + n0) mod 2 ^ 64) d0;
        Some ((q + b * (n1 div d0)) mod 2 ^ 64) }
      else if n < d then Some 0
      else do {
        let d1 = d div 2 ^ 32;
        let s = nlz d1;
        q \<leftarrow> divl (n div 2) (d * 2 ^ s mod 2 ^ 64 div 2 ^ 32);
        let q = q div 2 ^ (31 - s);
        Some (if u64of (int n - (int q - 1) * int d) < d then u64of (int q - 1) else q) })"

definition umod64 :: "nat \<Rightarrow> nat \<Rightarrow> nat option" where
  "umod64 n d = do {
     q \<leftarrow> udiv64 n d;
     Some (u64of (int n - int d * int q) mod 2 ^ 32) }"

definition sdiv64 :: "int \<Rightarrow> int \<Rightarrow> int option" where
  "sdiv64 n d = do {
     let n_abs = (if n \<ge> 0 then u64of n else u64of (- int (u64of n)));
     let d_abs = (if d \<ge> 0 then u64of d else u64of (- int (u64of d)));
     q_abs \<leftarrow> udiv64 n_abs d_abs;
     Some (if (n < 0) = (d < 0) then i64 (int q_abs) else i64 (- i64 (int q_abs))) }"

definition smod64 :: "int \<Rightarrow> int \<Rightarrow> int option" where
  "smod64 n d = do {
     q \<leftarrow> sdiv64 n d;
     Some (i32 (i64 (n - d * q))) }"

definition divdi3 :: "int \<Rightarrow> int \<Rightarrow> int option" where
  "divdi3 n d = sdiv64 n d"

definition moddi3 :: "int \<Rightarrow> int \<Rightarrow> int option" where
  "moddi3 n d = smod64 n d"

definition udivdi3 :: "nat \<Rightarrow> nat \<Rightarrow> nat option" where
  "udivdi3 n d = udiv64 n d"

definition umoddi3 :: "nat \<Rightarrow> nat \<Rightarrow> nat option" where
  "umoddi3 n d = umod64 n d"

section \<open>Leading zeros\<close>

text \<open>
  The invariant of the steps of \<open>nlz\<close>: \<open>x\<close> is the argument shifted by \<open>n\<close>, and its \<open>w\<close>
  highest bits are not all zero.
\<close>

definition nlz_inv :: "nat \<Rightarrow> nat \<Rightarrow> nat \<times> nat \<Rightarrow> bool" where
  "nlz_inv x0 w = (\<lambda>(n, x). x = x0 * 2 ^ n \<and> x < 2 ^ 32 \<and> 2 ^ (32 - w) \<le> x)"

lemma nlz_step_inv:
  assumes "nlz_inv x0 (2 * k) p" "2 * k \<le> 32" "lim + 1 = 2 ^ (32 - k)"
  shows "nlz_inv x0 k (nlz_step lim k p)"
proof -
  obtain n x where p: "p = (n, x)" by fastforce
  have i: "x = x0 * 2 ^ n" "x < 2 ^ 32" "2 ^ (32 - 2 * k) \<le> x" using assms(1) by (simp_all add: p nlz_inv_def)
  show ?thesis
  proof (cases "x \<le> lim")
    case True
    then have "x < 2 ^ (32 - k)" using assms(3) by linarith
    then have "x * 2 ^ k < 2 ^ (32 - k) * 2 ^ k" by simp
    then have lt: "x * 2 ^ k < 2 ^ 32" using assms(2) by (simp flip: power_add)
    have "2 ^ (32 - 2 * k) * 2 ^ k \<le> x * 2 ^ k" using i(3) by simp
    moreover have "32 - 2 * k + k = 32 - k" using assms(2) by simp
    ultimately have "2 ^ (32 - k) \<le> x * 2 ^ k" by (simp flip: power_add)
    then show ?thesis using True lt i(1) by (simp add: p nlz_step_def nlz_inv_def power_add mult.assoc)
  next
    case False
    then have "2 ^ (32 - k) \<le> x" using assms(3) by linarith
    then show ?thesis using False i by (simp add: p nlz_step_def nlz_inv_def)
  qed
qed

lemma nlz_ok:
  assumes "0 < x" "x < 2 ^ 32"
  shows "2 ^ 31 \<le> x * 2 ^ nlz x" "x * 2 ^ nlz x < 2 ^ 32"
proof -
  have "nlz_inv x 32 (0, x)" using assms by (simp add: nlz_inv_def)
  then have "nlz_inv x 16 (nlz_step 0x0000FFFF 16 (0, x))" by (intro nlz_step_inv) simp_all
  then have "nlz_inv x 8 (nlz_step 0x00FFFFFF 8 (nlz_step 0x0000FFFF 16 (0, x)))" by (intro nlz_step_inv) simp_all
  then have "nlz_inv x 4 (nlz_step 0x0FFFFFFF 4 (nlz_step 0x00FFFFFF 8 (nlz_step 0x0000FFFF 16 (0, x))))"
    by (intro nlz_step_inv) simp_all
  then have i: "nlz_inv x 2 (nlz_step 0x3FFFFFFF 2 (nlz_step 0x0FFFFFFF 4 (nlz_step 0x00FFFFFF 8 (nlz_step 0x0000FFFF 16 (0, x)))))"
    by (intro nlz_step_inv) simp_all
  obtain n y where ny: "nlz_step 0x3FFFFFFF 2 (nlz_step 0x0FFFFFFF 4 (nlz_step 0x00FFFFFF 8 (nlz_step 0x0000FFFF 16 (0, x)))) = (n, y)"
    by fastforce
  have y: "y = x * 2 ^ n" "y < 2 ^ 32" "2 ^ 30 \<le> y" using i by (simp_all add: ny nlz_inv_def)
  have z: "nlz x = (if y \<le> 0x7FFFFFFF then n + 1 else n)" using ny by (simp add: nlz_def split: prod.splits)
  show "2 ^ 31 \<le> x * 2 ^ nlz x" "x * 2 ^ nlz x < 2 ^ 32" using y by (auto simp: z)
qed

section \<open>Division\<close>

lemma nlz_less: "0 < x \<Longrightarrow> x < 2 ^ 32 \<Longrightarrow> nlz x \<le> 31"
proof (rule ccontr)
  assume x: "0 < x" "x < 2 ^ 32" and "\<not> nlz x \<le> 31"
  then have "(2::nat) ^ 32 \<le> 2 ^ nlz x" by (intro power_increasing) auto
  also have "\<dots> \<le> x * 2 ^ nlz x" using x(1) by simp
  finally show False using nlz_ok(2) [OF x] by simp
qed

lemma udiv64_small:
  assumes "n < 2 ^ 64" "0 < d" "d < 2 ^ 32"
  shows "udiv64 n d = Some (n div d)"
proof -
  let ?n1 = "n div 2 ^ 32" and ?n0 = "n mod 2 ^ 32"
  let ?r = "2 ^ 32 * (?n1 mod d) + ?n0"
  have "?r < 2 ^ 32 * (?n1 mod d) + 2 ^ 32" by simp
  also have "\<dots> = 2 ^ 32 * (?n1 mod d + 1)" by (simp add: distrib_left)
  also have "\<dots> \<le> 2 ^ 32 * d" using assms(2) by (intro mult_left_mono) (simp_all add: Suc_leI)
  finally have r: "?r < 2 ^ 32 * d" .
  have "2 ^ 32 * d < 2 ^ 32 * 2 ^ 32" using assms(3) by simp
  then have r64: "?r mod 2 ^ 64 = ?r" using r by simp
  have q: "?r div d < 2 ^ 32" using r by (simp add: less_mult_imp_div_less)
  have "n = 2 ^ 32 * ?n1 + ?n0" by simp
  also have "2 ^ 32 * ?n1 = 2 ^ 32 * (?n1 div d * d + ?n1 mod d)" by simp
  also have "\<dots> + ?n0 = ?r + 2 ^ 32 * (?n1 div d) * d" by (simp only: distrib_left mult.assoc ac_simps)
  finally have "n div d = (?r + 2 ^ 32 * (?n1 div d) * d) div d" by simp
  also have "\<dots> = ?r div d + 2 ^ 32 * (?n1 div d)" using assms(2) by simp
  finally have e: "?r div d + 2 ^ 32 * (?n1 div d) = n div d" by simp
  have "n div d < 2 ^ 64" by (rule le_less_trans [OF div_le_dividend assms(1)])
  then have m: "n div d mod 2 ^ 64 = n div d" by (rule mod_less)
  have dz: "d div 2 ^ 32 = 0" "d mod 2 ^ 32 = d" "d \<noteq> 0" using assms(2,3) by simp_all
  have dv: "divl ?r d = Some (?r div d)" unfolding divl_def using q dz(3) by simp
  show ?thesis
    unfolding udiv64_def Let_def dz(1,2) r64 dv bind.simps e m using dz(3) by simp
qed

text \<open>
  The estimate: dividing by the divisor with its low bits cleared overshoots by one at most.
\<close>

lemma div_estimate:
  fixes n d d' k t :: nat
  assumes "d' \<le> d" "0 < d'" "(n div d + 1) * (d - d') \<le> d'"
  shows "n div d \<le> n div d'" "n div d' \<le> n div d + 1"
proof -
  show "n div d \<le> n div d'" using assms(1,2) by (rule div_le_mono2 [rotated])
  have "n < (n div d + 1) * d" using assms(1,2) by (simp add: dividend_less_div_times)
  also have "\<dots> = (n div d + 1) * d' + (n div d + 1) * (d - d')"
    using assms(1) by (simp only: flip: distrib_left) simp
  also have "\<dots> \<le> (n div d + 1) * d' + d'" using assms(3) by simp
  finally have "n < (n div d + 2) * d'" by simp
  then show "n div d' \<le> n div d + 1" by (simp add: less_mult_imp_div_less flip: less_Suc_eq_le)
qed

lemma u64of_int: "x < 2 ^ 64 \<Longrightarrow> u64of (int x) = x"
  by (simp add: u64of_def nat_mod_distrib)

text \<open>The last line of the algorithm removes the overshoot.\<close>

lemma udiv_correct:
  assumes n: "n < 2 ^ 64" and d: "0 < d" "d \<le> n" and q: "n div d \<le> q" "q \<le> n div d + 1"
  shows "(if u64of (int n - (int q - 1) * int d) < d then u64of (int q - 1) else q) = n div d"
proof -
  define k r where kr: "k = n div d" "r = n mod d"
  have r: "n = k * d + r" "r < d" using d(1) by (simp_all add: kr)
  have k0: "0 < k" using d by (simp add: kr div_greater_zero_iff)
  have kn: "k < 2 ^ 64" unfolding kr by (rule le_less_trans [OF div_le_dividend n])
  have in_r: "int n = int k * int d + int r" using r(1) by simp
  show ?thesis
  proof (cases "q = k")
    case True
    have e: "int n - (int q - 1) * int d = int (r + d)" unfolding True in_r by (simp add: left_diff_distrib)
    have "d \<le> k * d" using k0 by (cases k) simp_all
    then have "r + d < 2 ^ 64" using r(1) n by linarith
    then have "u64of (int n - (int q - 1) * int d) = r + d" unfolding e by (rule u64of_int)
    then show ?thesis using True by (simp add: kr)
  next
    case False
    then have q': "q = k + 1" using q by (simp add: kr)
    have e: "int n - (int q - 1) * int d = int r" unfolding q' in_r by simp
    have "r < 2 ^ 64" using r n by linarith
    then have "u64of (int n - (int q - 1) * int d) = r" unfolding e by (rule u64of_int)
    moreover have "int q - 1 = int k" using q' by simp
    ultimately show ?thesis using u64of_int [OF kn] r(2) by (simp add: kr)
  qed
qed

text \<open>
  Normalisation: with \<open>s\<close> leading zeros, the shifted divisor has its top bit set, and
  dividing by its upper half amounts to dividing by \<open>d\<close> without its low \<open>32 - s\<close> bits.
\<close>

lemma normalise:
  assumes d: "2 ^ 32 \<le> d" "d < 2 ^ 64"
  defines "s \<equiv> nlz (d div 2 ^ 32)"
  defines "p \<equiv> 2 ^ (32 - s)"
  shows "s \<le> 31" "p * 2 ^ s = 2 ^ 32" "2 ^ (31 - s) * 2 = p" "d * 2 ^ s < 2 ^ 64"
    "d * 2 ^ s div 2 ^ 32 = d div p" "2 ^ 31 \<le> d div p"
proof -
  define d1 where "d1 = d div 2 ^ 32"
  have d1: "0 < d1" "d1 < 2 ^ 32" using d by (simp_all add: d1_def div_greater_zero_iff less_mult_imp_div_less)
  have s: "s \<le> 31" "2 ^ 31 \<le> d1 * 2 ^ s" "d1 * 2 ^ s < 2 ^ 32"
    using nlz_less [OF d1] nlz_ok [OF d1] by (simp_all add: s_def d1_def)
  show "s \<le> 31" by (rule s(1))
  show p: "p * 2 ^ s = 2 ^ 32" using s(1) by (simp add: p_def flip: power_add)
  have "32 - s = Suc (31 - s)" using s(1) by simp
  then show "2 ^ (31 - s) * 2 = p" by (simp add: p_def)
  have d1p: "d1 < p" using s(3) p by (metis mult_less_cancel2)
  have "d < (d1 + 1) * 2 ^ 32" unfolding d1_def by (simp add: dividend_less_div_times)
  also have "\<dots> \<le> p * 2 ^ 32" using d1p by (intro mult_right_mono) simp_all
  finally have "d * 2 ^ s < p * 2 ^ 32 * 2 ^ s" by simp
  also have "\<dots> = (p * 2 ^ s) * 2 ^ 32" by simp
  finally show "d * 2 ^ s < 2 ^ 64" unfolding p by simp
  show v: "d * 2 ^ s div 2 ^ 32 = d div p" using div_mult_mult2 [of "2 ^ s" d p] p by simp
  have "d1 * 2 ^ 32 \<le> d" by (simp add: d1_def)
  then have "d1 * 2 ^ 32 * 2 ^ s \<le> d * 2 ^ s" by simp
  then have "(d1 * 2 ^ s) * 2 ^ 32 \<le> d * 2 ^ s" by (simp only: ac_simps)
  then have "(d1 * 2 ^ s) * 2 ^ 32 div 2 ^ 32 \<le> d * 2 ^ s div 2 ^ 32" by (rule div_le_mono)
  then have "d1 * 2 ^ s \<le> d div p" unfolding v by simp
  then show "2 ^ 31 \<le> d div p" using s(2) by linarith
qed

lemma estimate_bound:
  fixes n d s p :: nat
  assumes n: "n < 2 ^ 64" and s: "s \<le> 31" and p: "p * 2 ^ s = 2 ^ 32" and pdef: "p = 2 ^ (32 - s)" and v: "2 ^ 31 \<le> d div p"
  shows "(n div d + 1) * (d - d div p * p) \<le> d div p * p"
proof -
  have p0: "0 < p" using p by (cases p) simp_all
  have low: "2 ^ 31 * p \<le> d div p * p" using v by simp
  have le: "d div p * p \<le> d" by simp
  have "d - d div p * p = d mod p" by (simp add: minus_div_mult_eq_mod)
  moreover have "d mod p < p" using p0 by simp
  ultimately have rest: "d - d div p * p \<le> p - 1" by linarith
  have "2 ^ (s + 1) * (2 ^ 31 * p) = 2 ^ 32 * (p * 2 ^ s)" by simp
  also have "\<dots> = 2 ^ 64" unfolding p by simp
  finally have e: "2 ^ (s + 1) * (2 ^ 31 * p) = 2 ^ 64" .
  have "2 ^ (s + 1) * (2 ^ 31 * p) \<le> 2 ^ (s + 1) * d" by (rule mult_le_mono2 [OF le_trans [OF low le]])
  then have "2 ^ 64 \<le> 2 ^ (s + 1) * d" unfolding e .
  then have "n < 2 ^ (s + 1) * d" using n by (rule less_le_trans [rotated])
  then have k: "n div d + 1 \<le> 2 ^ (s + 1)" by (simp add: less_mult_imp_div_less Suc_leI)
  have small: "2 ^ (s + 1) * (p - 1) \<le> 2 ^ 31 * p"
  proof (cases "s = 31")
    case True
    then have "p = 2" using p by simp
    then show ?thesis using True by simp
  next
    case False
    have "p = 2 ^ (32 - s)" by (rule pdef)
    moreover have "(2::nat) ^ 2 \<le> 2 ^ (32 - s)" using s False by (intro power_increasing) auto
    ultimately have "2 * 2 ^ 32 \<le> 2 ^ 31 * p" by simp
    moreover have "2 ^ (s + 1) * (p - 1) \<le> 2 * (p * 2 ^ s)" by simp
    ultimately show ?thesis unfolding p by (blast intro: le_trans)
  qed
  have "(n div d + 1) * (d - d div p * p) \<le> 2 ^ (s + 1) * (p - 1)" using k rest by (intro mult_mono) simp_all
  then show ?thesis using small low by (blast intro: le_trans)
qed

lemma udiv64_big:
  assumes n: "n < 2 ^ 64" and d: "2 ^ 32 \<le> d" "d < 2 ^ 64" and nd: "d \<le> n"
  shows "udiv64 n d = Some (n div d)"
proof -
  define s where "s = nlz (d div 2 ^ 32)"
  define p where "p = (2::nat) ^ (32 - s)"
  define v where "v = d div p"
  note nm = normalise [OF d, folded s_def, folded p_def, folded v_def]
  have dh: "d div 2 ^ 32 \<noteq> 0" using d(1) by (simp add: div_eq_0_iff)
  have v0: "0 < v" using nm(6) by (rule less_le_trans [rotated]) simp
  have "n div 2 < 2 ^ 63" using n by (simp add: less_mult_imp_div_less)
  also have "2 ^ 63 \<le> 2 ^ 32 * v" using nm(6) by simp
  finally have q1: "n div 2 div v < 2 ^ 32" by (simp add: less_mult_imp_div_less)
  have "n div 2 div v div 2 ^ (31 - s) = n div (2 * v * 2 ^ (31 - s))" by (simp add: div_mult2_eq)
  also have "2 * v * 2 ^ (31 - s) = v * (2 ^ (31 - s) * 2)" by simp
  finally have q: "n div 2 div v div 2 ^ (31 - s) = n div (v * p)" unfolding nm(3) .
  have "udiv64 n d = Some (let q = n div (v * p) in
      if u64of (int n - (int q - 1) * int d) < d then u64of (int q - 1) else q)"
  proof -
    have "v \<noteq> 0" using v0 by blast
    then have dv: "divl (n div 2) (d * 2 ^ s mod 2 ^ 64 div 2 ^ 32) = Some (n div 2 div v)"
      unfolding mod_less [OF nm(4)] nm(5) divl_def using q1 by (simp only: not_False_eq_True kassert_True bind.simps)
    have "\<not> n < d" using nd by (simp only: not_less)
    then show ?thesis
      unfolding udiv64_def Let_def s_def [symmetric] if_not_P [OF dh] dv bind.simps q by (simp only: if_False)
  qed
  moreover have "n div d \<le> n div (v * p)" "n div (v * p) \<le> n div d + 1"
  proof -
    have p0: "0 < p" by (simp add: p_def)
    have vp: "0 < v * p" "v * p \<le> d" using v0 p0 by simp (simp add: v_def)
    have "(n div d + 1) * (d - v * p) \<le> v * p"
      unfolding v_def by (rule estimate_bound [OF n nm(1,2) p_def nm(6) [unfolded v_def]])
    then show "n div d \<le> n div (v * p)" "n div (v * p) \<le> n div d + 1"
      using div_estimate [OF vp(2,1)] by simp_all
  qed
  moreover have "0 < d" using d(1) by (rule less_le_trans [rotated]) simp
  ultimately show ?thesis using udiv_correct [OF n _ nd] by (simp only: Let_def)
qed

lemma udiv64_ok:
  assumes "n < 2 ^ 64" "0 < d" "d < 2 ^ 64"
  shows "udiv64 n d = Some (n div d)"
proof (cases "d < 2 ^ 32")
  case True
  then show ?thesis using udiv64_small assms by blast
next
  case False
  then have d: "2 ^ 32 \<le> d" by (simp only: not_less)
  then have dh: "d div 2 ^ 32 \<noteq> 0" by (simp add: div_eq_0_iff)
  show ?thesis
  proof (cases "n < d")
    case True
    then have "udiv64 n d = Some 0" unfolding udiv64_def if_not_P [OF dh] by (simp only: if_True)
    then show ?thesis using True by (simp only: div_less)
  next
    case False
    then show ?thesis using udiv64_big [OF assms(1) d assms(3)] by (simp only: not_less)
  qed
qed

section \<open>Signed division\<close>

lemma abs64:
  assumes "- (2 ^ 63) \<le> x" "x < 2 ^ 63"
  shows "(if x \<ge> 0 then u64of x else u64of (- int (u64of x))) = nat \<bar>x\<bar>"
proof (cases "x \<ge> 0")
  case True
  then have "x mod 2 ^ 64 = x" using assms(2) by (intro mod_pos_pos_trivial) simp_all
  then show ?thesis using True by (simp add: u64of_def)
next
  case False
  have "int (u64of x) = x mod 2 ^ 64" by (simp add: u64of_def)
  then have "(- int (u64of x)) mod 2 ^ 64 = (- x) mod 2 ^ 64" by (simp add: mod_minus_eq)
  also have "\<dots> = - x" using False assms(1) by (intro mod_pos_pos_trivial) simp_all
  finally have "u64of (- int (u64of x)) = nat (- x)" by (simp add: u64of_def)
  then show ?thesis using False by simp
qed

lemma i64_id: "- (2 ^ 63) \<le> x \<Longrightarrow> x < 2 ^ 63 \<Longrightarrow> i64 x = x"
  by (simp add: i64_def)

lemma sdiv64_ok:
  assumes n: "- (2 ^ 63) \<le> n" "n < 2 ^ 63" and d: "- (2 ^ 63) \<le> d" "d < 2 ^ 63" "d \<noteq> 0"
  shows "sdiv64 n d = Some (i64 (cdiv n d))"
proof -
  define a b where ab: "a = nat \<bar>n\<bar>" "b = nat \<bar>d\<bar>"
  have sz: "a < 2 ^ 64" "0 < b" "b < 2 ^ 64" using n d by (simp_all add: ab)
  have q: "udiv64 a b = Some (a div b)" by (rule udiv64_ok [OF sz])
  have e: "int (a div b) = \<bar>n\<bar> div \<bar>d\<bar>" by (simp add: ab zdiv_int)
  have "sdiv64 n d = Some (if (n < 0) = (d < 0) then i64 (int (a div b)) else i64 (- i64 (int (a div b))))"
    unfolding sdiv64_def abs64 [OF n] abs64 [OF d(1,2)] Let_def ab [symmetric] q by simp
  moreover have "i64 (- i64 x) = i64 (- x)" for x
  proof -
    have "i64 x mod 2 ^ 64 = x mod 2 ^ 64" by (simp add: i64_def mod_diff_left_eq)
    then have "(- i64 x + 2 ^ 63) mod 2 ^ 64 = (- x + 2 ^ 63) mod 2 ^ 64" by (metis mod_add_left_eq mod_minus_eq)
    then show ?thesis by (simp add: i64_def)
  qed
  moreover have "cdiv n d = (if (n < 0) = (d < 0) then \<bar>n\<bar> div \<bar>d\<bar> else - (\<bar>n\<bar> div \<bar>d\<bar>))"
    using d(3) by (cases "n = 0") (auto simp: cdiv_def sgn_if)
  ultimately show ?thesis unfolding e by (simp split: if_splits)
qed

section \<open>Claims\<close>

text \<open>
  C39: The 64-bit division of the kernel is division: \<open>udiv64\<close> never traps for a non-zero
  divisor and returns the exact quotient, through the short and the long algorithm, and
  \<open>sdiv64\<close> returns the quotient truncated towards zero (wrapped for the one quotient that
  does not fit).
\<close>

theorem div64_correct:
  assumes "n < 2 ^ 64" "0 < d" "d < 2 ^ 64"
    and "- (2 ^ 63) \<le> x" "x < 2 ^ 63" "- (2 ^ 63) \<le> y" "y < 2 ^ 63" "y \<noteq> 0"
  shows "udiv64 n d = Some (n div d) \<and> sdiv64 x y = Some (i64 (cdiv x y))"
  using udiv64_ok [OF assms(1-3)] sdiv64_ok [OF assms(4-8)] by blast

theorem div64_correct_witness:
  "udiv64 0xFFFFFFFFFFFFFFFF 0x1FFFFFFFF = Some (0xFFFFFFFFFFFFFFFF div 0x1FFFFFFFF) \<and> sdiv64 (- 7) 2 = Some (i64 (- 3))"
proof -
  have "cdiv (- 7) 2 = - 3" by (simp add: cdiv_def)
  then show ?thesis using div64_correct [of "0xFFFFFFFFFFFFFFFF" "0x1FFFFFFFF" "- 7" 2] by simp
qed



end
