(* ===== verification/CString.thy ===== *)
theory CString
  imports Prelude
begin

text \<open>
  Memory blocks and strings, \<open>lib/string.c\<close>.  A pointer that is only read through is the
  list of bytes from there to the end of the object it points into, so running past the
  end of the object is the empty list and stops the model.  A function that returns a
  pointer into its argument returns the distance, and \<^term>\<open>None\<close> inside
  \<^term>\<open>Some\<close> for a null pointer.  A function that writes returns the new contents of
  the object.  \<open>memmove\<close>, whose arguments may overlap, and \<open>strtok_r\<close>, which keeps
  its position, work on positions in one object.
\<close>

section \<open>Blocks of memory\<close>

fun memcpy :: "byte list \<Rightarrow> byte list \<Rightarrow> nat \<Rightarrow> byte list option" where
  "memcpy dst src 0 = Some dst"
| "memcpy (d # dst) (x # src) (Suc n) = map_option (Cons x) (memcpy dst src n)"
| "memcpy dst src (Suc n) = None"

text \<open>The result is the new memory and the returned pointer.\<close>

definition move_byte :: "nat \<Rightarrow> nat \<Rightarrow> byte list \<Rightarrow> byte list option" where
  "move_byte dst src m = do { x \<leftarrow> arr_get m (int src); arr_set m (int dst) x }"

definition memmove :: "byte list \<Rightarrow> nat \<Rightarrow> nat \<Rightarrow> nat \<Rightarrow> (byte list \<times> nat) option" where
  "memmove m dst src n =
     (if dst < src then do {
        m \<leftarrow> mfold (\<lambda>i. move_byte (dst + i) (src + i)) [0..<n] m;
        Some (m, dst + n) }
      else do {
        m \<leftarrow> mfold (\<lambda>i. move_byte (dst + n - 1 - i) (src + n - 1 - i)) [0..<n] m;
        Some (m, dst) })"

fun memcmp :: "byte list \<Rightarrow> byte list \<Rightarrow> nat \<Rightarrow> int option" where
  "memcmp a b 0 = Some 0"
| "memcmp (x # a) (y # b) (Suc n) = (if x \<noteq> y then Some (if x > y then 1 else - 1) else memcmp a b n)"
| "memcmp a b (Suc n) = None"

fun memchr :: "byte list \<Rightarrow> byte \<Rightarrow> nat \<Rightarrow> nat option option" where
  "memchr s ch 0 = Some None"
| "memchr (x # s) ch (Suc n) = (if x = ch then Some (Some 0) else map_option (map_option Suc) (memchr s ch n))"
| "memchr [] ch (Suc n) = None"

fun memset :: "byte list \<Rightarrow> byte \<Rightarrow> nat \<Rightarrow> byte list option" where
  "memset dst x 0 = Some dst"
| "memset (d # dst) x (Suc n) = map_option (Cons x) (memset dst x n)"
| "memset [] x (Suc n) = None"

section \<open>Strings\<close>

fun strcmp :: "byte list \<Rightarrow> byte list \<Rightarrow> int option" where
  "strcmp (a # as) (b # bs) =
     (if a \<noteq> 0 \<and> a = b then strcmp as bs
      else Some (if a < b then - 1 else if a > b then 1 else 0))"
| "strcmp [] bs = None"
| "strcmp as [] = None"

fun strchr :: "byte list \<Rightarrow> byte \<Rightarrow> nat option option" where
  "strchr [] c = None"
| "strchr (x # s) c =
     (if x = c then Some (Some 0)
      else if x = 0 then Some None
      else map_option (map_option Suc) (strchr s c))"

fun strcspn :: "byte list \<Rightarrow> byte list \<Rightarrow> nat option" where
  "strcspn [] stop = None"
| "strcspn (x # s) stop =
     (if x \<noteq> 0 then do {
        r \<leftarrow> strchr stop x;
        if r \<noteq> None then Some 0 else map_option Suc (strcspn s stop) }
      else Some 0)"

fun strpbrk :: "byte list \<Rightarrow> byte list \<Rightarrow> nat option option" where
  "strpbrk [] stop = None"
| "strpbrk (x # s) stop =
     (if x \<noteq> 0 then do {
        r \<leftarrow> strchr stop x;
        if r \<noteq> None then Some (Some 0) else map_option (map_option Suc) (strpbrk s stop) }
      else Some None)"

text \<open>\<open>i\<close> is the position of the rest of the string, \<open>p\<close> the last match.\<close>

fun strrchr_loop :: "byte list \<Rightarrow> byte \<Rightarrow> nat \<Rightarrow> nat option \<Rightarrow> nat option option" where
  "strrchr_loop [] c i p = None"
| "strrchr_loop (x # s) c i p =
     (if x \<noteq> 0 then strrchr_loop s c (Suc i) (if x = c then Some i else p) else Some p)"

definition strrchr :: "byte list \<Rightarrow> byte \<Rightarrow> nat option option" where
  "strrchr s c = strrchr_loop s c 0 None"

fun strspn :: "byte list \<Rightarrow> byte list \<Rightarrow> nat option" where
  "strspn [] skip = None"
| "strspn (x # s) skip =
     (if x \<noteq> 0 then do {
        r \<leftarrow> strchr skip x;
        if r = None then Some 0 else map_option Suc (strspn s skip) }
      else Some 0)"

fun strlen :: "byte list \<Rightarrow> nat option" where
  "strlen [] = None"
| "strlen (x # s) = (if x \<noteq> 0 then map_option Suc (strlen s) else Some 0)"

fun strnlen :: "byte list \<Rightarrow> nat \<Rightarrow> nat option" where
  "strnlen [] maxlen = None"
| "strnlen (x # s) maxlen =
     (if x \<noteq> 0 \<and> maxlen > 0 then map_option Suc (strnlen s (maxlen - 1)) else Some 0)"

text \<open>The search of \<open>strstr\<close> over the \<open>k\<close> remaining positions.\<close>

fun strstr_loop :: "byte list \<Rightarrow> byte list \<Rightarrow> nat \<Rightarrow> nat \<Rightarrow> nat \<Rightarrow> nat option option" where
  "strstr_loop haystack needle needle_len i 0 = Some None"
| "strstr_loop haystack needle needle_len i (Suc k) = do {
     r \<leftarrow> memcmp (drop i haystack) needle needle_len;
     if r = 0 then Some (Some i) else strstr_loop haystack needle needle_len (Suc i) k }"

definition strstr :: "byte list \<Rightarrow> byte list \<Rightarrow> nat option option" where
  "strstr haystack needle = do {
     haystack_len \<leftarrow> strlen haystack;
     needle_len \<leftarrow> strlen needle;
     if haystack_len \<ge> needle_len
     then strstr_loop haystack needle needle_len 0 (haystack_len - needle_len + 1)
     else Some None }"

text \<open>The result is the returned length and the new contents of \<open>dst\<close>.\<close>

definition strlcpy :: "byte list \<Rightarrow> byte list \<Rightarrow> nat \<Rightarrow> (nat \<times> byte list) option" where
  "strlcpy dst src sz = do {
     src_len \<leftarrow> strlen src;
     if sz > 0 then do {
       let dst_len = (if src_len < sz - 1 then src_len else sz - 1);
       dst \<leftarrow> memcpy dst src dst_len;
       dst \<leftarrow> arr_set dst (int dst_len) 0;
       Some (src_len, dst) }
     else Some (src_len, dst) }"

definition strlcat :: "byte list \<Rightarrow> byte list \<Rightarrow> nat \<Rightarrow> (nat \<times> byte list) option" where
  "strlcat dst src sz = do {
     src_len \<leftarrow> strlen src;
     dst_len \<leftarrow> strlen dst;
     if sz > 0 \<and> dst_len < sz then do {
       let copy_cnt = (if src_len < sz - dst_len - 1 then src_len else sz - dst_len - 1);
       tail \<leftarrow> memcpy (drop dst_len dst) src copy_cnt;
       dst \<leftarrow> arr_set (take dst_len dst @ tail) (int (dst_len + copy_cnt)) 0;
       Some (src_len + dst_len, dst) }
     else Some (src_len + dst_len, dst) }"

section \<open>The tokenizer\<close>

text \<open>
  The loop that skips delimiters: how many, and whether a token follows; and the loop that
  runs to the end of the token.
\<close>

fun tok_skip :: "byte list \<Rightarrow> byte list \<Rightarrow> (nat \<times> bool) option" where
  "tok_skip delimiters [] = None"
| "tok_skip delimiters (x # s) = do {
     r \<leftarrow> strchr delimiters x;
     if r \<noteq> None then
       (if x = 0 then Some (0, False)
        else do { (k, b) \<leftarrow> tok_skip delimiters s; Some (Suc k, b) })
     else Some (0, True) }"

fun tok_span :: "byte list \<Rightarrow> byte list \<Rightarrow> nat option" where
  "tok_span delimiters [] = None"
| "tok_span delimiters (x # s) = do {
     r \<leftarrow> strchr delimiters x;
     if r = None then map_option Suc (tok_span delimiters s) else Some 0 }"

text \<open>
  \<open>buf\<close> is the object that is tokenized, \<open>s\<close> the position of the argument (\<^term>\<open>None\<close> for
  a null pointer) and \<open>save\<close> the saved position.  The result is the position of the token,
  if any, the new contents of the object, and the new saved position.
\<close>

definition strtok_r ::
    "byte list \<Rightarrow> nat option \<Rightarrow> byte list \<Rightarrow> nat \<Rightarrow> (nat option \<times> byte list \<times> nat) option" where
  "strtok_r buf s delimiters save = do {
     let s = (case s of None \<Rightarrow> save | Some p \<Rightarrow> p);
     (k, more) \<leftarrow> tok_skip delimiters (drop s buf);
     if \<not> more then Some (None, buf, s + k)
     else do {
       let token = s + k;
       n \<leftarrow> tok_span delimiters (drop token buf);
       let s = token + n;
       x \<leftarrow> arr_get buf (int s);
       if x \<noteq> 0 then do {
         buf \<leftarrow> arr_set buf (int s) 0;
         Some (Some token, buf, s + 1) }
       else Some (Some token, buf, s) } }"

section \<open>What the functions compute\<close>

text \<open>The characters of a string, and the objects that hold one.\<close>

definition cstr :: "byte list \<Rightarrow> byte list" where
  "cstr s = takeWhile (\<lambda>x. x \<noteq> 0) s"

definition terminated :: "byte list \<Rightarrow> bool" where
  "terminated s \<longleftrightarrow> 0 \<in> set s"

lemma terminated_simps [simp]:
  "\<not> terminated []" "terminated (x # s) \<longleftrightarrow> x = 0 \<or> terminated s"
  by (auto simp: terminated_def)

lemma cstr_simps [simp]:
  "cstr [] = []" "cstr (x # s) = (if x = 0 then [] else x # cstr s)"
  by (simp_all add: cstr_def)

lemma cstr_no_zero [simp]: "0 \<notin> set (cstr s)"
  by (auto simp: cstr_def dest: set_takeWhileD)

lemma cstr_append: "0 \<notin> set xs \<Longrightarrow> cstr (xs @ 0 # ys) = xs" "0 \<notin> set xs \<Longrightarrow> terminated (xs @ 0 # ys)"
  by (simp_all add: cstr_def terminated_def takeWhile_append)

lemma cstr_split: "terminated s \<Longrightarrow> \<exists>ys. s = cstr s @ 0 # ys"
  by (induction s) auto

lemma length_cstr: "terminated s \<Longrightarrow> length (cstr s) < length s"
  by (induction s) auto

lemma memcpy_eq: "n \<le> length dst \<Longrightarrow> n \<le> length src \<Longrightarrow> memcpy dst src n = Some (take n src @ drop n dst)"
  by (induction dst src n rule: memcpy.induct) auto

lemma memcpy_past: "n > length dst \<or> n > length src \<Longrightarrow> memcpy dst src n = None"
  by (induction dst src n rule: memcpy.induct) auto

lemma memset_eq: "n \<le> length dst \<Longrightarrow> memset dst x n = Some (replicate n x @ drop n dst)"
  by (induction dst x n rule: memset.induct) auto

lemma memcmp_zero: "n \<le> length a \<Longrightarrow> n \<le> length b \<Longrightarrow> \<exists>r. memcmp a b n = Some r \<and> (r = 0 \<longleftrightarrow> take n a = take n b)"
  by (induction a b n rule: memcmp.induct) auto

lemma strlen_eq: "terminated s \<Longrightarrow> strlen s = Some (length (cstr s))"
  by (induction s) auto

lemma strlen_past: "\<not> terminated s \<Longrightarrow> strlen s = None"
  by (induction s) auto

lemma strchr_eq:
  "terminated s \<Longrightarrow> \<exists>r. strchr s c = Some r \<and> (r = None \<longleftrightarrow> c \<noteq> 0 \<and> c \<notin> set (cstr s))"
  by (induction s) auto

lemma strcmp_eq:
  "terminated a \<Longrightarrow> terminated b \<Longrightarrow> \<exists>r. strcmp a b = Some r \<and> (r = 0 \<longleftrightarrow> cstr a = cstr b)"
  by (induction a b rule: strcmp.induct) auto

lemma strlcpy_eq:
  assumes "terminated src" "0 < sz" "sz \<le> length dst" "length (cstr src) < sz"
  shows "strlcpy dst src sz = Some (length (cstr src), cstr src @ 0 # drop (Suc (length (cstr src))) dst)"
proof -
  let ?n = "length (cstr src)"
  have "memcpy dst src ?n = Some (take ?n src @ drop ?n dst)"
    using assms length_cstr [OF assms(1)] by (intro memcpy_eq) auto
  moreover have "take ?n src = cstr src" by (metis cstr_split [OF assms(1)] append_eq_conv_conj)
  moreover have "drop ?n dst = dst ! ?n # drop (Suc ?n) dst" using assms by (simp add: Cons_nth_drop_Suc)
  moreover have "(if ?n < sz - 1 then ?n else sz - 1) = ?n" using assms by auto
  ultimately show ?thesis
    using assms(1-3) by (simp add: strlcpy_def strlen_eq arr_set_def list_update_append Let_def)
qed

section \<open>Overlapping moves\<close>

lemma move_byte_ok:
  "a < length m \<Longrightarrow> b < length m \<Longrightarrow> move_byte a b m = Some (m[a := m ! b])"
  by (simp add: move_byte_def arr_get_ok arr_set_ok)

text \<open>
  After \<open>i\<close> rounds the first (going up) or the last (going down) \<open>i\<close> bytes are in place, and
  the bytes still to be read have not been overwritten.
\<close>

lemma memmove_up:
  assumes "dst < src" "src + n \<le> length m"
  shows "mfold (\<lambda>i. move_byte (dst + i) (src + i)) [0..<n] m = Some (buf_put dst (buf_get src n m) m)"
proof -
  let ?I = "\<lambda>i m'. length m' = length m \<and> (\<forall>j < length m. m' ! j =
    (if dst \<le> j \<and> j < dst + i then m ! (src + (j - dst)) else m ! j))"
  have "\<exists>m'. mfold (\<lambda>i. move_byte (dst + i) (src + i)) [0..<n] m = Some m' \<and> ?I n m'"
  proof (rule mfold_range [where I = ?I])
    fix i m'
    assume i: "i < n" and I: "?I i m'"
    then show "\<exists>m''. move_byte (dst + i) (src + i) m' = Some m'' \<and> ?I (Suc i) m''"
      using assms by (auto simp: move_byte_ok nth_list_update)
  qed auto
  then obtain m' where m': "mfold (\<lambda>i. move_byte (dst + i) (src + i)) [0..<n] m = Some m'" "?I n m'"
    by blast
  have "m' = buf_put dst (buf_get src n m) m"
    using m'(2) assms by (intro nth_equalityI) (auto simp: nth_buf_put)
  with m'(1) show ?thesis by simp
qed

lemma memmove_down:
  assumes "src \<le> dst" "dst + n \<le> length m"
  shows "mfold (\<lambda>i. move_byte (dst + n - 1 - i) (src + n - 1 - i)) [0..<n] m =
    Some (buf_put dst (buf_get src n m) m)"
proof -
  let ?f = "\<lambda>i. move_byte (dst + n - 1 - i) (src + n - 1 - i)"
  let ?I = "\<lambda>i m'. length m' = length m \<and> (\<forall>j < length m. m' ! j =
    (if dst + n \<le> j + i \<and> j < dst + n then m ! (src + (j - dst)) else m ! j))"
  have "\<exists>m'. mfold ?f [0..<n] m = Some m' \<and> ?I n m'"
  proof (rule mfold_range [where I = ?I])
    fix i m'
    assume i: "i < n" and I: "?I i m'"
    have r: "m' ! (src + n - 1 - i) = m ! (src + n - 1 - i)" using i I assms by auto
    have "?f i m' = Some (m'[dst + n - 1 - i := m ! (src + n - 1 - i)])"
      using i I assms r by (simp add: move_byte_ok)
    moreover have "?I (Suc i) (m'[dst + n - 1 - i := m ! (src + n - 1 - i)])"
    proof (intro conjI allI impI)
      fix j
      assume j: "j < length m"
      show "m'[dst + n - 1 - i := m ! (src + n - 1 - i)] ! j =
        (if dst + n \<le> j + Suc i \<and> j < dst + n then m ! (src + (j - dst)) else m ! j)"
      proof (cases "j = dst + n - 1 - i")
        case True
        then have "src + (j - dst) = src + n - 1 - i" using i by simp
        then show ?thesis using True i j I by simp
      next
        case False
        then have "dst + n \<le> j + Suc i \<longleftrightarrow> dst + n \<le> j + i" using i by auto
        then show ?thesis using False j I by simp
      qed
    qed (use I in simp)
    ultimately show "\<exists>m''. ?f i m' = Some m'' \<and> ?I (Suc i) m''" by blast
  qed auto
  then obtain m' where m': "mfold ?f [0..<n] m = Some m'" "?I n m'" by blast
  have "m' = buf_put dst (buf_get src n m) m"
    using m'(2) assms by (intro nth_equalityI) (auto simp: nth_buf_put)
  with m'(1) show ?thesis by simp
qed

section \<open>Tokens\<close>

lemma tok_skip_eq:
  assumes "terminated delims" "terminated s"
  shows "tok_skip delims s = Some (length (takeWhile (\<lambda>x. x \<in> set (cstr delims)) (cstr s)),
    dropWhile (\<lambda>x. x \<in> set (cstr delims)) (cstr s) \<noteq> [])"
  using assms(2)
proof (induction s)
  case (Cons x s)
  obtain r where "strchr delims x = Some r" "r = None \<longleftrightarrow> x \<noteq> 0 \<and> x \<notin> set (cstr delims)"
    using strchr_eq [OF assms(1)] by blast
  with Cons show ?case by auto
qed simp

lemma tok_span_eq:
  assumes "terminated delims" "terminated s"
  shows "tok_span delims s = Some (length (takeWhile (\<lambda>x. x \<notin> set (cstr delims)) (cstr s)))"
  using assms(2)
proof (induction s)
  case (Cons x s)
  obtain r where "strchr delims x = Some r" "r = None \<longleftrightarrow> x \<noteq> 0 \<and> x \<notin> set (cstr delims)"
    using strchr_eq [OF assms(1)] by blast
  with Cons show ?case by auto
qed simp

text \<open>The words of a string over a set of delimiters.\<close>

function words :: "byte set \<Rightarrow> byte list \<Rightarrow> byte list list" where
  "words D s = (let y = dropWhile (\<lambda>x. x \<in> D) s in
     if y = [] then [] else takeWhile (\<lambda>x. x \<notin> D) y # words D (dropWhile (\<lambda>x. x \<notin> D) y))"
  by pat_completeness auto
termination
proof (relation "measure (\<lambda>(D, s). length s)")
  fix D :: "byte set" and s y :: "byte list"
  assume y: "y = dropWhile (\<lambda>x. x \<in> D) s" "y \<noteq> []"
  obtain c cs where c: "y = c # cs" using y(2) by (cases y) auto
  then have "c \<notin> D" using hd_dropWhile [of "\<lambda>x. x \<in> D" s] y(1) by simp
  then have "length (dropWhile (\<lambda>x. x \<notin> D) y) < length y"
    using c by (simp add: le_imp_less_Suc length_dropWhile_le)
  also have "length y \<le> length s" using y(1) by (simp add: length_dropWhile_le)
  finally show "((D, dropWhile (\<lambda>x. x \<notin> D) y), (D, s)) \<in> measure (\<lambda>(D, s). length s)" by simp
qed simp

declare words.simps [simp del]

lemma words_Nil [simp]: "words D [] = []"
  by (simp add: words.simps)

lemma words_skip: "x \<in> D \<Longrightarrow> words D (x # s) = words D s"
  by (subst (1 2) words.simps) simp

lemma words_none: "dropWhile (\<lambda>x. x \<in> D) s = [] \<Longrightarrow> words D s = []"
  by (simp add: words.simps)

lemma words_some:
  assumes "dropWhile (\<lambda>x. x \<in> D) s = y" "y \<noteq> []"
  shows "words D s = takeWhile (\<lambda>x. x \<notin> D) y # words D (tl (dropWhile (\<lambda>x. x \<notin> D) y))"
proof -
  have "words D (dropWhile (\<lambda>x. x \<notin> D) y) = words D (tl (dropWhile (\<lambda>x. x \<notin> D) y))"
  proof (cases "dropWhile (\<lambda>x. x \<notin> D) y")
    case Nil
    then show ?thesis by (simp only: list.sel)
  next
    case (Cons c cs)
    then have "c \<in> D" using hd_dropWhile [of "\<lambda>x. x \<notin> D" y] by simp
    with Cons show ?thesis by (simp only: words_skip list.sel)
  qed
  with assms show ?thesis by (subst words.simps) (simp add: Let_def)
qed

text \<open>
  One call of \<open>strtok_r\<close>: it finds the next word, ends it with a null byte, changes no
  other byte, and leaves the position at the rest of the string.
\<close>

lemma strtok_r_none:
  assumes "terminated delims" "terminated (drop p buf)" "p = (case s of None \<Rightarrow> save | Some p \<Rightarrow> p)"
    and "dropWhile (\<lambda>x. x \<in> set (cstr delims)) (cstr (drop p buf)) = []"
  shows "\<exists>e. strtok_r buf s delims save = Some (None, buf, e)"
  using assms tok_skip_eq [OF assms(1,2)] by (simp add: strtok_r_def Let_def)

lemma strtok_r_some:
  fixes delims defines "D \<equiv> set (cstr delims)"
  assumes d: "terminated delims" and tm: "terminated (drop p buf)"
    and p: "p = (case s of None \<Rightarrow> save | Some p \<Rightarrow> p)"
    and y: "dropWhile (\<lambda>x. x \<in> D) (cstr (drop p buf)) = y" "y \<noteq> []"
  obtains t e buf' where "strtok_r buf s delims save = Some (Some t, buf', e)"
    "p \<le> t" "t < e" "length buf' = length buf"
    "cstr (drop t buf') = takeWhile (\<lambda>x. x \<notin> D) y" "t + length (takeWhile (\<lambda>x. x \<notin> D) y) \<le> e"
    "buf' = buf[t + length (takeWhile (\<lambda>x. x \<notin> D) y) := 0]"
    "t + length (takeWhile (\<lambda>x. x \<notin> D) y) < length buf"
    "terminated (drop e buf')" "cstr (drop e buf') = tl (dropWhile (\<lambda>x. x \<notin> D) y)"
proof -
  define rest where "rest = cstr (drop p buf)"
  define a where "a = takeWhile (\<lambda>x. x \<in> D) rest"
  define w where "w = takeWhile (\<lambda>x. x \<notin> D) y"
  define z where "z = dropWhile (\<lambda>x. x \<notin> D) y"
  have rest: "rest = a @ w @ z" using y(1) by (simp add: a_def w_def z_def rest_def flip: y(1))
  obtain ys where ys: "drop p buf = a @ w @ z @ 0 # ys"
    using cstr_split [OF tm] rest by (auto simp: rest_def)
  have "0 \<notin> set rest" unfolding rest_def by (rule cstr_no_zero)
  then have nz: "0 \<notin> set a" "0 \<notin> set w" "0 \<notin> set z" unfolding rest by simp_all
  have "p < length buf" using ys by (metis drop_all length_Cons list.size(3) not_le_imp_less append_is_Nil_conv list.distinct(1))
  then have lp: "length (take p buf) = p" by simp
  have buf: "buf = take p buf @ a @ w @ z @ 0 # ys" using ys by (metis append_take_drop_id)
  have "hd y \<notin> D" using hd_dropWhile [of "\<lambda>x. x \<in> D" rest] y by (simp add: rest_def)
  then have w0: "w \<noteq> []" using y(2) by (cases y) (simp_all add: w_def)
  let ?t = "p + length a"
  have "drop ?t buf = drop (length a) (drop p buf)" by (simp add: add.commute)
  then have dt: "drop ?t buf = w @ z @ 0 # ys" using ys by simp
  have skip: "tok_skip delims (drop p buf) = Some (length a, True)"
    using tok_skip_eq [OF d tm] y by (simp add: a_def rest_def D_def del: dropWhile_eq_Nil_conv)
  have "cstr (drop ?t buf) = w @ z" using dt nz cstr_append(1) [of "w @ z" ys] by simp
  moreover have "takeWhile (\<lambda>x. x \<notin> D) (w @ z) = w" by (simp add: w_def z_def)
  moreover have "terminated (drop ?t buf)" using dt by (simp add: terminated_def)
  ultimately have span: "tok_span delims (drop ?t buf) = Some (length w)"
    using tok_span_eq [OF d] by (simp add: D_def)
  have lb: "?t + length w < length buf" and at: "buf ! (?t + length w) = hd (z @ [0])"
    using arg_cong [OF buf, of length] arg_cong [OF buf, of "\<lambda>l. l ! (?t + length w)"] lp
    by (simp_all add: nth_append) (cases z; simp)
  define buf' where "buf' = buf[?t + length w := 0]"
  define e where "e = (if z = [] then ?t + length w else Suc (?t + length w))"
  have run: "strtok_r buf s delims save = Some (Some ?t, buf', e)"
  proof -
    have "arr_get buf (int (?t + length w)) = Some (hd (z @ [0]))"
      "arr_set buf (int (?t + length w)) 0 = Some buf'"
      using lb at by (simp_all only: arr_get_ok arr_set_ok buf'_def)
    moreover have "buf' = buf" if "z = []"
      using that at list_update_id [of buf "?t + length w"] by (simp add: buf'_def)
    ultimately show ?thesis
      using p [symmetric] skip span nz(3) by (cases z) (auto simp: strtok_r_def e_def Let_def)
  qed
  have buf': "buf' = take p buf @ a @ w @ 0 # tl (z @ 0 # ys)"
    using lp unfolding buf'_def by (subst buf) (cases z; simp add: list_update_append)
  have "drop ?t buf' = w @ 0 # tl (z @ 0 # ys)" using buf' lp by simp
  then have c1: "cstr (drop ?t buf') = w" using nz(2) cstr_append(1) by simp
  have "drop e buf' = tl z @ 0 # ys"
    using buf' lp by (cases z) (simp_all add: e_def)
  then have c2: "cstr (drop e buf') = tl z" "terminated (drop e buf')"
    using nz(3) cstr_append [of "tl z" ys] by (metis list.set_sel(2) tl_Nil)+
  have "?t < e" "?t + length w \<le> e" using w0 by (cases w; simp add: e_def)+
  with run c1 c2 lb that [of ?t buf' e] show ?thesis by (simp add: buf'_def w_def z_def)
qed

section \<open>Claims\<close>

text \<open>
  C23: \<open>memmove\<close> is correct for overlapping blocks: wherever the two blocks lie in the
  object, the destination receives the old contents of the source and nothing else
  changes.  The returned pointer is the destination when the blocks are copied downwards,
  but the end of the destination when they are copied upwards.
\<close>

theorem memmove_overlap:
  assumes "dst + n \<le> length m" "src + n \<le> length m"
  shows "memmove m dst src n =
    Some (buf_put dst (buf_get src n m) m, if dst < src then dst + n else dst)"
  using assms memmove_up [of dst src n m] memmove_down [of src dst n m]
  by (simp add: memmove_def not_less)

theorem memmove_overlap_witness:
  "memmove [1, 2, 3, 4, 5] 1 0 3 = Some ([1, 1, 2, 3, 5], 1) \<and>
   memmove [1, 2, 3, 4, 5] 0 1 3 = Some ([2, 3, 4, 4, 5], 3)"
  using memmove_overlap [of 1 3 "[1, 2, 3, 4, 5]" 0] memmove_overlap [of 0 3 "[1, 2, 3, 4, 5]" 1]
  by (simp add: buf_put_def buf_get_def)

text \<open>
  \<open>strlcpy\<close> never writes outside the first \<open>size\<close> bytes of its destination, leaves a
  terminated string there that is the longest prefix of the source that fits, and returns
  the length of the source.
\<close>

theorem strlcpy_bounds:
  assumes "terminated src" "0 < sz" "sz \<le> length dst"
  shows "\<exists>dst'. strlcpy dst src sz = Some (length (cstr src), dst') \<and> length dst' = length dst \<and>
    drop sz dst' = drop sz dst \<and> terminated (take sz dst') \<and> cstr dst' = take (sz - 1) (cstr src)"
proof -
  define n where "n = min (length (cstr src)) (sz - 1)"
  have n: "(if length (cstr src) < sz - 1 then length (cstr src) else sz - 1) = n" "n < sz" "n \<le> length src"
    using assms length_cstr [OF assms(1)] by (auto simp: n_def)
  obtain ys where "src = cstr src @ 0 # ys" using cstr_split [OF assms(1)] by blast
  then have "take n src = take n (cstr src)" by (metis n_def min.cobounded1 take_append diff_is_0_eq take_0 append_Nil2)
  then have tk: "take n src = take (sz - 1) (cstr src)" by (simp add: n_def min_def)
  have m: "memcpy dst src n = Some (take n src @ drop n dst)" using assms n by (intro memcpy_eq) auto
  have d: "drop n dst = dst ! n # drop (Suc n) dst" using assms n by (simp add: Cons_nth_drop_Suc)
  define dst' where "dst' = take n src @ 0 # drop (Suc n) dst"
  have run: "strlcpy dst src sz = Some (length (cstr src), dst')"
    using assms n m d by (simp add: strlcpy_def strlen_eq Let_def arr_set_def list_update_append dst'_def)
  have "0 \<notin> set (take n src)" unfolding tk by (meson cstr_no_zero in_set_takeD)
  then have "cstr dst' = take (sz - 1) (cstr src)" using cstr_append(1) tk by (simp add: dst'_def)
  moreover have "length dst' = length dst" "drop sz dst' = drop sz dst" "terminated (take sz dst')"
    using assms n by (simp_all add: dst'_def drop_Cons' take_Cons' terminated_def)
  ultimately show ?thesis using run by blast
qed

theorem strlcpy_bounds_witness:
  "\<exists>dst'. strlcpy [9, 9, 9, 9] [1, 2, 3, 4, 0] 3 = Some (4, dst') \<and> drop 3 dst' = [9] \<and> cstr dst' = [1, 2]"
  using strlcpy_bounds [of "[1, 2, 3, 4, 0]" 3 "[9, 9, 9, 9]"] by auto

end
