(* ===== verification/Vaddr.thy ===== *)
theory Vaddr
  imports Prelude
begin

text \<open>
  Virtual addresses and page-table entries, \<open>threads/vaddr.h\<close> and \<open>threads/pte.h\<close>.  An
  address is a number below \<open>2^32\<close>, a page-table entry a 32-bit word.
\<close>

section \<open>Virtual addresses\<close>

definition PGBITS :: nat where "PGBITS = 12"

definition PGSIZE :: nat where "PGSIZE = 4096"

definition PHYS_BASE :: nat where "PHYS_BASE = 0xc0000000"

definition BITMASK :: "nat \<Rightarrow> nat \<Rightarrow> nat" where
  "BITMASK shift cnt = szt (push_bit shift (push_bit cnt 1 - 1))"

definition PGMASK :: nat where "PGMASK = BITMASK 0 PGBITS"

text \<open>\<open>~PGMASK\<close> at 32 bits.\<close>

definition NOT_PGMASK :: nat where "NOT_PGMASK = 2 ^ 32 - 1 - PGMASK"

definition pg_ofs :: "nat \<Rightarrow> nat" where
  "pg_ofs va = va AND PGMASK"

definition pg_no :: "nat \<Rightarrow> nat" where
  "pg_no va = drop_bit PGBITS va"

definition pg_round_up :: "nat \<Rightarrow> nat" where
  "pg_round_up va = szt (va + PGSIZE - 1) AND NOT_PGMASK"

definition pg_round_down :: "nat \<Rightarrow> nat" where
  "pg_round_down va = va AND NOT_PGMASK"

definition is_user_vaddr :: "nat \<Rightarrow> bool" where
  "is_user_vaddr va \<longleftrightarrow> va < PHYS_BASE"

definition is_kernel_vaddr :: "nat \<Rightarrow> bool" where
  "is_kernel_vaddr va \<longleftrightarrow> va \<ge> PHYS_BASE"

definition ptov :: "nat \<Rightarrow> nat option" where
  "ptov paddr = do { kassert (paddr < PHYS_BASE); Some (szt (paddr + PHYS_BASE)) }"

definition vtop :: "nat \<Rightarrow> nat option" where
  "vtop va = do { kassert (is_kernel_vaddr va); Some (va - PHYS_BASE) }"

section \<open>Page tables\<close>

definition PTSHIFT :: nat where "PTSHIFT = PGBITS"

definition PTBITS :: nat where "PTBITS = 10"

definition PTMASK :: nat where "PTMASK = BITMASK PTSHIFT PTBITS"

definition PDSHIFT :: nat where "PDSHIFT = PTSHIFT + PTBITS"

definition pt_no :: "nat \<Rightarrow> nat" where
  "pt_no va = drop_bit PTSHIFT (va AND PTMASK)"

definition pd_no :: "nat \<Rightarrow> nat" where
  "pd_no va = drop_bit PDSHIFT va"

definition PTE_ADDR :: u32 where "PTE_ADDR = 0xfffff000"

definition PTE_P :: u32 where "PTE_P = 0x1"

definition PTE_W :: u32 where "PTE_W = 0x2"

definition PTE_U :: u32 where "PTE_U = 0x4"

definition PTE_A :: u32 where "PTE_A = 0x20"

definition PTE_D :: u32 where "PTE_D = 0x40"

definition pde_create :: "nat \<Rightarrow> u32 option" where
  "pde_create pt = do {
     kassert (pg_ofs pt = 0);
     p \<leftarrow> vtop pt;
     Some (of_nat p OR PTE_U OR PTE_P OR PTE_W) }"

definition pde_get_pt :: "u32 \<Rightarrow> nat option" where
  "pde_get_pt pde = do {
     kassert (pde AND PTE_P \<noteq> 0);
     ptov (unat (pde AND PTE_ADDR)) }"

definition pte_create_kernel :: "nat \<Rightarrow> bool \<Rightarrow> u32 option" where
  "pte_create_kernel page writable = do {
     kassert (pg_ofs page = 0);
     p \<leftarrow> vtop page;
     Some (of_nat p OR PTE_P OR (if writable then PTE_W else 0)) }"

definition pte_create_user :: "nat \<Rightarrow> bool \<Rightarrow> u32 option" where
  "pte_create_user page writable = do {
     e \<leftarrow> pte_create_kernel page writable;
     Some (e OR PTE_U) }"

definition pte_get_page :: "u32 \<Rightarrow> nat option" where
  "pte_get_page pte = ptov (unat (pte AND PTE_ADDR))"

section \<open>Arithmetic of the masks\<close>

lemma PGMASK_eq: "PGMASK = mask 12"
  by (simp add: PGMASK_def BITMASK_def PGBITS_def szt_def mask_eq_exp_minus_1)

lemma pg_ofs_mod: "pg_ofs va = va mod 4096"
  by (simp add: pg_ofs_def PGMASK_eq flip: take_bit_eq_mask) (simp add: take_bit_eq_mod)

lemma pg_no_div: "pg_no va = va div 4096"
  by (simp add: pg_no_def PGBITS_def drop_bit_eq_div)

lemma NOT_PGMASK_eq: "NOT_PGMASK = push_bit 12 (mask 20)"
  by (simp add: NOT_PGMASK_def PGMASK_eq mask_eq_exp_minus_1 push_bit_eq_mult)

lemma pg_round_down_div:
  assumes "va < 2 ^ 32"
  shows "pg_round_down va = va div 4096 * 4096"
proof -
  have "va AND push_bit 12 (mask 20) = push_bit 12 (take_bit 20 (drop_bit 12 va))"
    by (rule bit_eqI) (auto simp: bit_simps possible_bit_nat)
  also have "take_bit 20 (drop_bit 12 va) = va div 4096"
    using assms by (simp add: drop_bit_eq_div take_bit_nat_eq_self_iff less_mult_imp_div_less)
  finally show ?thesis by (simp add: pg_round_down_def NOT_PGMASK_eq push_bit_eq_mult mult.commute)
qed

lemma pg_round_up_div: "va + 4095 < 2 ^ 32 \<Longrightarrow> pg_round_up va = (va + 4095) div 4096 * 4096"
  using pg_round_down_div [of "va + 4095"] by (simp add: pg_round_up_def pg_round_down_def PGSIZE_def szt_def add.commute)

lemma pd_no_div: "pd_no va = va div 2 ^ 22"
  by (simp add: pd_no_def PDSHIFT_def PTSHIFT_def PGBITS_def PTBITS_def drop_bit_eq_div)

lemma pt_no_div: "pt_no va = va div 4096 mod 1024"
proof -
  have m: "PTMASK = push_bit 12 (mask 10)"
    by (simp add: PTMASK_def BITMASK_def PTSHIFT_def PTBITS_def PGBITS_def szt_def mask_eq_exp_minus_1 push_bit_eq_mult)
  have "drop_bit 12 (va AND push_bit 12 (mask 10)) = take_bit 10 (drop_bit 12 va)"
    by (rule bit_eqI) (auto simp: bit_simps possible_bit_nat)
  then show ?thesis by (simp add: pt_no_def m PTSHIFT_def PGBITS_def take_bit_eq_mod drop_bit_eq_div)
qed

text \<open>An address is determined by its directory index, table index and offset.\<close>

lemma vaddr_split: "va = pd_no va * 2 ^ 22 + pt_no va * 4096 + pg_ofs va"
proof -
  define q where "q = va div 4096"
  have "q div 1024 = pd_no va" by (simp add: q_def pd_no_div div_mult2_eq [symmetric])
  then have "q = pd_no va * 1024 + q mod 1024" using div_mult_mod_eq [of q 1024] by simp
  then have "q * 4096 + va mod 4096 = pd_no va * 2 ^ 22 + q mod 1024 * 4096 + va mod 4096"
    by (simp add: algebra_simps)
  moreover have "q * 4096 + va mod 4096 = va" by (simp add: q_def)
  ultimately show ?thesis unfolding pt_no_div pg_ofs_mod q_def [symmetric] by simp
qed

lemma same_page: "pd_no a = pd_no b \<and> pt_no a = pt_no b \<longleftrightarrow> a div 4096 = b div 4096"
proof -
  have "pd_no x = x div 4096 div 1024" for x by (simp add: pd_no_div div_mult2_eq [symmetric])
  then show ?thesis unfolding pt_no_div by (metis div_mult_mod_eq)
qed

lemma pt_no_less: "pt_no va < 1024"
  by (simp add: pt_no_div)

lemma pd_no_user: "is_user_vaddr va \<Longrightarrow> pd_no va < 768"
  by (simp add: is_user_vaddr_def PHYS_BASE_def pd_no_div less_mult_imp_div_less)

section \<open>Entries\<close>

lemma PTE_ADDR_eq: "PTE_ADDR = push_bit 12 (mask 20)"
  by (simp add: PTE_ADDR_def mask_eq_exp_minus_1)

lemma word_page_eq:
  assumes "p mod 4096 = 0" "p < 2 ^ 32"
  shows "(of_nat p :: u32) = push_bit 12 (of_nat (p div 4096))"
proof -
  have "p = p div 4096 * 4096" using assms(1) by (metis add.right_neutral div_mult_mod_eq)
  then have "(of_nat p :: u32) = of_nat (p div 4096 * 4096)" by simp
  then show ?thesis by (simp add: push_bit_eq_mult)
qed

text \<open>The flags of an entry do not disturb its address, nor the address the flags.\<close>

lemma entry_bits:
  fixes f :: u32
  assumes "p mod 4096 = 0" "p < 2 ^ 32" "f AND mask 12 = f"
  shows "(of_nat p OR f) AND PTE_ADDR = of_nat p"
    "g AND mask 12 = g \<Longrightarrow> (of_nat p OR f) AND g = f AND g"
proof -
  let ?w = "of_nat (p div 4096) :: u32"
  have f: "bit f n \<Longrightarrow> n < 12" for n using assms(3) by (metis bit_and_iff bit_mask_iff)
  have w: "of_nat p = push_bit 12 ?w" by (rule word_page_eq [OF assms(1,2)])
  show "(of_nat p OR f) AND PTE_ADDR = of_nat p"
    unfolding w PTE_ADDR_eq by (rule bit_word_eqI) (auto simp: bit_simps dest: f)
  assume "g AND mask 12 = g"
  then have g: "bit g n \<Longrightarrow> n < 12" for n by (metis bit_and_iff bit_mask_iff)
  show "(of_nat p OR f) AND g = f AND g"
    unfolding w by (rule bit_word_eqI) (auto simp: bit_simps dest: g)
qed

end
