(* ===== verification/Threads.thy ===== *)
theory Threads
  imports CString Vaddr
begin

text \<open>
  Kernel threads, \<open>threads/thread.c\<close>, with the interrupt level of \<open>threads/interrupt.c\<close> and
  the tick counter of \<open>devices/timer.c\<close>.

  A thread is the address of its page.  The run queue and the list of all threads are
  sequences of threads; that linked lists behave as sequences is shown in \<open>List_Sort\<close>.
  What a suspended thread still has to execute inside the kernel is its control stack, a
  list of \<open>call\<close>s: \<open>switch_threads\<close> leaves the stack of the old thread as it is and goes on
  with that of the new one.
\<close>

section \<open>State\<close>

datatype thread_status = THREAD_RUNNING | THREAD_READY | THREAD_BLOCKED | THREAD_DYING

record thread =
  t_tid :: int
  t_status :: thread_status
  t_name :: "byte list"
  t_stack :: nat
  t_priority :: int
  t_wait_status :: nat
  t_children :: "nat list"
  t_pagedir :: nat
  t_magic :: u32

record semaphore =
  s_value :: nat
  s_waiters :: "nat list"

record wait_status =
  ws_ref_cnt :: int
  ws_tid :: int
  ws_exit_code :: int
  ws_load_code :: int

text \<open>
  Calls into the kernel, and the points inside a kernel function at which a thread goes on
  after it was suspended or interrupted.
\<close>

datatype call =
    Sema_init nat nat | Sema_down nat | Sema_retry nat bool | Sema_try_down nat | Sema_up nat
  | Lock_init nat | Lock_acquire nat | Lock_owned nat | Lock_try_acquire nat | Lock_release nat
  | Cond_init nat | Cond_wait nat nat nat | Cond_signal nat nat | Cond_broadcast nat nat
  | Thread_yield | Set_level bool | Iret
  | Kernel_thread | Thread_exit | Thread_die
  | Thread_create nat "byte list" int "call list" | Next_tid nat | Create_finish nat "call list"
  | Thread_start nat nat | Idle nat | Idle_loop | Idle_halt
  | Timer_sleep int | Sleep_loop int int
  | Process_execute nat "byte list" bool | Exec_wait | Start_process bool
  | Process_wait int | Wait_reap nat | Exit_code int
  | Exit_children "nat list" | Exit_reap nat | Exit_own | Ref_dec nat | Exit_signal nat | Exit_vm

record kst =
  threads :: "nat \<rightharpoonup> thread"
  running :: nat
  frames :: "nat \<Rightarrow> call list"
  ready_list :: "nat list"
  all_list :: "nat list"
  idle_thread :: nat
  initial_thread :: nat
  next_tid :: int
  idle_ticks :: int
  kernel_ticks :: int
  user_ticks :: int
  thread_ticks :: nat
  ticks :: int
  intr_on :: bool
  in_external_intr :: bool
  yield_on_return :: bool
  semas :: "nat \<rightharpoonup> semaphore"
  holder :: "nat \<rightharpoonup> nat"
  conds :: "nat \<rightharpoonup> nat list"
  wstats :: "nat \<rightharpoonup> wait_status"
  active_pagedir :: nat
  esp0 :: nat
  eax :: "nat \<Rightarrow> int"

definition THREAD_MAGIC :: u32 where "THREAD_MAGIC = 0xcd6abf4b"

definition TIME_SLICE :: nat where "TIME_SLICE = 4"

definition TID_ERROR :: int where "TID_ERROR = - 1"

definition PRI_MIN :: int where "PRI_MIN = 0"

definition PRI_DEFAULT :: int where "PRI_DEFAULT = 31"

definition PRI_MAX :: int where "PRI_MAX = 63"

text \<open>The address of the lock that protects \<open>next_tid\<close>.\<close>

definition tid_lock :: nat where "tid_lock = 0xc0001000"

text \<open>Pushing calls on the control stack of the running thread.\<close>

definition push_calls :: "call list \<Rightarrow> kst \<Rightarrow> kst" where
  "push_calls cs k = k\<lparr>frames := (frames k)(running k := cs @ frames k (running k))\<rparr>"

text \<open>The value a call returns to the running thread.\<close>

definition set_eax :: "int \<Rightarrow> kst \<Rightarrow> kst" where
  "set_eax v k = k\<lparr>eax := (eax k)(running k := v)\<rparr>"

definition upd_thread :: "nat \<Rightarrow> (thread \<Rightarrow> thread) \<Rightarrow> kst \<Rightarrow> kst" where
  "upd_thread t f k = k\<lparr>threads := (threads k)(t := map_option f (threads k t))\<rparr>"

section \<open>Interrupt level\<close>

definition intr_get_level :: "kst \<Rightarrow> bool" where
  "intr_get_level k = intr_on k"

definition intr_context :: "kst \<Rightarrow> bool" where
  "intr_context k = in_external_intr k"

definition intr_enable :: "kst \<Rightarrow> (bool \<times> kst) option" where
  "intr_enable k = do {
     let old_level = intr_get_level k;
     kassert (\<not> intr_context k);
     Some (old_level, k\<lparr>intr_on := True\<rparr>) }"

definition intr_disable :: "kst \<Rightarrow> bool \<times> kst" where
  "intr_disable k = (intr_get_level k, k\<lparr>intr_on := False\<rparr>)"

definition intr_set_level :: "bool \<Rightarrow> kst \<Rightarrow> (bool \<times> kst) option" where
  "intr_set_level level k = (if level then intr_enable k else Some (intr_disable k))"

definition intr_yield_on_return :: "kst \<Rightarrow> kst option" where
  "intr_yield_on_return k = do {
     kassert (intr_context k);
     Some (k\<lparr>yield_on_return := True\<rparr>) }"

section \<open>Threads\<close>

definition is_thread :: "nat \<Rightarrow> kst \<Rightarrow> bool" where
  "is_thread t k \<longleftrightarrow> t \<noteq> 0 \<and> (case threads k t of None \<Rightarrow> False | Some th \<Rightarrow> t_magic th = THREAD_MAGIC)"

definition running_thread :: "kst \<Rightarrow> nat" where
  "running_thread k = running k"

definition thread_current :: "kst \<Rightarrow> nat option" where
  "thread_current k = do {
     let t = running_thread k;
     kassert (is_thread t k);
     th \<leftarrow> threads k t;
     kassert (t_status th = THREAD_RUNNING);
     Some t }"

definition set_status :: "nat \<Rightarrow> thread_status \<Rightarrow> kst \<Rightarrow> kst" where
  "set_status t s = upd_thread t (\<lambda>th. th\<lparr>t_status := s\<rparr>)"

definition next_thread_to_run :: "kst \<Rightarrow> nat \<times> kst" where
  "next_thread_to_run k = (case ready_list k of
       [] \<Rightarrow> (idle_thread k, k)
     | t # ts \<Rightarrow> (t, k\<lparr>ready_list := ts\<rparr>))"

text \<open>\<open>process_activate\<close> loads the page directory and the kernel stack of the thread.\<close>

definition process_activate :: "kst \<Rightarrow> kst option" where
  "process_activate k = do {
     t \<leftarrow> thread_current k;
     th \<leftarrow> threads k t;
     Some (k\<lparr>active_pagedir := t_pagedir th, esp0 := t + PGSIZE\<rparr>) }"

definition thread_schedule_tail :: "nat \<Rightarrow> kst \<Rightarrow> kst option" where
  "thread_schedule_tail prev k = do {
     let cur = running_thread k;
     kassert (\<not> intr_get_level k);
     let k = set_status cur THREAD_RUNNING k;
     let k = k\<lparr>thread_ticks := 0\<rparr>;
     k \<leftarrow> process_activate k;
     if prev \<noteq> 0 then do {
       p \<leftarrow> threads k prev;
       if t_status p = THREAD_DYING \<and> prev \<noteq> initial_thread k then do {
         kassert (prev \<noteq> cur);
         Some (k\<lparr>threads := (threads k)(prev := None)\<rparr>) }
       else Some k }
     else Some k }"

definition schedule :: "kst \<Rightarrow> kst option" where
  "schedule k = do {
     let cur = running_thread k;
     let (next_t, k) = next_thread_to_run k;
     kassert (\<not> intr_get_level k);
     th \<leftarrow> threads k cur;
     kassert (t_status th \<noteq> THREAD_RUNNING);
     kassert (is_thread next_t k);
     if cur \<noteq> next_t then thread_schedule_tail cur (k\<lparr>running := next_t\<rparr>)
     else thread_schedule_tail 0 k }"

definition thread_block :: "kst \<Rightarrow> kst option" where
  "thread_block k = do {
     kassert (\<not> intr_context k);
     kassert (\<not> intr_get_level k);
     t \<leftarrow> thread_current k;
     schedule (set_status t THREAD_BLOCKED k) }"

definition thread_unblock :: "nat \<Rightarrow> kst \<Rightarrow> kst option" where
  "thread_unblock t k = do {
     kassert (is_thread t k);
     let (old_level, k) = intr_disable k;
     th \<leftarrow> threads k t;
     kassert (t_status th = THREAD_BLOCKED);
     let k = k\<lparr>ready_list := ready_list k @ [t]\<rparr>;
     let k = set_status t THREAD_READY k;
     (_, k) \<leftarrow> intr_set_level old_level k;
     Some k }"

text \<open>The rest of \<open>thread_yield\<close>, after the switch back, is the call \<open>Set_level\<close>.\<close>

definition thread_yield :: "kst \<Rightarrow> kst option" where
  "thread_yield k = do {
     cur \<leftarrow> thread_current k;
     kassert (\<not> intr_context k);
     let (old_level, k) = intr_disable k;
     let k = (if cur \<noteq> idle_thread k then k\<lparr>ready_list := ready_list k @ [cur]\<rparr> else k);
     let k = set_status cur THREAD_READY k;
     schedule (push_calls [Set_level old_level] k) }"

text \<open>
  The last part of \<open>thread_exit\<close>, behind \<open>process_exit\<close>: the thread leaves the list of all
  threads and is never scheduled again, so that nothing of its stack is left to execute.
\<close>

definition thread_die :: "kst \<Rightarrow> kst option" where
  "thread_die k = do {
     let (_, k) = intr_disable k;
     t \<leftarrow> thread_current k;
     kassert (t \<in> set (all_list k));
     let k = k\<lparr>all_list := remove1 t (all_list k), frames := (frames k)(t := [])\<rparr>;
     schedule (set_status t THREAD_DYING k) }"

definition thread_tick :: "kst \<Rightarrow> kst option" where
  "thread_tick k = do {
     t \<leftarrow> thread_current k;
     th \<leftarrow> threads k t;
     let k = (if t = idle_thread k then k\<lparr>idle_ticks := idle_ticks k + 1\<rparr>
              else if t_pagedir th \<noteq> 0 then k\<lparr>user_ticks := user_ticks k + 1\<rparr>
              else k\<lparr>kernel_ticks := kernel_ticks k + 1\<rparr>);
     let k = k\<lparr>thread_ticks := szt (thread_ticks k + 1)\<rparr>;
     if thread_ticks k \<ge> TIME_SLICE then intr_yield_on_return k else Some k }"

section \<open>Creation\<close>

text \<open>\<open>p\<close> is the page of the new thread, filled with zeroes first.\<close>

definition init_thread :: "nat \<Rightarrow> byte list \<Rightarrow> int \<Rightarrow> kst \<Rightarrow> kst option" where
  "init_thread p nm priority k = do {
     kassert (p \<noteq> 0);
     kassert (PRI_MIN \<le> priority \<and> priority \<le> PRI_MAX);
     (_, nm) \<leftarrow> strlcpy (replicate 16 0) nm 16;
     let th = \<lparr>t_tid = 0, t_status = THREAD_BLOCKED, t_name = nm, t_stack = p + PGSIZE, t_priority = priority,
       t_wait_status = 0, t_children = [], t_pagedir = 0, t_magic = THREAD_MAGIC\<rparr>;
     let k = k\<lparr>threads := (threads k)(p \<mapsto> th)\<rparr>;
     let (old_level, k) = intr_disable k;
     let k = k\<lparr>all_list := all_list k @ [p]\<rparr>;
     (_, k) \<leftarrow> intr_set_level old_level k;
     Some k }"

text \<open>Offsets of the synchronization objects inside a lock and a \<open>struct wait_status\<close>.\<close>

definition lock_sema :: "nat \<Rightarrow> nat" where "lock_sema l = l + 4"

definition ws_lock :: "nat \<Rightarrow> nat" where "ws_lock w = w + 8"

definition ws_dead :: "nat \<Rightarrow> nat" where "ws_dead w = w + 48"

definition ws_load_finished :: "nat \<Rightarrow> nat" where "ws_load_finished w = w + 68"

definition sema_init :: "nat \<Rightarrow> nat \<Rightarrow> kst \<Rightarrow> kst option" where
  "sema_init s v k = do {
     kassert (s \<noteq> 0);
     Some (k\<lparr>semas := (semas k)(s \<mapsto> \<lparr>s_value = v, s_waiters = []\<rparr>)\<rparr>) }"

definition lock_init :: "nat \<Rightarrow> kst \<Rightarrow> kst option" where
  "lock_init l k = do {
     kassert (l \<noteq> 0);
     sema_init (lock_sema l) 1 (k\<lparr>holder := (holder k)(l \<mapsto> 0)\<rparr>) }"

text \<open>\<open>w\<close> is what \<open>malloc\<close> returned; the code does not check it.\<close>

definition init_wait_status :: "nat \<Rightarrow> nat \<Rightarrow> kst \<Rightarrow> kst option" where
  "init_wait_status t w k = do {
     kassert (w \<noteq> 0);
     th \<leftarrow> threads k t;
     k \<leftarrow> lock_init (ws_lock w) k;
     let k = k\<lparr>wstats := (wstats k)(w \<mapsto>
       \<lparr>ws_ref_cnt = 2, ws_tid = t_tid th, ws_exit_code = 0, ws_load_code = 0\<rparr>)\<rparr>;
     k \<leftarrow> sema_init (ws_dead w) 0 k;
     k \<leftarrow> sema_init (ws_load_finished w) 0 k;
     parent \<leftarrow> thread_current k;
     let k = upd_thread parent (\<lambda>x. x\<lparr>t_children := t_children x @ [w]\<rparr>) k;
     Some (upd_thread t (\<lambda>x. x\<lparr>t_wait_status := w\<rparr>) k) }"

definition alloc_frame :: "nat \<Rightarrow> nat \<Rightarrow> kst \<Rightarrow> kst option" where
  "alloc_frame t sz k = do {
     kassert (is_thread t k);
     kassert (sz mod 4 = 0);
     Some (upd_thread t (\<lambda>x. x\<lparr>t_stack := t_stack x - sz\<rparr>) k) }"

text \<open>
  \<open>thread_create\<close> up to the call of \<open>allocate_tid\<close>, the part of \<open>allocate_tid\<close> inside its
  critical section, and the rest of \<open>thread_create\<close>.  \<open>p\<close> is the page \<open>palloc_get_page\<close>
  returned and \<open>fs\<close> are the calls the new thread starts with.
\<close>

definition alloc_tid_calls :: "nat \<Rightarrow> call list" where
  "alloc_tid_calls p = [Lock_acquire tid_lock, Next_tid p, Lock_release tid_lock]"

definition thread_create :: "nat \<Rightarrow> byte list \<Rightarrow> int \<Rightarrow> call list \<Rightarrow> kst \<Rightarrow> kst option" where
  "thread_create p nm priority fs k =
     (if p = 0 then Some (set_eax TID_ERROR k)
      else do {
        k \<leftarrow> init_thread p nm priority k;
        Some (push_calls (alloc_tid_calls p @ [Create_finish p fs]) k) })"

definition allocate_tid :: "nat \<Rightarrow> kst \<Rightarrow> kst option" where
  "allocate_tid p k = do {
     let tid = next_tid k;
     let k = k\<lparr>next_tid := i32 (tid + 1)\<rparr>;
     _ \<leftarrow> threads k p;
     Some (upd_thread p (\<lambda>x. x\<lparr>t_tid := tid\<rparr>) k) }"

definition thread_create_finish :: "nat \<Rightarrow> call list \<Rightarrow> nat \<Rightarrow> kst \<Rightarrow> kst option" where
  "thread_create_finish p fs w k = do {
     th \<leftarrow> threads k p;
     k \<leftarrow> init_wait_status p w k;
     k \<leftarrow> alloc_frame p 12 k;
     k \<leftarrow> alloc_frame p 4 k;
     k \<leftarrow> alloc_frame p 28 k;
     k \<leftarrow> thread_unblock p (k\<lparr>frames := (frames k)(p := Kernel_thread # fs)\<rparr>);
     Some (set_eax (t_tid th) k) }"

definition kernel_thread :: "kst \<Rightarrow> kst option" where
  "kernel_thread k = map_option snd (intr_enable k)"

text \<open>
  The code that boots the kernel on the stack of page \<open>p\<close> becomes the first thread.
\<close>

definition boot_state :: "nat \<Rightarrow> kst" where
  "boot_state p = \<lparr>threads = Map.empty, running = p, frames = (\<lambda>_. []), ready_list = [], all_list = [],
       idle_thread = 0, initial_thread = 0, next_tid = 1, idle_ticks = 0, kernel_ticks = 0, user_ticks = 0,
       thread_ticks = 0, ticks = 0, intr_on = False, in_external_intr = False, yield_on_return = False,
       semas = Map.empty, holder = Map.empty, conds = Map.empty, wstats = Map.empty, active_pagedir = 0,
       esp0 = 0, eax = (\<lambda>_. 0)\<rparr>"

definition thread_init :: "kst \<Rightarrow> kst option" where
  "thread_init k = do {
     kassert (\<not> intr_get_level k);
     k \<leftarrow> lock_init tid_lock k;
     let k = k\<lparr>ready_list := [], all_list := []\<rparr>;
     let p = running_thread k;
     let k = k\<lparr>initial_thread := p\<rparr>;
     k \<leftarrow> init_thread p [109, 97, 105, 110, 0] PRI_DEFAULT k;
     Some (push_calls (alloc_tid_calls p) (set_status p THREAD_RUNNING k)) }"

text \<open>\<open>s\<close> is the semaphore \<open>idle_started\<close> and \<open>q\<close> the page of the idle thread.\<close>

definition thread_start :: "nat \<Rightarrow> nat \<Rightarrow> kst \<Rightarrow> kst option" where
  "thread_start s q k = do {
     k \<leftarrow> sema_init s 0 k;
     let k = push_calls [Set_level True, Sema_down s] k;
     thread_create q [105, 100, 108, 101, 0] PRI_MIN [Idle s] k }"

text \<open>
  The idle thread: its start, the part of the loop up to the switch, and the instructions
  \<open>sti; hlt\<close> behind it.
\<close>

definition idle_begin :: "nat \<Rightarrow> kst \<Rightarrow> kst option" where
  "idle_begin s k = do {
     t \<leftarrow> thread_current k;
     Some (push_calls [Sema_up s, Idle_loop] (k\<lparr>idle_thread := t\<rparr>)) }"

definition idle_loop :: "kst \<Rightarrow> kst option" where
  "idle_loop k = do {
     let (_, k) = intr_disable k;
     thread_block (push_calls [Idle_halt] k) }"

definition idle_halt :: "kst \<Rightarrow> kst" where
  "idle_halt k = push_calls [Idle_loop] (k\<lparr>intr_on := True\<rparr>)"

section \<open>Queries\<close>

definition thread_tid :: "kst \<Rightarrow> int option" where
  "thread_tid k = do { t \<leftarrow> thread_current k; th \<leftarrow> threads k t; Some (t_tid th) }"

definition thread_name :: "kst \<Rightarrow> byte list option" where
  "thread_name k = do { t \<leftarrow> thread_current k; th \<leftarrow> threads k t; Some (t_name th) }"

definition thread_get_priority :: "kst \<Rightarrow> int option" where
  "thread_get_priority k = do { t \<leftarrow> thread_current k; th \<leftarrow> threads k t; Some (t_priority th) }"

definition thread_set_priority :: "int \<Rightarrow> kst \<Rightarrow> kst option" where
  "thread_set_priority p k = do { t \<leftarrow> thread_current k; Some (upd_thread t (\<lambda>x. x\<lparr>t_priority := p\<rparr>) k) }"

definition thread_foreach :: "(nat \<Rightarrow> kst \<Rightarrow> kst option) \<Rightarrow> kst \<Rightarrow> kst option" where
  "thread_foreach func k = do {
     kassert (\<not> intr_get_level k);
     mfold func (all_list k) k }"

text \<open>The loops over the lists of children and of all threads; 0 is the null pointer.\<close>

fun find_child :: "int \<Rightarrow> nat list \<Rightarrow> kst \<Rightarrow> nat option" where
  "find_child tid [] k = Some 0"
| "find_child tid (w # ws) k = do {
     x \<leftarrow> wstats k w;
     if ws_tid x = tid then Some w else find_child tid ws k }"

definition get_child_by_tid :: "nat \<Rightarrow> int \<Rightarrow> kst \<Rightarrow> nat option" where
  "get_child_by_tid cur tid k = do { th \<leftarrow> threads k cur; find_child tid (t_children th) k }"

fun find_tid :: "int \<Rightarrow> nat list \<Rightarrow> kst \<Rightarrow> nat option" where
  "find_tid tid [] k = Some 0"
| "find_tid tid (t # ts) k = do {
     th \<leftarrow> threads k t;
     if t_tid th = tid then Some t else find_tid tid ts k }"

definition get_thread_by_tid :: "int \<Rightarrow> kst \<Rightarrow> nat option" where
  "get_thread_by_tid tid k = find_tid tid (all_list k) k"

end
