(* ===== verification/Synch.thy ===== *)
theory Synch
  imports Threads
begin

text \<open>
  Semaphores, locks and condition variables (\<open>threads/synch.c\<close>), the timer (\<open>devices/timer.c\<close>,
  \<open>intr_handler\<close> of \<open>threads/interrupt.c\<close>) and the life of a process (\<open>userprog/process.c\<close>),
  and the machine that runs them: one step executes the topmost call of the running thread,
  starts a new call in a thread that is outside these functions, or takes a timer interrupt.

  A function that suspends the running thread pushes what is left of it as a call.  Between
  two steps an interrupt may come if interrupts are on; the code of one step runs with
  interrupts off, or touches shared data with a single access only.
\<close>

section \<open>Semaphores\<close>

definition set_sema :: "nat \<Rightarrow> (semaphore \<Rightarrow> semaphore) \<Rightarrow> kst \<Rightarrow> kst" where
  "set_sema s f k = k\<lparr>semas := (semas k)(s := map_option f (semas k s))\<rparr>"

text \<open>One pass through the loop of \<open>sema_down\<close>, and what follows it.\<close>

definition sema_retry :: "nat \<Rightarrow> bool \<Rightarrow> kst \<Rightarrow> kst option" where
  "sema_retry s old_level k = do {
     x \<leftarrow> semas k s;
     if s_value x = 0 then do {
       t \<leftarrow> thread_current k;
       let k = set_sema s (\<lambda>x. x\<lparr>s_waiters := s_waiters x @ [t]\<rparr>) k;
       thread_block (push_calls [Sema_retry s old_level] k) }
     else do {
       let k = set_sema s (\<lambda>x. x\<lparr>s_value := s_value x - 1\<rparr>) k;
       (_, k) \<leftarrow> intr_set_level old_level k;
       Some k } }"

definition sema_down :: "nat \<Rightarrow> kst \<Rightarrow> kst option" where
  "sema_down s k = do {
     kassert (s \<noteq> 0);
     kassert (\<not> intr_context k);
     let (old_level, k) = intr_disable k;
     sema_retry s old_level k }"

definition sema_try_down :: "nat \<Rightarrow> kst \<Rightarrow> (bool \<times> kst) option" where
  "sema_try_down s k = do {
     kassert (s \<noteq> 0);
     let (old_level, k) = intr_disable k;
     x \<leftarrow> semas k s;
     let (success, k) = (if s_value x > 0 then (True, set_sema s (\<lambda>x. x\<lparr>s_value := s_value x - 1\<rparr>) k)
                         else (False, k));
     (_, k) \<leftarrow> intr_set_level old_level k;
     Some (success, k) }"

definition sema_up :: "nat \<Rightarrow> kst \<Rightarrow> kst option" where
  "sema_up s k = do {
     kassert (s \<noteq> 0);
     let (old_level, k) = intr_disable k;
     x \<leftarrow> semas k s;
     k \<leftarrow> (case s_waiters x of
        [] \<Rightarrow> Some k
      | t # ts \<Rightarrow> thread_unblock t (set_sema s (\<lambda>x. x\<lparr>s_waiters := ts\<rparr>) k));
     let k = set_sema s (\<lambda>x. x\<lparr>s_value := szt (s_value x + 1)\<rparr>) k;
     (_, k) \<leftarrow> intr_set_level old_level k;
     Some k }"

section \<open>Locks\<close>

definition lock_held_by_current_thread :: "nat \<Rightarrow> kst \<Rightarrow> bool option" where
  "lock_held_by_current_thread l k = do {
     kassert (l \<noteq> 0);
     h \<leftarrow> holder k l;
     t \<leftarrow> thread_current k;
     Some (h = t) }"

text \<open>Behind the call of \<open>sema_down\<close> in \<open>lock_acquire\<close>.\<close>

definition lock_owned :: "nat \<Rightarrow> kst \<Rightarrow> kst option" where
  "lock_owned l k = do {
     t \<leftarrow> thread_current k;
     Some (k\<lparr>holder := (holder k)(l \<mapsto> t)\<rparr>) }"

definition lock_acquire :: "nat \<Rightarrow> kst \<Rightarrow> kst option" where
  "lock_acquire l k = do {
     kassert (l \<noteq> 0);
     kassert (\<not> intr_context k);
     held \<leftarrow> lock_held_by_current_thread l k;
     kassert (\<not> held);
     Some (push_calls [Sema_down (lock_sema l), Lock_owned l] k) }"

definition lock_try_acquire :: "nat \<Rightarrow> kst \<Rightarrow> kst option" where
  "lock_try_acquire l k = do {
     kassert (l \<noteq> 0);
     held \<leftarrow> lock_held_by_current_thread l k;
     kassert (\<not> held);
     (success, k) \<leftarrow> sema_try_down (lock_sema l) k;
     let k = set_eax (of_bool success) k;
     Some (if success then push_calls [Lock_owned l] k else k) }"

definition lock_release :: "nat \<Rightarrow> kst \<Rightarrow> kst option" where
  "lock_release l k = do {
     kassert (l \<noteq> 0);
     held \<leftarrow> lock_held_by_current_thread l k;
     kassert held;
     Some (push_calls [Sema_up (lock_sema l)] (k\<lparr>holder := (holder k)(l \<mapsto> 0)\<rparr>)) }"

section \<open>Condition variables\<close>

definition cond_init :: "nat \<Rightarrow> kst \<Rightarrow> kst option" where
  "cond_init c k = do {
     kassert (c \<noteq> 0);
     Some (k\<lparr>conds := (conds k)(c \<mapsto> [])\<rparr>) }"

text \<open>\<open>s\<close> is the semaphore of the \<open>struct semaphore_elem\<close> on the stack.\<close>

definition cond_wait :: "nat \<Rightarrow> nat \<Rightarrow> nat \<Rightarrow> kst \<Rightarrow> kst option" where
  "cond_wait c l s k = do {
     kassert (c \<noteq> 0);
     kassert (l \<noteq> 0);
     kassert (\<not> intr_context k);
     held \<leftarrow> lock_held_by_current_thread l k;
     kassert held;
     k \<leftarrow> sema_init s 0 k;
     ws \<leftarrow> conds k c;
     let k = k\<lparr>conds := (conds k)(c \<mapsto> ws @ [s])\<rparr>;
     Some (push_calls [Lock_release l, Sema_down s, Lock_acquire l] k) }"

definition cond_signal :: "nat \<Rightarrow> nat \<Rightarrow> kst \<Rightarrow> kst option" where
  "cond_signal c l k = do {
     kassert (c \<noteq> 0);
     kassert (l \<noteq> 0);
     kassert (\<not> intr_context k);
     held \<leftarrow> lock_held_by_current_thread l k;
     kassert held;
     ws \<leftarrow> conds k c;
     (case ws of
        [] \<Rightarrow> Some k
      | s # ws \<Rightarrow> Some (push_calls [Sema_up s] (k\<lparr>conds := (conds k)(c \<mapsto> ws)\<rparr>))) }"

definition cond_broadcast :: "nat \<Rightarrow> nat \<Rightarrow> kst \<Rightarrow> kst option" where
  "cond_broadcast c l k = do {
     kassert (c \<noteq> 0);
     kassert (l \<noteq> 0);
     ws \<leftarrow> conds k c;
     Some (if ws \<noteq> [] then push_calls [Cond_signal c l, Cond_broadcast c l] k else k) }"

section \<open>Timer\<close>

definition timer_interrupt :: "kst \<Rightarrow> kst option" where
  "timer_interrupt k = thread_tick (k\<lparr>ticks := ticks k + 1\<rparr>)"

definition timer_ticks :: "kst \<Rightarrow> int" where
  "timer_ticks k = ticks k"

definition timer_elapsed :: "int \<Rightarrow> kst \<Rightarrow> int" where
  "timer_elapsed since k = timer_ticks k - since"

definition timer_sleep :: "int \<Rightarrow> kst \<Rightarrow> kst option" where
  "timer_sleep n k = do {
     let start = timer_ticks k;
     kassert (intr_get_level k);
     Some (push_calls [Sleep_loop start n] k) }"

definition sleep_loop :: "int \<Rightarrow> int \<Rightarrow> kst \<Rightarrow> kst" where
  "sleep_loop start n k = (if timer_elapsed start k < n then push_calls [Thread_yield, Sleep_loop start n] k else k)"

text \<open>
  \<open>intr_handler\<close> for the timer interrupt: the processor turns interrupts off and saves the
  flags, which \<open>Iret\<close> restores.
\<close>

definition intr_handler :: "kst \<Rightarrow> kst option" where
  "intr_handler k = do {
     kassert (\<not> intr_get_level k);
     kassert (\<not> intr_context k);
     let k = k\<lparr>in_external_intr := True, yield_on_return := False\<rparr>;
     k \<leftarrow> timer_interrupt k;
     kassert (\<not> intr_get_level k);
     kassert (intr_context k);
     let k = k\<lparr>in_external_intr := False\<rparr>;
     if yield_on_return k then thread_yield k else Some k }"

definition take_interrupt :: "kst \<Rightarrow> kst option" where
  "take_interrupt k = intr_handler (push_calls [Iret] (k\<lparr>intr_on := False\<rparr>))"

section \<open>Processes\<close>

text \<open>
  \<open>process_execute\<close>: \<open>nm\<close> is the command name and \<open>ok\<close> what \<open>load\<close> will return in the new
  process.  \<open>Exec_wait\<close> is what follows the call of \<open>thread_create\<close>; a null \<open>child\<close> is
  written through there.
\<close>

definition process_execute :: "nat \<Rightarrow> byte list \<Rightarrow> bool \<Rightarrow> kst \<Rightarrow> kst option" where
  "process_execute p nm ok k = thread_create p nm PRI_DEFAULT [Start_process ok] (push_calls [Exec_wait] k)"

definition exec_wait :: "kst \<Rightarrow> kst option" where
  "exec_wait k = do {
     let tid = eax k (running k);
     child \<leftarrow> get_thread_by_tid tid k;
     parent \<leftarrow> thread_current k;
     kassert (child \<noteq> 0);
     if tid = TID_ERROR then Some k
     else do {
       w \<leftarrow> get_child_by_tid parent tid k;
       Some (if w \<noteq> 0 then push_calls [Sema_down (ws_load_finished w)] k else k) } }"

text \<open>\<open>start_process\<close> behind the call of \<open>load\<close>; the process then runs in user mode.\<close>

definition start_process :: "bool \<Rightarrow> kst \<Rightarrow> kst option" where
  "start_process success k = do {
     t \<leftarrow> thread_current k;
     th \<leftarrow> threads k t;
     let w = t_wait_status th;
     x \<leftarrow> wstats k w;
     Some (if \<not> success then
        push_calls [Sema_up (ws_load_finished w), Thread_exit]
          (k\<lparr>wstats := (wstats k)(w \<mapsto> x\<lparr>ws_load_code := - 1\<rparr>)\<rparr>)
      else push_calls [Sema_up (ws_load_finished w)] k) }"

text \<open>Freed blocks are not used again in the model, so that a use after \<open>free\<close> shows.\<close>

definition free_ws :: "nat \<Rightarrow> kst \<Rightarrow> kst" where
  "free_ws w k = k\<lparr>wstats := (wstats k)(w := None)\<rparr>"

definition remove_child :: "nat \<Rightarrow> nat \<Rightarrow> kst \<Rightarrow> kst" where
  "remove_child t w = upd_thread t (\<lambda>x. x\<lparr>t_children := remove1 w (t_children x)\<rparr>)"

definition process_wait :: "int \<Rightarrow> kst \<Rightarrow> kst option" where
  "process_wait child_tid k = do {
     t \<leftarrow> thread_current k;
     w \<leftarrow> get_child_by_tid t child_tid k;
     if w \<noteq> 0 then do {
       x \<leftarrow> wstats k w;
       Some (push_calls ((if ws_ref_cnt x = 2 then [Sema_down (ws_dead w)] else []) @ [Wait_reap w]) k) }
     else Some (set_eax (- 1) k) }"

definition wait_reap :: "nat \<Rightarrow> kst \<Rightarrow> kst option" where
  "wait_reap w k = do {
     x \<leftarrow> wstats k w;
     t \<leftarrow> thread_current k;
     Some (set_eax (ws_exit_code x) (free_ws w (remove_child t w k))) }"

text \<open>The store of the exit code in \<open>sys_exit_handler\<close>.\<close>

definition exit_code :: "int \<Rightarrow> kst \<Rightarrow> kst option" where
  "exit_code status k = do {
     t \<leftarrow> thread_current k;
     th \<leftarrow> threads k t;
     x \<leftarrow> wstats k (t_wait_status th);
     Some (push_calls [Thread_exit]
       (k\<lparr>wstats := (wstats k)(t_wait_status th \<mapsto> x\<lparr>ws_exit_code := status\<rparr>)\<rparr>)) }"

text \<open>
  \<open>thread_exit\<close> up to \<open>process_exit\<close>, and the parts of \<open>process_exit\<close>: the loop over the
  children, the decrement inside the critical section, and what follows it.
\<close>

definition thread_exit :: "kst \<Rightarrow> kst option" where
  "thread_exit k = do {
     kassert (\<not> intr_context k);
     t \<leftarrow> thread_current k;
     th \<leftarrow> threads k t;
     Some (push_calls [Exit_children (t_children th), Exit_own, Exit_vm, Thread_die] k) }"

definition ref_dec_calls :: "nat \<Rightarrow> call list" where
  "ref_dec_calls w = [Lock_acquire (ws_lock w), Ref_dec w, Lock_release (ws_lock w)]"

fun exit_children :: "nat list \<Rightarrow> kst \<Rightarrow> kst option" where
  "exit_children [] k = Some k"
| "exit_children (w # ws) k = do {
     _ \<leftarrow> wstats k w;
     Some (push_calls (ref_dec_calls w @ [Exit_reap w, Exit_children ws]) k) }"

definition ref_dec :: "nat \<Rightarrow> kst \<Rightarrow> kst option" where
  "ref_dec w k = do {
     x \<leftarrow> wstats k w;
     Some (k\<lparr>wstats := (wstats k)(w \<mapsto> x\<lparr>ws_ref_cnt := ws_ref_cnt x - 1\<rparr>)\<rparr>) }"

definition exit_reap :: "nat \<Rightarrow> kst \<Rightarrow> kst option" where
  "exit_reap w k = do {
     x \<leftarrow> wstats k w;
     t \<leftarrow> thread_current k;
     Some (if ws_ref_cnt x = 0 then free_ws w (remove_child t w k) else k) }"

definition exit_own :: "kst \<Rightarrow> kst option" where
  "exit_own k = do {
     t \<leftarrow> thread_current k;
     th \<leftarrow> threads k t;
     let w = t_wait_status th;
     _ \<leftarrow> wstats k w;
     Some (push_calls (ref_dec_calls w @ [Exit_signal w]) k) }"

definition exit_signal :: "nat \<Rightarrow> kst \<Rightarrow> kst option" where
  "exit_signal w k = do {
     x \<leftarrow> wstats k w;
     Some (if ws_ref_cnt x = 0 then free_ws w k else push_calls [Sema_up (ws_dead w)] k) }"

definition exit_vm :: "kst \<Rightarrow> kst option" where
  "exit_vm k = do {
     t \<leftarrow> thread_current k;
     th \<leftarrow> threads k t;
     Some (if t_pagedir th \<noteq> 0 then (upd_thread t (\<lambda>x. x\<lparr>t_pagedir := 0\<rparr>) k)\<lparr>active_pagedir := 0\<rparr> else k) }"

section \<open>The machine\<close>

text \<open>One call; \<open>w\<close> is the block that \<open>malloc\<close> returns if the call allocates one.\<close>

fun exec :: "nat \<Rightarrow> call \<Rightarrow> kst \<Rightarrow> kst option" where
  "exec w (Sema_init s v) k = sema_init s v k"
| "exec w (Sema_down s) k = sema_down s k"
| "exec w (Sema_retry s old_level) k = sema_retry s old_level k"
| "exec w (Sema_try_down s) k = map_option (\<lambda>(b, k). set_eax (of_bool b) k) (sema_try_down s k)"
| "exec w (Sema_up s) k = sema_up s k"
| "exec w (Lock_init l) k = lock_init l k"
| "exec w (Lock_acquire l) k = lock_acquire l k"
| "exec w (Lock_owned l) k = lock_owned l k"
| "exec w (Lock_try_acquire l) k = lock_try_acquire l k"
| "exec w (Lock_release l) k = lock_release l k"
| "exec w (Cond_init c) k = cond_init c k"
| "exec w (Cond_wait c l s) k = cond_wait c l s k"
| "exec w (Cond_signal c l) k = cond_signal c l k"
| "exec w (Cond_broadcast c l) k = cond_broadcast c l k"
| "exec w Thread_yield k = thread_yield k"
| "exec w (Set_level b) k = map_option snd (intr_set_level b k)"
| "exec w Iret k = Some (k\<lparr>intr_on := True\<rparr>)"
| "exec w Kernel_thread k = kernel_thread k"
| "exec w Thread_exit k = thread_exit k"
| "exec w Thread_die k = thread_die k"
| "exec w (Thread_create p nm pri fs) k = thread_create p nm pri fs k"
| "exec w (Next_tid p) k = allocate_tid p k"
| "exec w (Create_finish p fs) k = thread_create_finish p fs w k"
| "exec w (Thread_start s q) k = thread_start s q k"
| "exec w (Idle s) k = idle_begin s k"
| "exec w Idle_loop k = idle_loop k"
| "exec w Idle_halt k = Some (idle_halt k)"
| "exec w (Timer_sleep n) k = timer_sleep n k"
| "exec w (Sleep_loop start n) k = Some (sleep_loop start n k)"
| "exec w (Process_execute p nm ok) k = process_execute p nm ok k"
| "exec w Exec_wait k = exec_wait k"
| "exec w (Start_process ok) k = start_process ok k"
| "exec w (Process_wait tid) k = process_wait tid k"
| "exec w (Wait_reap ws) k = wait_reap ws k"
| "exec w (Exit_code c) k = exit_code c k"
| "exec w (Exit_children ws) k = exit_children ws k"
| "exec w (Exit_reap ws) k = exit_reap ws k"
| "exec w Exit_own k = exit_own k"
| "exec w (Ref_dec ws) k = ref_dec ws k"
| "exec w (Exit_signal ws) k = exit_signal ws k"
| "exec w Exit_vm k = exit_vm k"

end
