(* ===== verification/Sched.thy ===== *)
theory Sched
  imports Synch
begin

text \<open>
  Executions of the kernel, and what every step does to the run queue.  The step relation
  interleaves the threads: between any two steps a timer interrupt may take the processor
  away when interrupts are on.  The main results are that the run queue is served in order
  and that a ready thread gets the processor within a bounded number of timer ticks.
\<close>

section \<open>Steps\<close>

text \<open>
  A thread may call the synchronization functions on objects it initialized before, and
  initialize objects in memory that is not in use.  The semaphore inside a lock is used by
  the functions for locks only.
\<close>

definition is_lock_sema :: "nat \<Rightarrow> kst \<Rightarrow> bool" where
  "is_lock_sema s k \<longleftrightarrow> 4 \<le> s \<and> holder k (s - 4) \<noteq> None"

definition user_sema :: "nat \<Rightarrow> kst \<Rightarrow> bool" where
  "user_sema s k \<longleftrightarrow> semas k s \<noteq> None \<and> \<not> is_lock_sema s k"

definition fresh_sema :: "nat \<Rightarrow> kst \<Rightarrow> bool" where
  "fresh_sema s k \<longleftrightarrow> s \<noteq> 0 \<and> semas k s = None \<and> \<not> is_lock_sema s k"

definition fresh_lock :: "nat \<Rightarrow> kst \<Rightarrow> bool" where
  "fresh_lock l k \<longleftrightarrow> l \<noteq> 0 \<and> holder k l = None \<and> semas k (lock_sema l) = None"

definition fresh_ws :: "nat \<Rightarrow> kst \<Rightarrow> bool" where
  "fresh_ws w k \<longleftrightarrow> w \<noteq> 0 \<and> wstats k w = None \<and> fresh_lock (ws_lock w) k
     \<and> fresh_sema (ws_dead w) k \<and> fresh_sema (ws_load_finished w) k"

fun legal :: "call \<Rightarrow> kst \<Rightarrow> bool" where
  "legal (Sema_init s v) k \<longleftrightarrow> fresh_sema s k"
| "legal (Sema_down s) k \<longleftrightarrow> user_sema s k"
| "legal (Sema_try_down s) k \<longleftrightarrow> user_sema s k"
| "legal (Sema_up s) k \<longleftrightarrow> user_sema s k"
| "legal (Lock_init l) k \<longleftrightarrow> fresh_lock l k"
| "legal (Lock_acquire l) k \<longleftrightarrow> True"
| "legal (Lock_try_acquire l) k \<longleftrightarrow> True"
| "legal (Lock_release l) k \<longleftrightarrow> True"
| "legal (Cond_init c) k \<longleftrightarrow> conds k c = None"
| "legal (Cond_wait c l s) k \<longleftrightarrow> fresh_sema s k"
| "legal (Cond_signal c l) k \<longleftrightarrow> True"
| "legal (Cond_broadcast c l) k \<longleftrightarrow> True"
| "legal Thread_yield k \<longleftrightarrow> True"
| "legal (Set_level b) k \<longleftrightarrow> True"
| "legal Thread_exit k \<longleftrightarrow> True"
| "legal (Thread_create p nm pri fs) k \<longleftrightarrow> threads k p = None \<and> fs = []"
| "legal (Thread_start s q) k \<longleftrightarrow> idle_thread k = 0 \<and> all_list k = [running k] \<and> fresh_sema s k \<and> threads k q = None"
| "legal (Timer_sleep n) k \<longleftrightarrow> True"
| "legal (Process_execute p nm ok) k \<longleftrightarrow> threads k p = None"
| "legal (Process_wait tid) k \<longleftrightarrow> True"
| "legal (Exit_code c) k \<longleftrightarrow> True"
| "legal c k \<longleftrightarrow> False"

datatype label = Run | Call call | Tick

definition pop_call :: "kst \<Rightarrow> kst" where
  "pop_call k = k\<lparr>frames := (frames k)(running k := tl (frames k (running k)))\<rparr>"

inductive kstep :: "label \<Rightarrow> kst \<Rightarrow> kst \<Rightarrow> bool" where
  run: "frames k (running k) = c # fs \<Longrightarrow> fresh_ws w k \<Longrightarrow> exec w c (pop_call k) = Some k' \<Longrightarrow> kstep Run k k'"
| call: "frames k (running k) = [] \<Longrightarrow> legal c k \<Longrightarrow> fresh_ws w k \<Longrightarrow> exec w c k = Some k' \<Longrightarrow> kstep (Call c) k k'"
| tick: "intr_on k \<Longrightarrow> take_interrupt k = Some k' \<Longrightarrow> kstep Tick k k'"

inductive trace :: "kst \<Rightarrow> (label \<times> kst) list \<Rightarrow> bool" where
  trace_nil: "trace k []"
| trace_cons: "kstep a k k' \<Longrightarrow> trace k' tr \<Longrightarrow> trace k ((a, k') # tr)"

inductive kreach :: "kst \<Rightarrow> bool" where
  boot: "p \<noteq> 0 \<Longrightarrow> thread_init (boot_state p) = Some k \<Longrightarrow> kreach k"
| step: "kreach k \<Longrightarrow> kstep a k k' \<Longrightarrow> kreach k'"

inductive_cases trace_consE: "trace k ((a, k') # tr)"

section \<open>Effects of the basic operations\<close>

definition st :: "kst \<Rightarrow> nat \<Rightarrow> thread_status option" where
  "st k t = map_option t_status (threads k t)"

lemmas level_defs = intr_get_level_def intr_context_def intr_enable_def intr_disable_def intr_set_level_def

lemma intr_set_level_eq:
  "intr_set_level b k = Some (l, k') \<longleftrightarrow> l = intr_on k \<and> k' = k\<lparr>intr_on := b\<rparr> \<and> (b \<longrightarrow> \<not> in_external_intr k)"
  by (auto simp: level_defs Let_def bind_eq_Some_conv)

lemma push_calls_simps [simp]:
  "threads (push_calls cs k) = threads k" "running (push_calls cs k) = running k"
  "ready_list (push_calls cs k) = ready_list k" "all_list (push_calls cs k) = all_list k"
  "idle_thread (push_calls cs k) = idle_thread k" "initial_thread (push_calls cs k) = initial_thread k"
  "thread_ticks (push_calls cs k) = thread_ticks k" "intr_on (push_calls cs k) = intr_on k"
  "in_external_intr (push_calls cs k) = in_external_intr k" "semas (push_calls cs k) = semas k"
  "holder (push_calls cs k) = holder k" "conds (push_calls cs k) = conds k" "wstats (push_calls cs k) = wstats k"
  "frames (push_calls cs k) = (frames k)(running k := cs @ frames k (running k))"
  "yield_on_return (push_calls cs k) = yield_on_return k" "ticks (push_calls cs k) = ticks k"
  by (simp_all add: push_calls_def)

lemma set_eax_simps [simp]:
  "threads (set_eax v k) = threads k" "running (set_eax v k) = running k"
  "ready_list (set_eax v k) = ready_list k" "all_list (set_eax v k) = all_list k"
  "idle_thread (set_eax v k) = idle_thread k" "initial_thread (set_eax v k) = initial_thread k"
  "thread_ticks (set_eax v k) = thread_ticks k" "intr_on (set_eax v k) = intr_on k"
  "in_external_intr (set_eax v k) = in_external_intr k" "semas (set_eax v k) = semas k"
  "holder (set_eax v k) = holder k" "conds (set_eax v k) = conds k" "wstats (set_eax v k) = wstats k"
  "frames (set_eax v k) = frames k"
  by (simp_all add: set_eax_def)

lemma upd_thread_simps [simp]:
  "threads (upd_thread t f k) = (threads k)(t := map_option f (threads k t))" "running (upd_thread t f k) = running k"
  "ready_list (upd_thread t f k) = ready_list k" "all_list (upd_thread t f k) = all_list k"
  "idle_thread (upd_thread t f k) = idle_thread k" "initial_thread (upd_thread t f k) = initial_thread k"
  "thread_ticks (upd_thread t f k) = thread_ticks k" "intr_on (upd_thread t f k) = intr_on k"
  "in_external_intr (upd_thread t f k) = in_external_intr k" "semas (upd_thread t f k) = semas k"
  "holder (upd_thread t f k) = holder k" "conds (upd_thread t f k) = conds k" "wstats (upd_thread t f k) = wstats k"
  "frames (upd_thread t f k) = frames k"
  by (simp_all add: upd_thread_def)

lemma set_status_simps [simp]:
  "running (set_status t s k) = running k"
  "ready_list (set_status t s k) = ready_list k" "all_list (set_status t s k) = all_list k"
  "idle_thread (set_status t s k) = idle_thread k" "initial_thread (set_status t s k) = initial_thread k"
  "thread_ticks (set_status t s k) = thread_ticks k" "intr_on (set_status t s k) = intr_on k"
  "in_external_intr (set_status t s k) = in_external_intr k" "semas (set_status t s k) = semas k"
  "holder (set_status t s k) = holder k" "conds (set_status t s k) = conds k" "wstats (set_status t s k) = wstats k"
  "frames (set_status t s k) = frames k"
  by (simp_all add: set_status_def)

lemma set_sema_simps [simp]:
  "threads (set_sema s f k) = threads k" "running (set_sema s f k) = running k"
  "ready_list (set_sema s f k) = ready_list k" "all_list (set_sema s f k) = all_list k"
  "idle_thread (set_sema s f k) = idle_thread k" "initial_thread (set_sema s f k) = initial_thread k"
  "thread_ticks (set_sema s f k) = thread_ticks k" "intr_on (set_sema s f k) = intr_on k"
  "in_external_intr (set_sema s f k) = in_external_intr k"
  "semas (set_sema s f k) = (semas k)(s := map_option f (semas k s))"
  "holder (set_sema s f k) = holder k" "conds (set_sema s f k) = conds k" "wstats (set_sema s f k) = wstats k"
  "frames (set_sema s f k) = frames k"
  by (simp_all add: set_sema_def)

lemma pop_call_simps [simp]:
  "threads (pop_call k) = threads k" "running (pop_call k) = running k"
  "ready_list (pop_call k) = ready_list k" "all_list (pop_call k) = all_list k"
  "idle_thread (pop_call k) = idle_thread k" "initial_thread (pop_call k) = initial_thread k"
  "thread_ticks (pop_call k) = thread_ticks k" "intr_on (pop_call k) = intr_on k"
  "in_external_intr (pop_call k) = in_external_intr k" "semas (pop_call k) = semas k"
  "holder (pop_call k) = holder k" "conds (pop_call k) = conds k" "wstats (pop_call k) = wstats k"
  "frames (pop_call k) = (frames k)(running k := tl (frames k (running k)))"
  by (simp_all add: pop_call_def)

lemma thread_current_eq:
  "thread_current k = Some t \<longleftrightarrow> t = running k \<and> is_thread t k \<and> st k t = Some THREAD_RUNNING"
  by (auto simp: thread_current_def running_thread_def st_def Let_def bind_eq_Some_conv)

lemma is_thread_eq: "is_thread t k \<longleftrightarrow> t \<noteq> 0 \<and> (\<exists>th. threads k t = Some th \<and> t_magic th = THREAD_MAGIC)"
  by (auto simp: is_thread_def split: option.splits)

text \<open>Everything that \<open>schedule\<close> does not touch.\<close>

definition same_objs :: "kst \<Rightarrow> kst \<Rightarrow> bool" where
  "same_objs k k' \<longleftrightarrow> frames k' = frames k \<and> all_list k' = all_list k \<and> idle_thread k' = idle_thread k
     \<and> initial_thread k' = initial_thread k \<and> in_external_intr k' = in_external_intr k \<and> semas k' = semas k
     \<and> holder k' = holder k \<and> conds k' = conds k \<and> wstats k' = wstats k"

definition magics :: "kst \<Rightarrow> nat \<Rightarrow> u32 option" where
  "magics k t = map_option t_magic (threads k t)"

lemma thread_schedule_tail_effect:
  assumes "thread_schedule_tail prev k = Some k'"
  shows "\<not> intr_on k \<and> \<not> intr_on k' \<and> thread_ticks k' = 0 \<and> running k' = running k \<and> ready_list k' = ready_list k \<and> same_objs k k'
    \<and> (\<forall>t. threads k' t = (if prev \<noteq> 0 \<and> t = prev \<and> prev \<noteq> running k \<and> st k prev = Some THREAD_DYING
              \<and> prev \<noteq> initial_thread k then None
            else if t = running k then map_option (\<lambda>th. th\<lparr>t_status := THREAD_RUNNING\<rparr>) (threads k t) else threads k t))"
proof -
  let ?k1 = "(set_status (running k) THREAD_RUNNING k)\<lparr>thread_ticks := 0\<rparr>"
  obtain k2 where off: "\<not> intr_on k" and k2: "process_activate ?k1 = Some k2"
    and k': "(if prev \<noteq> 0 then do {
       p \<leftarrow> threads k2 prev;
       if t_status p = THREAD_DYING \<and> prev \<noteq> initial_thread k2 then do {
         kassert (prev \<noteq> running k);
         Some (k2\<lparr>threads := (threads k2)(prev := None)\<rparr>) }
       else Some k2 }
     else Some k2) = Some k'"
    using assms by (auto simp: thread_schedule_tail_def running_thread_def level_defs Let_def bind_eq_Some_conv)
  have e2: "\<not> intr_on k2" "thread_ticks k2 = 0" "running k2 = running k" "ready_list k2 = ready_list k" "same_objs k k2"
    "threads k2 = (threads k)(running k := map_option (\<lambda>th. th\<lparr>t_status := THREAD_RUNNING\<rparr>) (threads k (running k)))"
    using k2 off by (auto simp: process_activate_def bind_eq_Some_conv same_objs_def set_status_def)
  show ?thesis
  proof (cases "prev \<noteq> 0 \<and> prev \<noteq> running k \<and> st k prev = Some THREAD_DYING \<and> prev \<noteq> initial_thread k")
    case True
    then have "k' = k2\<lparr>threads := (threads k2)(prev := None)\<rparr>"
      using k' e2 by (auto simp: st_def same_objs_def bind_eq_Some_conv split: if_splits)
    then show ?thesis
      using True e2 off by (simp add: same_objs_def)
  next
    case False
    then have "k' = k2"
      using k' e2 by (auto simp: st_def same_objs_def bind_eq_Some_conv split: if_splits)
    then show ?thesis
      using False e2 off by auto
  qed
qed

lemma schedule_effect:
  assumes "schedule k = Some k'"
  shows "\<not> intr_on k \<and> \<not> intr_on k' \<and> thread_ticks k' = 0 \<and> same_objs k k'
    \<and> is_thread (running k') k \<and> st k (running k) \<noteq> Some THREAD_RUNNING \<and> st k (running k) \<noteq> None
    \<and> (ready_list k = [] \<and> ready_list k' = [] \<and> running k' = idle_thread k \<or> ready_list k = running k' # ready_list k')
    \<and> (\<forall>t. threads k' t = (if t = running k \<and> t \<noteq> 0 \<and> t \<noteq> running k' \<and> st k t = Some THREAD_DYING \<and> t \<noteq> initial_thread k then None
            else if t = running k' then map_option (\<lambda>th. th\<lparr>t_status := THREAD_RUNNING\<rparr>) (threads k t) else threads k t))"
proof (cases "ready_list k")
  case Nil
  then show ?thesis
    using assms
    by (auto simp: schedule_def next_thread_to_run_def running_thread_def Let_def bind_eq_Some_conv same_objs_def is_thread_def st_def
          split: if_splits dest!: thread_schedule_tail_effect)
next
  case (Cons t ts)
  then show ?thesis
    using assms
    by (auto simp: schedule_def next_thread_to_run_def running_thread_def Let_def bind_eq_Some_conv same_objs_def is_thread_def st_def
          split: if_splits dest!: thread_schedule_tail_effect)
qed

section \<open>Calls that do not involve the scheduler\<close>

text \<open>
  Such a call leaves the status of every thread and the run queue as they are.  On its
  stack the running thread finds the calls \<open>ps\<close> next.
\<close>

definition quiet :: "call list \<Rightarrow> kst \<Rightarrow> kst \<Rightarrow> bool" where
  "quiet ps k k' \<longleftrightarrow> st k' = st k \<and> magics k' = magics k \<and> running k' = running k \<and> ready_list k' = ready_list k
     \<and> all_list k' = all_list k \<and> idle_thread k' = idle_thread k \<and> initial_thread k' = initial_thread k
     \<and> in_external_intr k' = in_external_intr k \<and> thread_ticks k' = thread_ticks k
     \<and> frames k' = (frames k)(running k := ps @ frames k (running k))
     \<and> (\<forall>s x. semas k s = Some x \<longrightarrow> (\<exists>y. semas k' s = Some y \<and> s_waiters y = s_waiters x))
     \<and> (\<forall>s y. semas k s = None \<longrightarrow> semas k' s = Some y \<longrightarrow> s_waiters y = [])"

fun quiet_call :: "call \<Rightarrow> bool" where
  "quiet_call (Sema_down s) \<longleftrightarrow> False"
| "quiet_call (Sema_retry s b) \<longleftrightarrow> False"
| "quiet_call (Sema_up s) \<longleftrightarrow> False"
| "quiet_call Thread_yield \<longleftrightarrow> False"
| "quiet_call Thread_die \<longleftrightarrow> False"
| "quiet_call (Thread_create p nm pri fs) \<longleftrightarrow> False"
| "quiet_call (Process_execute p nm ok) \<longleftrightarrow> False"
| "quiet_call (Thread_start s q) \<longleftrightarrow> False"
| "quiet_call (Create_finish p fs) \<longleftrightarrow> False"
| "quiet_call (Idle s) \<longleftrightarrow> False"
| "quiet_call Idle_loop \<longleftrightarrow> False"
| "quiet_call c \<longleftrightarrow> True"

text \<open>The calls that a call may leave on the stack.\<close>

inductive pushes :: "call \<Rightarrow> call list \<Rightarrow> bool" where
  "quiet_call c \<Longrightarrow> c \<noteq> Idle_halt \<Longrightarrow> c \<noteq> Thread_exit \<Longrightarrow> pushes c []"
| "pushes (Lock_acquire l) [Sema_down (lock_sema l), Lock_owned l]"
| "pushes (Lock_try_acquire l) [Lock_owned l]"
| "pushes (Lock_release l) [Sema_up (lock_sema l)]"
| "pushes (Cond_wait c l s) [Lock_release l, Sema_down s, Lock_acquire l]"
| "pushes (Cond_signal c l) [Sema_up s]"
| "pushes (Cond_broadcast c l) [Cond_signal c l, Cond_broadcast c l]"
| "pushes Idle_halt [Idle_loop]"
| "pushes (Timer_sleep n) [Sleep_loop a n]"
| "pushes (Sleep_loop a n) [Thread_yield, Sleep_loop a n]"
| "pushes Exec_wait [Sema_down s]"
| "pushes (Start_process b) [Sema_up s]"
| "pushes (Start_process b) [Sema_up s, Thread_exit]"
| "pushes (Process_wait tid) [Sema_down s, Wait_reap w]"
| "pushes (Process_wait tid) [Wait_reap w]"
| "pushes (Exit_code c) [Thread_exit]"
| "pushes Thread_exit [Exit_children ws, Exit_own, Exit_vm, Thread_die]"
| "pushes (Exit_children ws) [Lock_acquire (ws_lock w), Ref_dec w, Lock_release (ws_lock w), Exit_reap w, Exit_children ws']"
| "pushes Exit_own [Lock_acquire (ws_lock w), Ref_dec w, Lock_release (ws_lock w), Exit_signal w]"
| "pushes (Exit_signal w) [Sema_up s]"

lemmas call_defs = sema_init_def sema_try_down_def lock_init_def lock_acquire_def lock_owned_def lock_try_acquire_def
  lock_release_def lock_held_by_current_thread_def cond_init_def cond_wait_def cond_signal_def cond_broadcast_def
  kernel_thread_def thread_exit_def allocate_tid_def idle_halt_def timer_sleep_def sleep_loop_def exec_wait_def
  start_process_def process_wait_def wait_reap_def exit_code_def exit_reap_def exit_own_def ref_dec_def ref_dec_calls_def
  exit_signal_def exit_vm_def free_ws_def remove_child_def

lemma quietI:
  assumes "\<And>t. map_option (\<lambda>th. (t_status th, t_magic th)) (threads k' t)
      = map_option (\<lambda>th. (t_status th, t_magic th)) (threads k t)"
    and "running k' = running k" "ready_list k' = ready_list k"
    "all_list k' = all_list k" "idle_thread k' = idle_thread k" "initial_thread k' = initial_thread k"
    "in_external_intr k' = in_external_intr k" "thread_ticks k' = thread_ticks k"
    "frames k' = (frames k)(running k := ps @ frames k (running k))"
    and "\<And>s x. semas k s = Some x \<Longrightarrow> \<exists>y. semas k' s = Some y \<and> s_waiters y = s_waiters x"
    and "\<And>s y. semas k s = None \<Longrightarrow> semas k' s = Some y \<Longrightarrow> s_waiters y = []"
  shows "quiet ps k k'"
proof -
  have "st k' t = st k t \<and> magics k' t = magics k t" for t
    using assms(1) [of t] by (cases "threads k' t"; cases "threads k t") (auto simp: st_def magics_def)
  then show ?thesis
    using assms(2-) unfolding quiet_def by (auto simp: fun_eq_iff)
qed

definition quiet_result :: "call \<Rightarrow> kst \<Rightarrow> kst \<Rightarrow> bool" where
  "quiet_result c k k' \<longleftrightarrow> (\<exists>ps. pushes c ps \<and> quiet ps k k')"

lemma quiet_resultI0: "quiet [] k k' \<Longrightarrow> pushes c [] \<Longrightarrow> quiet_result c k k'"
  by (auto simp: quiet_result_def)

lemma quiet_resultI: "quiet [] k k1 \<Longrightarrow> pushes c ps \<Longrightarrow> quiet_result c k (push_calls ps k1)"
  unfolding quiet_result_def quiet_def st_def magics_def by (intro exI [of _ ps] conjI) simp_all

lemma sema_try_down_effect:
  assumes "sema_try_down s k = Some (b, k')"
  obtains x where "semas k s = Some x" "b \<longleftrightarrow> 0 < s_value x"
    "k' = (if b then set_sema s (\<lambda>x. x\<lparr>s_value := s_value x - 1\<rparr>) k else k)"
  using assms
  by (cases "semas k s") (auto simp: sema_try_down_def level_defs Let_def set_sema_def bind_eq_Some_conv split: if_splits)

lemma quiet_refl [simp]: "quiet [] k k"
  by (simp add: quiet_def)

lemma quiet_fields [simp]:
  "quiet ps k (k1\<lparr>conds := c\<rparr>) \<longleftrightarrow> quiet ps k k1" "quiet ps k (k1\<lparr>holder := h\<rparr>) \<longleftrightarrow> quiet ps k k1"
  "quiet ps k (k1\<lparr>wstats := ws\<rparr>) \<longleftrightarrow> quiet ps k k1" "quiet ps k (k1\<lparr>intr_on := b\<rparr>) \<longleftrightarrow> quiet ps k k1"
  "quiet ps k (k1\<lparr>next_tid := i\<rparr>) \<longleftrightarrow> quiet ps k k1" "quiet ps k (k1\<lparr>active_pagedir := pd\<rparr>) \<longleftrightarrow> quiet ps k k1"
  "quiet ps k (set_eax v k1) \<longleftrightarrow> quiet ps k k1"
  by (simp_all add: quiet_def st_def magics_def fun_eq_iff)

lemma quiet_upd_thread [simp]:
  assumes "\<And>x. t_status (f x) = t_status x" "\<And>x. t_magic (f x) = t_magic x"
  shows "quiet ps k (upd_thread t f k1) \<longleftrightarrow> quiet ps k k1"
proof -
  have "st (upd_thread t f k1) = st k1" "magics (upd_thread t f k1) = magics k1"
    using assms by (auto simp: st_def magics_def fun_eq_iff option.map_comp comp_def)
  then show ?thesis
    by (simp add: quiet_def)
qed

lemma quiet_sema_new [simp]:
  "quiet [] k k1 \<Longrightarrow> semas k s = None \<Longrightarrow> s_waiters x = [] \<Longrightarrow> quiet [] k (k1\<lparr>semas := (semas k)(s \<mapsto> x)\<rparr>)"
  by (auto simp: quiet_def st_def magics_def fun_eq_iff)

lemma quiet_sema_upd [simp]:
  "(\<And>x. s_waiters (f x) = s_waiters x) \<Longrightarrow> quiet [] k (set_sema s f k)"
  by (auto simp: quiet_def st_def magics_def fun_eq_iff)

lemma exec_quiet_pushing:
  assumes ex: "exec w c k = Some k'"
  shows "c = Lock_acquire l \<Longrightarrow> quiet_result c k k'" "c = Lock_release l \<Longrightarrow> quiet_result c k k'"
    "c = Cond_wait v l s \<Longrightarrow> semas k s = None \<Longrightarrow> quiet_result c k k'"
    "c = Idle_halt \<Longrightarrow> quiet_result c k k'" "c = Timer_sleep n \<Longrightarrow> quiet_result c k k'"
    "c = Exit_code i \<Longrightarrow> quiet_result c k k'" "c = Thread_exit \<Longrightarrow> quiet_result c k k'"
    "c = Exit_own \<Longrightarrow> quiet_result c k k'"
  using ex
  by (auto simp: call_defs Let_def bind_eq_Some_conv fun_upd_same intro!: quiet_resultI pushes.intros)

lemma exec_quiet_plain:
  assumes ex: "exec w c k = Some k'"
  shows "c = Sema_init s v \<Longrightarrow> semas k s = None \<Longrightarrow> quiet_result c k k'"
    "c = Lock_init l \<Longrightarrow> semas k (lock_sema l) = None \<Longrightarrow> quiet_result c k k'"
    "c = Lock_owned l \<Longrightarrow> quiet_result c k k'" "c = Cond_init v \<Longrightarrow> quiet_result c k k'"
    "c = Set_level b \<Longrightarrow> quiet_result c k k'" "c = Iret \<Longrightarrow> quiet_result c k k'"
    "c = Kernel_thread \<Longrightarrow> quiet_result c k k'" "c = Next_tid p \<Longrightarrow> quiet_result c k k'"
    "c = Wait_reap ws \<Longrightarrow> quiet_result c k k'" "c = Exit_reap ws \<Longrightarrow> quiet_result c k k'"
    "c = Ref_dec ws \<Longrightarrow> quiet_result c k k'" "c = Exit_vm \<Longrightarrow> quiet_result c k k'"
  using ex
  by (auto simp: call_defs level_defs Let_def bind_eq_Some_conv split: if_splits intro!: quiet_resultI0 [OF _ pushes.intros(1)])

lemma quiet_resultI_if:
  assumes "quiet [] k k1" "quiet [] k k2" "pushes c ps" "quiet_call c" "c \<noteq> Idle_halt" "c \<noteq> Thread_exit"
  shows "quiet_result c k (if b then push_calls ps k1 else k2)" "quiet_result c k (if b then k2 else push_calls ps k1)"
  using assms by (simp_all add: quiet_resultI quiet_resultI0 pushes.intros(1))

lemma exec_quiet_branching:
  assumes ex: "exec w c k = Some k'"
  shows "c = Cond_broadcast v l \<Longrightarrow> quiet_result c k k'" "c = Sleep_loop start n \<Longrightarrow> quiet_result c k k'"
    "c = Exit_signal ws \<Longrightarrow> quiet_result c k k'"
  using ex
  by (auto simp: cond_broadcast_def sleep_loop_def exit_signal_def free_ws_def bind_eq_Some_conv
      simp del: if_split intro!: quiet_resultI_if pushes.intros)

lemma exec_quiet_process:
  assumes ex: "exec w c k = Some k'"
  shows "c = Exec_wait \<Longrightarrow> quiet_result c k k'" "c = Process_wait tid \<Longrightarrow> quiet_result c k k'"
proof -
  assume c: "c = Exec_wait"
  then obtain ws where "k' = k \<or> k' = push_calls [Sema_down (ws_load_finished ws)] k"
    using ex by (auto simp: exec_wait_def Let_def bind_eq_Some_conv split: if_splits)
  with c show "quiet_result c k k'"
    by (auto intro: quiet_resultI pushes.intros(11) quiet_resultI0 [OF _ pushes.intros(1)])
next
  assume c: "c = Process_wait tid"
  then obtain ws where "k' = set_eax (- 1) k \<or> k' = push_calls [Wait_reap ws] k \<or> k' = push_calls [Sema_down (ws_dead ws), Wait_reap ws] k"
    using ex by (auto simp: process_wait_def Let_def bind_eq_Some_conv split: if_splits)
  with c show "quiet_result c k k'"
    by (auto intro: quiet_resultI pushes.intros(14,15) quiet_resultI0 [OF _ pushes.intros(1)])
qed

lemma exec_quiet_start:
  assumes ex: "exec w (Start_process ok) k = Some k'"
  shows "quiet_result (Start_process ok) k k'"
proof -
  obtain x ws where "k' = (if \<not> ok then push_calls [Sema_up (ws_load_finished ws), Thread_exit] (k\<lparr>wstats := x\<rparr>)
      else push_calls [Sema_up (ws_load_finished ws)] k)"
    using ex by (auto simp: start_process_def Let_def bind_eq_Some_conv)
  then show ?thesis
    by (cases ok) (auto intro: quiet_resultI pushes.intros(12,13))
qed

lemma exec_quiet_list:
  assumes ex: "exec w c k = Some k'"
  shows "c = Cond_signal v l \<Longrightarrow> quiet_result c k k'" "c = Exit_children vs \<Longrightarrow> quiet_result c k k'"
proof -
  assume c: "c = Cond_signal v l"
  then obtain f s where "k' = k \<or> k' = push_calls [Sema_up s] (k\<lparr>conds := f\<rparr>)"
    using ex by (auto simp: cond_signal_def bind_eq_Some_conv split: list.splits) (metis neq_Nil_conv)+
  with c show "quiet_result c k k'"
    by (auto intro: quiet_resultI pushes.intros(6) quiet_resultI0 [OF _ pushes.intros(1)])
next
  assume c: "c = Exit_children vs"
  show "quiet_result c k k'"
  proof (cases vs)
    case Nil
    with c ex show ?thesis
      by (auto intro: quiet_resultI0 [OF _ pushes.intros(1)])
  next
    case (Cons u us)
    then have "k' = push_calls [Lock_acquire (ws_lock u), Ref_dec u, Lock_release (ws_lock u), Exit_reap u, Exit_children us] k"
      using ex c by (auto simp: bind_eq_Some_conv ref_dec_calls_def)
    with c show ?thesis
      by (auto intro: quiet_resultI pushes.intros)
  qed
qed

lemma exec_quiet_try:
  assumes ex: "exec w c k = Some k'"
  shows "c = Sema_try_down s \<Longrightarrow> quiet_result c k k'" "c = Lock_try_acquire l \<Longrightarrow> quiet_result c k k'"
proof -
  have try_quiet: "quiet [] k k1" if "sema_try_down s k = Some (b, k1)" for s b k1
    using that by (elim sema_try_down_effect) (auto split: if_splits)
  {
    assume c: "c = Sema_try_down s"
    then obtain b k1 where k1: "sema_try_down s k = Some (b, k1)" and "k' = set_eax (of_bool b) k1"
      using ex by auto
    with c try_quiet [OF k1] show "quiet_result c k k'"
      by (auto intro: quiet_resultI0 [OF _ pushes.intros(1)])
  next
    assume c: "c = Lock_try_acquire l"
    then obtain b k1 where k1: "sema_try_down (lock_sema l) k = Some (b, k1)"
      and k': "k' = (if b then push_calls [Lock_owned l] (set_eax (of_bool b) k1) else set_eax (of_bool b) k1)"
      using ex by (auto simp: lock_try_acquire_def Let_def bind_eq_Some_conv)
    show "quiet_result c k k'"
      unfolding k' c using try_quiet [OF k1] by (intro quiet_resultI_if pushes.intros(3)) simp_all
  }
qed

theorem exec_quiet:
  assumes ex: "exec w c k = Some k'" and q: "quiet_call c"
    and fresh: "\<And>s v. c = Sema_init s v \<Longrightarrow> semas k s = None" "\<And>l. c = Lock_init l \<Longrightarrow> semas k (lock_sema l) = None"
      "\<And>b l s. c = Cond_wait b l s \<Longrightarrow> semas k s = None"
  shows "quiet_result c k k'"
  using q fresh exec_quiet_pushing [OF ex] exec_quiet_plain [OF ex] exec_quiet_branching [OF ex] exec_quiet_process [OF ex]
    exec_quiet_list [OF ex] exec_quiet_try [OF ex] exec_quiet_start ex
  by (cases c) simp_all

section \<open>Calls that do\<close>

lemma thread_block_effect:
  assumes "thread_block k = Some k'"
  shows "schedule (set_status (running k) THREAD_BLOCKED k) = Some k' \<and> \<not> intr_on k \<and> st k (running k) = Some THREAD_RUNNING"
  using assms by (auto simp: thread_block_def level_defs bind_eq_Some_conv thread_current_eq)

lemma thread_unblock_effect:
  assumes "thread_unblock t k = Some k'"
  shows "k' = set_status t THREAD_READY (k\<lparr>ready_list := ready_list k @ [t]\<rparr>) \<and> is_thread t k \<and> st k t = Some THREAD_BLOCKED"
  using assms by (auto simp: thread_unblock_def level_defs Let_def bind_eq_Some_conv st_def set_status_def upd_thread_def
      split: if_splits)

lemma sema_retry_effect:
  assumes "sema_retry s b k = Some k'"
  obtains (wait) x where "semas k s = Some x" "s_value x = 0"
      "thread_block (push_calls [Sema_retry s b] (set_sema s (\<lambda>x. x\<lparr>s_waiters := s_waiters x @ [running k]\<rparr>) k)) = Some k'"
    | (pass) x where "semas k s = Some x" "0 < s_value x"
      "k' = (set_sema s (\<lambda>x. x\<lparr>s_value := s_value x - 1\<rparr>) k)\<lparr>intr_on := b\<rparr>"
  using assms
  by (auto simp: sema_retry_def Let_def bind_eq_Some_conv intr_set_level_eq thread_current_eq split: if_splits)

lemma sema_down_effect:
  assumes "sema_down s k = Some k'"
  shows "sema_retry s (intr_on k) (k\<lparr>intr_on := False\<rparr>) = Some k'"
  using assms by (auto simp: sema_down_def level_defs Let_def bind_eq_Some_conv)

lemma sema_up_effect:
  assumes "sema_up s k = Some k'"
  obtains (none) x where "semas k s = Some x" "s_waiters x = []"
      "k' = (set_sema s (\<lambda>x. x\<lparr>s_value := szt (s_value x + 1)\<rparr>) k)\<lparr>intr_on := intr_on k\<rparr>"
    | (wake) x t ts where "semas k s = Some x" "s_waiters x = t # ts" "is_thread t k" "st k t = Some THREAD_BLOCKED"
      "k' = (set_sema s (\<lambda>x. x\<lparr>s_waiters := ts, s_value := szt (s_value x + 1)\<rparr>)
         (set_status t THREAD_READY (k\<lparr>ready_list := ready_list k @ [t]\<rparr>)))\<lparr>intr_on := intr_on k\<rparr>"
proof -
  let ?k0 = "k\<lparr>intr_on := False\<rparr>"
  obtain x k1 where x: "semas k s = Some x"
    and k1: "(case s_waiters x of [] \<Rightarrow> Some ?k0
      | t # ts \<Rightarrow> thread_unblock t (set_sema s (\<lambda>x. x\<lparr>s_waiters := ts\<rparr>) ?k0)) = Some k1"
    and k': "k' = (set_sema s (\<lambda>x. x\<lparr>s_value := szt (s_value x + 1)\<rparr>) k1)\<lparr>intr_on := intr_on k\<rparr>"
    using assms unfolding sema_up_def intr_disable_def intr_get_level_def Let_def bind_eq_Some_conv
    by (auto simp: intr_set_level_eq bind_eq_Some_conv simp del: set_sema_simps)
  show ?thesis
  proof (cases "s_waiters x")
    case Nil
    then have "k1 = ?k0"
      using k1 by simp
    then show ?thesis
      using none [OF x Nil] k' by (simp add: set_sema_def)
  next
    case (Cons t ts)
    then have "thread_unblock t (set_sema s (\<lambda>x. x\<lparr>s_waiters := ts\<rparr>) ?k0) = Some k1"
      using k1 by simp
    note u = thread_unblock_effect [OF this]
    have t: "is_thread t k" "st k t = Some THREAD_BLOCKED"
      using u by (simp_all add: is_thread_def st_def)
    have "k' = (set_sema s (\<lambda>x. x\<lparr>s_waiters := ts, s_value := szt (s_value x + 1)\<rparr>)
         (set_status t THREAD_READY (k\<lparr>ready_list := ready_list k @ [t]\<rparr>)))\<lparr>intr_on := intr_on k\<rparr>"
      unfolding k' conjunct1 [OF u] using x by (simp add: set_sema_def set_status_def upd_thread_def)
    with x Cons t show ?thesis
      by (rule wake)
  qed
qed

lemma thread_yield_effect:
  assumes "thread_yield k = Some k'"
  shows "st k (running k) = Some THREAD_RUNNING \<and> \<not> in_external_intr k
    \<and> schedule (push_calls [Set_level (intr_on k)] (set_status (running k) THREAD_READY
         (k\<lparr>intr_on := False, ready_list := ready_list k @ (if running k \<noteq> idle_thread k then [running k] else [])\<rparr>))) = Some k'"
  using assms by (auto simp: thread_yield_def level_defs Let_def bind_eq_Some_conv thread_current_eq)

lemma thread_die_effect:
  assumes "thread_die k = Some k'"
  shows "running k \<in> set (all_list k) \<and> st k (running k) = Some THREAD_RUNNING
    \<and> schedule (set_status (running k) THREAD_DYING (k\<lparr>intr_on := False,
         all_list := remove1 (running k) (all_list k), frames := (frames k)(running k := [])\<rparr>)) = Some k'"
  using assms by (auto simp: thread_die_def level_defs Let_def bind_eq_Some_conv thread_current_eq is_thread_def st_def)

lemma init_thread_effect:
  assumes "init_thread p nm pri k = Some k'"
  obtains th where "k' = k\<lparr>threads := (threads k)(p \<mapsto> th), all_list := all_list k @ [p], intr_on := intr_on k\<rparr>"
    "t_status th = THREAD_BLOCKED" "t_magic th = THREAD_MAGIC" "p \<noteq> 0"
  using assms by (cases "intr_on k") (auto simp: init_thread_def level_defs Let_def bind_eq_Some_conv)

lemma thread_create_effect:
  assumes "thread_create p nm pri fs k = Some k'" "p \<noteq> 0"
  obtains th where "k' = push_calls (alloc_tid_calls p @ [Create_finish p fs])
      (k\<lparr>threads := (threads k)(p \<mapsto> th), all_list := all_list k @ [p], intr_on := intr_on k\<rparr>)"
    "t_status th = THREAD_BLOCKED" "t_magic th = THREAD_MAGIC"
  using assms by (auto simp: thread_create_def bind_eq_Some_conv elim!: init_thread_effect)

text \<open>The objects a new \<open>struct wait_status\<close> brings with it.\<close>

definition with_ws :: "nat \<Rightarrow> int \<Rightarrow> kst \<Rightarrow> kst" where
  "with_ws w tid k = k\<lparr>holder := (holder k)(ws_lock w \<mapsto> 0),
     semas := (semas k)(lock_sema (ws_lock w) \<mapsto> \<lparr>s_value = 1, s_waiters = []\<rparr>,
       ws_dead w \<mapsto> \<lparr>s_value = 0, s_waiters = []\<rparr>, ws_load_finished w \<mapsto> \<lparr>s_value = 0, s_waiters = []\<rparr>),
     wstats := (wstats k)(w \<mapsto> \<lparr>ws_ref_cnt = 2, ws_tid = tid, ws_exit_code = 0, ws_load_code = 0\<rparr>)\<rparr>"

definition same_threads :: "kst \<Rightarrow> kst \<Rightarrow> bool" where
  "same_threads k k' \<longleftrightarrow> st k' = st k \<and> magics k' = magics k"

lemma thread_create_finish_effect:
  assumes "thread_create_finish p fs w k = Some k'"
  obtains ths tid where "same_threads k (k\<lparr>threads := ths\<rparr>)" "st k p = Some THREAD_BLOCKED"
    "k' = set_eax tid (set_status p THREAD_READY ((with_ws w tid k)\<lparr>threads := ths,
      frames := (frames k)(p := Kernel_thread # fs), ready_list := ready_list k @ [p]\<rparr>))"
proof -
  obtain th k2 k3 k4 k5 k6 where th: "threads k p = Some th" and k2: "init_wait_status p w k = Some k2"
    and k3: "alloc_frame p 12 k2 = Some k3" and k4: "alloc_frame p 4 k3 = Some k4" and k5: "alloc_frame p 28 k4 = Some k5"
    and k6: "thread_unblock p (k5\<lparr>frames := (frames k5)(p := Kernel_thread # fs)\<rparr>) = Some k6"
    and k': "k' = set_eax (t_tid th) k6"
    using assms by (auto simp: thread_create_finish_def bind_eq_Some_conv)
  let ?P = "\<lambda>k2. \<exists>ths. same_threads k (k\<lparr>threads := ths\<rparr>) \<and> k2 = (with_ws w (t_tid th) k)\<lparr>threads := ths\<rparr>"
  have upd: "?P (upd_thread t f k2)" if P: "?P k2" and f: "\<And>x. t_status (f x) = t_status x" "\<And>x. t_magic (f x) = t_magic x" for t f k2
  proof -
    obtain ths where ths: "same_threads k (k\<lparr>threads := ths\<rparr>)" "k2 = (with_ws w (t_tid th) k)\<lparr>threads := ths\<rparr>"
      using P by blast
    then show ?thesis
      using f by (intro exI [of _ "ths(t := map_option f (ths t))"])
        (auto simp: same_threads_def st_def magics_def fun_eq_iff upd_thread_def option.map_comp comp_def)
  qed
  have "?P (with_ws w (t_tid th) k)"
    by (intro exI [of _ "threads k"]) (simp add: same_threads_def with_ws_def)
  moreover have "k2 = upd_thread p (\<lambda>x. x\<lparr>t_wait_status := w\<rparr>)
      (upd_thread (running k) (\<lambda>x. x\<lparr>t_children := t_children x @ [w]\<rparr>) (with_ws w (t_tid th) k))"
    using k2 th by (auto simp: init_wait_status_def lock_init_def sema_init_def Let_def bind_eq_Some_conv thread_current_eq with_ws_def upd_thread_def)
  ultimately have e2: "?P k2"
    by (simp only:) (intro upd, simp_all)
  have af: "?P k3" if P: "?P k2" and a: "alloc_frame p n k2 = Some k3" for k2 k3 n
  proof -
    have "k3 = upd_thread p (\<lambda>x. x\<lparr>t_stack := t_stack x - n\<rparr>) k2"
      using a by (auto simp: alloc_frame_def bind_eq_Some_conv)
    then show ?thesis
      using P by (simp only:) (intro upd, simp_all)
  qed
  obtain ths where ths: "same_threads k (k\<lparr>threads := ths\<rparr>)" "k5 = (with_ws w (t_tid th) k)\<lparr>threads := ths\<rparr>"
    using af [OF af [OF af [OF e2 k3] k4] k5] by blast
  note u = thread_unblock_effect [OF k6]
  have "map_option t_status (ths p) = st k p"
    using ths(1) by (simp add: same_threads_def st_def fun_eq_iff)
  then have "st k p = Some THREAD_BLOCKED"
    using u ths(2) by (simp add: st_def)
  moreover have "k' = set_eax (t_tid th) (set_status p THREAD_READY ((with_ws w (t_tid th) k)\<lparr>threads := ths,
      frames := (frames k)(p := Kernel_thread # fs), ready_list := ready_list k @ [p]\<rparr>))"
    using u ths(2) k' by (simp add: with_ws_def)
  ultimately show ?thesis
    by (rule that [OF ths(1)])
qed

end
