(* ===== verification/Sched_Fair.thy ===== *)
theory Sched_Fair
  imports Sched
begin

text \<open>
  Every step either leaves the processor to the running thread and at most appends to the
  run queue, or gives it to the head of the queue.  From this follows a bound on the number
  of timer interrupts a ready thread waits for the processor.
\<close>

definition keeps_cpu :: "nat \<Rightarrow> kst \<Rightarrow> kst \<Rightarrow> bool" where
  "keeps_cpu n k k' \<longleftrightarrow> running k' = running k \<and> (\<exists>xs. ready_list k' = ready_list k @ xs) \<and> thread_ticks k' = thread_ticks k + n"

definition switches :: "kst \<Rightarrow> kst \<Rightarrow> bool" where
  "switches k k' \<longleftrightarrow> (ready_list k = [] \<or> (\<exists>xs. ready_list k @ xs = running k' # ready_list k')) \<and> thread_ticks k' = 0"

lemma schedule_switches:
  assumes "schedule k1 = Some k'" "ready_list k1 = ready_list k @ xs"
  shows "switches k k'"
  using schedule_effect [OF assms(1)] assms(2) by (auto simp: switches_def)

lemma exec_quiet_queue:
  assumes "exec w c k = Some k'" "quiet_call c"
  shows "keeps_cpu 0 k k'"
proof (cases "(\<exists>s v. c = Sema_init s v) \<or> (\<exists>l. c = Lock_init l) \<or> (\<exists>b l s. c = Cond_wait b l s)")
  case True
  then show ?thesis
    using assms by (auto simp: keeps_cpu_def sema_init_def lock_init_def cond_wait_def Let_def bind_eq_Some_conv)
next
  case False
  then have "quiet_result c k k'"
    using assms by (intro exec_quiet) auto
  then show ?thesis
    by (auto simp: quiet_result_def quiet_def keeps_cpu_def)
qed

lemma sema_retry_queue:
  assumes "sema_retry s b k = Some k'"
  shows "keeps_cpu 0 k k' \<or> switches k k'"
  using assms
proof (cases rule: sema_retry_effect)
  case (wait x)
  then show ?thesis
    using schedule_switches [OF conjunct1 [OF thread_block_effect], of _ k' k "[]"] by simp
next
  case (pass x)
  then show ?thesis
    by (simp add: keeps_cpu_def)
qed

lemma create_queue:
  assumes "thread_create p nm pri fs k1 = Some k'"
    and "running k1 = running k" "ready_list k1 = ready_list k" "thread_ticks k1 = thread_ticks k"
  shows "keeps_cpu 0 k k'"
  using assms
  by (cases "p = 0") (auto simp: keeps_cpu_def thread_create_def bind_eq_Some_conv elim!: init_thread_effect)

lemma thread_yield_queue:
  assumes "thread_yield k = Some k'"
  shows "switches k k'"
  using thread_yield_effect [OF assms] by (elim conjE) (rule schedule_switches, auto)

lemma exec_queue:
  assumes ex: "exec w c k = Some k'"
  shows "keeps_cpu 0 k k' \<or> switches k k'"
proof (cases "quiet_call c")
  case True
  then show ?thesis
    using exec_quiet_queue [OF ex] by simp
next
  case False
  then show ?thesis
  proof (cases c)
    case (Sema_down s)
    then show ?thesis
      using ex sema_retry_queue [OF sema_down_effect, of s k k'] by (auto simp: keeps_cpu_def switches_def)
  next
    case (Sema_retry s b)
    then show ?thesis
      using ex sema_retry_queue by simp
  next
    case (Sema_up s)
    then have "sema_up s k = Some k'"
      using ex by simp
    then show ?thesis
      by (cases rule: sema_up_effect) (auto simp: keeps_cpu_def)
  next
    case Thread_yield
    then show ?thesis
      using ex thread_yield_queue by simp
  next
    case Thread_die
    then show ?thesis
      using schedule_switches [OF conjunct2 [OF conjunct2 [OF thread_die_effect]], of k k' k "[]"] ex by simp
  next
    case (Thread_create p nm pri fs)
    then show ?thesis
      using ex create_queue by simp
  next
    case (Process_execute p nm ok)
    then show ?thesis
      using ex create_queue [of p _ _ _ "push_calls [Exec_wait] k" k' k] by (simp add: process_execute_def)
  next
    case (Thread_start s q)
    then obtain k1 where "sema_init s 0 k = Some k1"
      and "thread_create q [105, 100, 108, 101, 0] PRI_MIN [Idle s] (push_calls [Set_level True, Sema_down s] k1) = Some k'"
      using ex by (auto simp: thread_start_def Let_def bind_eq_Some_conv)
    then show ?thesis
      using create_queue [of q _ _ _ "push_calls [Set_level True, Sema_down s] k1" k' k]
      by (auto simp: sema_init_def bind_eq_Some_conv)
  next
    case (Create_finish p fs)
    then have "thread_create_finish p fs w k = Some k'"
      using ex by simp
    then show ?thesis
      by (cases rule: thread_create_finish_effect) (auto simp: keeps_cpu_def with_ws_def)
  next
    case (Idle s)
    then show ?thesis
      using ex by (auto simp: idle_begin_def bind_eq_Some_conv keeps_cpu_def)
  next
    case Idle_loop
    then have "thread_block (push_calls [Idle_halt] (k\<lparr>intr_on := False\<rparr>)) = Some k'"
      using ex by (simp add: idle_loop_def intr_disable_def)
    then show ?thesis
      using schedule_switches [OF conjunct1 [OF thread_block_effect], of _ k' k "[]"] by simp
  qed simp_all
qed

definition same_sched :: "kst \<Rightarrow> kst \<Rightarrow> bool" where
  "same_sched k k' \<longleftrightarrow> threads k' = threads k \<and> running k' = running k \<and> ready_list k' = ready_list k \<and> intr_on k' = intr_on k \<and> same_objs k k'"

lemma thread_tick_effect:
  assumes "thread_tick k = Some k'"
  shows "same_sched k k' \<and> thread_ticks k' = szt (thread_ticks k + 1)
    \<and> (yield_on_return k' \<longleftrightarrow> yield_on_return k \<or> TIME_SLICE \<le> szt (thread_ticks k + 1))"
proof -
  obtain t th where t: "thread_current k = Some t" "threads k t = Some th"
    using assms by (auto simp: thread_tick_def bind_eq_Some_conv)
  define k1 where "k1 = (if t = idle_thread k then k\<lparr>idle_ticks := idle_ticks k + 1\<rparr>
              else if t_pagedir th \<noteq> 0 then k\<lparr>user_ticks := user_ticks k + 1\<rparr>
              else k\<lparr>kernel_ticks := kernel_ticks k + 1\<rparr>)\<lparr>thread_ticks := szt (thread_ticks k + 1)\<rparr>"
  have "same_sched k k1" "thread_ticks k1 = szt (thread_ticks k + 1)" "yield_on_return k1 = yield_on_return k"
    by (simp_all add: k1_def same_sched_def same_objs_def)
  moreover have "(if thread_ticks k1 \<ge> TIME_SLICE then intr_yield_on_return k1 else Some k1) = Some k'"
    using assms t unfolding thread_tick_def k1_def
    by (cases "t = idle_thread k"; cases "t_pagedir th = 0") (simp_all add: Let_def cong: if_cong)
  ultimately show ?thesis
    by (cases "TIME_SLICE \<le> thread_ticks k1")
      (auto simp: intr_yield_on_return_def bind_eq_Some_conv same_sched_def same_objs_def)
qed

lemma take_interrupt_effect:
  assumes ti: "take_interrupt k = Some k'" and t: "thread_ticks k < TIME_SLICE"
  obtains (stay) k1 where "k' = k1" "quiet [Iret] (k\<lparr>thread_ticks := thread_ticks k + 1\<rparr>) k1" "\<not> intr_on k1" "semas k1 = semas k"
      "holder k1 = holder k" "conds k1 = conds k" "wstats k1 = wstats k" "thread_ticks k + 1 < TIME_SLICE" "\<not> in_external_intr k"
    | (yield) k1 where "thread_yield k1 = Some k'" "quiet [Iret] (k\<lparr>thread_ticks := thread_ticks k + 1\<rparr>) k1" "\<not> intr_on k1" "semas k1 = semas k"
      "holder k1 = holder k" "conds k1 = conds k" "wstats k1 = wstats k" "thread_ticks k + 1 = TIME_SLICE" "\<not> in_external_intr k"
proof -
  let ?k0 = "(push_calls [Iret] (k\<lparr>intr_on := False\<rparr>))\<lparr>in_external_intr := True, yield_on_return := False\<rparr>"
  obtain k2 where ext: "\<not> in_external_intr k" and k2: "timer_interrupt ?k0 = Some k2"
    and k': "(if yield_on_return k2 then thread_yield (k2\<lparr>in_external_intr := False\<rparr>) else Some (k2\<lparr>in_external_intr := False\<rparr>)) = Some k'"
    using ti by (auto simp: take_interrupt_def intr_handler_def level_defs Let_def bind_eq_Some_conv)
  let ?k1 = "k2\<lparr>in_external_intr := False\<rparr>"
  have t': "szt (thread_ticks k + 1) = thread_ticks k + 1"
    using t by (simp add: szt_def TIME_SLICE_def)
  have q: "quiet [Iret] (k\<lparr>thread_ticks := thread_ticks k + 1\<rparr>) ?k1 \<and> \<not> intr_on k2 \<and> semas k2 = semas k \<and> holder k2 = holder k
      \<and> conds k2 = conds k \<and> wstats k2 = wstats k \<and> (yield_on_return k2 \<longleftrightarrow> thread_ticks k + 1 \<ge> TIME_SLICE)"
    using thread_tick_effect [OF k2 [unfolded timer_interrupt_def]] ext t'
    by (simp add: same_sched_def same_objs_def quiet_def st_def magics_def fun_eq_iff)
  show ?thesis
  proof (cases "yield_on_return k2")
    case True
    then show ?thesis
      using yield [of ?k1] q k' t ext by (simp add: not_less)
  next
    case False
    then show ?thesis
      using stay [of ?k1] q k' t ext by (simp add: not_less)
  qed
qed

lemma kstep_queue:
  assumes "kstep a k k'" "thread_ticks k < TIME_SLICE"
  shows "keeps_cpu (if a = Tick then 1 else 0) k k' \<and> thread_ticks k' < TIME_SLICE \<or> switches k k'"
  using assms(1)
proof cases
  case (run c fs w)
  then show ?thesis
    using exec_queue [of w c "pop_call k" k'] assms(2) by (auto simp: keeps_cpu_def switches_def)
next
  case (call c w)
  then show ?thesis
    using exec_queue [of w c k k'] assms(2) by (auto simp: keeps_cpu_def switches_def)
next
  case tick
  from tick(3) assms(2) show ?thesis
  proof (cases rule: take_interrupt_effect)
    case (stay k1)
    then show ?thesis
      using tick by (simp add: quiet_def keeps_cpu_def)
  next
    case (yield k1)
    then show ?thesis
      using thread_yield_queue [of k1 k'] by (auto simp: quiet_def switches_def)
  qed
qed

lemma kstep_ticks: "kstep a k k' \<Longrightarrow> thread_ticks k < TIME_SLICE \<Longrightarrow> thread_ticks k' < TIME_SLICE"
  using kstep_queue [of a k k'] by (auto simp: switches_def TIME_SLICE_def)

lemma kreach_ticks: "kreach k \<Longrightarrow> thread_ticks k < TIME_SLICE"
proof (induction rule: kreach.induct)
  case (boot p k)
  then show ?case
    by (auto simp: thread_init_def boot_state_def lock_init_def sema_init_def Let_def bind_eq_Some_conv TIME_SLICE_def
        elim!: init_thread_effect)
next
  case (step k a k')
  then show ?case
    using kstep_ticks by blast
qed

section \<open>Bounded waiting\<close>

text \<open>
  How many timer interrupts a thread at position \<open>i\<close> of the run queue waits at most.  The
  threads in front of it and the running thread use up a time slice each.
\<close>

definition wait_bound :: "nat \<Rightarrow> kst \<Rightarrow> nat" where
  "wait_bound i k = TIME_SLICE * (i + 1) - thread_ticks k"

definition count_ticks :: "(label \<times> kst) list \<Rightarrow> nat" where
  "count_ticks tr = length (filter (\<lambda>(a, k). a = Tick) tr)"

lemma kstep_wait_bound:
  assumes st: "kstep a k k'" and t: "thread_ticks k < TIME_SLICE" and i: "i < length (ready_list k)"
  obtains (runs) "running k' = ready_list k ! i"
    | (waits) j where "j < length (ready_list k')" "ready_list k' ! j = ready_list k ! i"
      "wait_bound j k' + (if a = Tick then 1 else 0) \<le> wait_bound i k"
  using kstep_queue [OF st t]
proof
  assume *: "keeps_cpu (if a = Tick then 1 else 0) k k' \<and> thread_ticks k' < TIME_SLICE"
  then show ?thesis
    using waits [of i] i t by (auto simp: keeps_cpu_def nth_append wait_bound_def TIME_SLICE_def split: if_splits)
next
  assume *: "switches k k'"
  then obtain xs where xs: "ready_list k @ xs = running k' # ready_list k'"
    using i by (auto simp: switches_def)
  have nth: "(running k' # ready_list k') ! i = ready_list k ! i"
    unfolding xs [symmetric] using i by (simp add: nth_append)
  show ?thesis
  proof (cases i)
    case 0
    then show ?thesis
      using runs nth by simp
  next
    case (Suc j)
    moreover have "Suc j < length (running k' # ready_list k')"
      unfolding xs [symmetric] using i Suc by simp
    ultimately show ?thesis
      using waits [of j] nth * t by (cases "a = Tick") (simp_all add: switches_def wait_bound_def TIME_SLICE_def)
  qed
qed

lemma trace_wait_bound:
  assumes "trace k tr" "thread_ticks k < TIME_SLICE" "i < length (ready_list k)" "wait_bound i k \<le> count_ticks tr"
  shows "\<exists>(a, k') \<in> set tr. running k' = ready_list k ! i"
  using assms
proof (induction arbitrary: i rule: trace.induct)
  case (trace_nil k)
  then show ?case
    by (auto simp: wait_bound_def count_ticks_def TIME_SLICE_def)
next
  case (trace_cons a k k' tr)
  from trace_cons.hyps(1) trace_cons.prems(1,2) show ?case
  proof (cases rule: kstep_wait_bound)
    case runs
    then show ?thesis
      by auto
  next
    case (waits j)
    then have "wait_bound j k' \<le> count_ticks tr"
      using trace_cons.prems(3) by (auto simp: count_ticks_def split: if_splits)
    then show ?thesis
      using trace_cons.IH [of j] waits kstep_ticks [OF trace_cons.hyps(1) trace_cons.prems(1)] by auto
  qed
qed

section \<open>Executions as functions\<close>

text \<open>
  A scheduler that is told for every step which kind of step to take, and which address
  \<open>malloc\<close> returns in it.
\<close>

fun next_state :: "label \<Rightarrow> nat \<Rightarrow> kst \<Rightarrow> kst option" where
  "next_state Run w k = (case frames k (running k) of
      c # fs \<Rightarrow> if fresh_ws w k then exec w c (pop_call k) else None | [] \<Rightarrow> None)"
| "next_state (Call c) w k = (if frames k (running k) = [] \<and> legal c k \<and> fresh_ws w k then exec w c k else None)"
| "next_state Tick w k = (if intr_on k then take_interrupt k else None)"

fun run_trace :: "(label \<times> nat) list \<Rightarrow> kst \<Rightarrow> (label \<times> kst) list option" where
  "run_trace [] k = Some []"
| "run_trace ((a, w) # ls) k = do {
     k' \<leftarrow> next_state a w k;
     tr \<leftarrow> run_trace ls k';
     Some ((a, k') # tr) }"

fun run_state :: "(label \<times> nat) list \<Rightarrow> kst \<Rightarrow> kst option" where
  "run_state [] k = Some k"
| "run_state ((a, w) # ls) k = do { k' \<leftarrow> next_state a w k; run_state ls k' }"

lemma next_state_kstep: "next_state a w k = Some k' \<Longrightarrow> kstep a k k'"
  by (cases a) (auto intro: kstep.intros split: list.splits if_splits)

lemma run_trace_trace: "run_trace ls k = Some tr \<Longrightarrow> trace k tr"
  by (induction ls k arbitrary: tr rule: run_trace.induct)
    (auto simp: bind_eq_Some_conv intro: trace.intros next_state_kstep)

lemma run_state_kreach: "run_state ls k = Some k' \<Longrightarrow> kreach k \<Longrightarrow> kreach k'"
proof (induction ls k rule: run_state.induct)
  case (2 a w ls k)
  then obtain k1 where k1: "next_state a w k = Some k1" "run_state ls k1 = Some k'"
    by (auto simp: bind_eq_Some_conv)
  then show ?case
    using 2 kreach.step [OF _ next_state_kstep] by blast
qed simp

lemma run_trace_ticks:
  "run_trace ls k = Some tr \<Longrightarrow> count_ticks tr = length (filter (\<lambda>(a, w). a = Tick) ls)"
  by (induction ls k arbitrary: tr rule: run_trace.induct) (auto simp: bind_eq_Some_conv count_ticks_def)

text \<open>
  An execution: the first thread gets its identifier, creates a second thread and turns
  interrupts on.
\<close>

definition demo_start :: "kst option" where
  "demo_start = thread_init (boot_state 0xc000e000)"

definition demo_steps :: "(label \<times> nat) list" where
  "demo_steps = [(Run, 0xc0030000), (Run, 0xc0030000), (Run, 0xc0030000), (Run, 0xc0030000), (Run, 0xc0030000), (Run, 0xc0030000),
     (Call (Thread_create 0xc0020000 [119, 0] PRI_DEFAULT []), 0xc0030000), (Run, 0xc0030000), (Run, 0xc0030000), (Run, 0xc0030000), (Run, 0xc0030000), (Run, 0xc0030000), (Run, 0xc0030000), (Run, 0xc0030000),
     (Call (Set_level True), 0xc0030100)]"

definition demo_state :: kst where
  "demo_state = the (do { k \<leftarrow> demo_start; run_state demo_steps k })"

text \<open>Four timer interrupts, and the returns from the first three.\<close>

definition demo_ticks :: "(label \<times> nat) list" where
  "demo_ticks = [(Tick, 0), (Run, 0xc0030100), (Tick, 0), (Run, 0xc0030100), (Tick, 0), (Run, 0xc0030100), (Tick, 0)]"

lemmas machine_eval = thread_init_def boot_state_def call_defs level_defs Let_def init_thread_def thread_current_def
  running_thread_def is_thread_def push_calls_def set_status_def upd_thread_def set_sema_def set_eax_def pop_call_def
  sema_down_def sema_retry_def sema_up_def alloc_tid_calls_def lock_sema_def tid_lock_def fresh_ws_def fresh_lock_def
  fresh_sema_def is_lock_sema_def user_sema_def ws_lock_def ws_dead_def ws_load_finished_def THREAD_MAGIC_def PRI_MIN_def PRI_MAX_def
  PRI_DEFAULT_def kassert_def szt_def thread_create_def thread_create_finish_def init_wait_status_def alloc_frame_def
  thread_unblock_def take_interrupt_def intr_handler_def timer_interrupt_def thread_tick_def intr_yield_on_return_def
  thread_yield_def thread_block_def schedule_def next_thread_to_run_def thread_schedule_tail_def process_activate_def TIME_SLICE_def

lemma demo_names:
  "strlcpy (replicate 16 0) [109, 97, 105, 110, 0] 16 = Some (4, [109, 97, 105, 110] @ replicate 12 0)"
  "strlcpy (replicate 16 0) [119, 0] 16 = Some (1, [119] @ replicate 15 0)"
  by code_simp+

lemma demo_evaluates:
  "map_option (\<lambda>k. (ready_list k, running k, Option.is_none (run_trace demo_ticks k)))
     (do { k \<leftarrow> demo_start; run_state demo_steps k }) = Some ([0xc0020000], 0xc000e000, False)"
  by (simp add: demo_start_def demo_steps_def demo_ticks_def machine_eval demo_names)

lemma demo_defined: "(do { k \<leftarrow> demo_start; run_state demo_steps k }) = Some demo_state"
  using demo_evaluates by (auto simp: demo_state_def)

lemmas demo_ready = demo_evaluates [unfolded demo_defined, simplified]

lemma demo_state_kreach: "kreach demo_state"
proof -
  obtain k k' where k: "demo_start = Some k" "run_state demo_steps k = Some k'"
    using demo_defined by (auto simp: bind_eq_Some_conv)
  have "kreach k"
    using k(1) by (intro kreach.boot [of "0xc000e000"]) (simp_all add: demo_start_def)
  then show ?thesis
    using run_state_kreach [OF k(2)] demo_defined [unfolded k(1)] k(2) by simp
qed

text \<open>
  C4: a ready thread gets the processor.  In every execution from a reachable state, whatever
  the threads do and however they are interleaved, the thread at position \<open>i\<close> of the run
  queue runs before \<open>4 * (i + 1)\<close> timer interrupts have been taken.
\<close>

theorem ready_thread_runs:
  assumes "kreach k" "trace k tr" "i < length (ready_list k)" "TIME_SLICE * (i + 1) \<le> count_ticks tr"
  shows "\<exists>(a, k') \<in> set tr. running k' = ready_list k ! i"
  using assms by (intro trace_wait_bound) (auto simp: kreach_ticks wait_bound_def)

theorem ready_thread_runs_witness:
  "\<exists>(a, k') \<in> set (the (run_trace demo_ticks demo_state)). running k' = 0xc0020000"
proof -
  obtain tr where tr: "run_trace demo_ticks demo_state = Some tr"
    using demo_ready by (auto simp: Option.is_none_def)
  show ?thesis
    using ready_thread_runs [OF demo_state_kreach run_trace_trace [OF tr], of 0] run_trace_ticks [OF tr] tr demo_ready
    by (simp add: TIME_SLICE_def demo_ticks_def)
qed

end
