(* ===== verification/Sched_Inv.thy ===== *)
theory Sched_Inv
  imports Sched_Fair
begin

text \<open>
  The invariant of the scheduler.  Exactly one thread runs; the run queue holds the ready
  threads, each once, except the idle thread; the wait list of a semaphore holds exactly
  the threads blocked inside \<open>sema_down\<close> on it; and a blocked thread that is on no wait
  list is the idle thread or still being created.  So no thread is ever on two lists, which
  the shared list element of \<open>struct thread\<close> relies on, and none is lost.
\<close>

section \<open>The invariant\<close>

text \<open>Calls that are started by a thread only while nothing else is on its stack.\<close>

definition inner_call :: "call \<Rightarrow> bool" where
  "inner_call c = (case c of
      Sema_init s v \<Rightarrow> False | Lock_init l \<Rightarrow> False | Cond_init v \<Rightarrow> False | Cond_wait v l s \<Rightarrow> False
    | Thread_create p nm pri fs \<Rightarrow> False | Thread_start s q \<Rightarrow> False | Process_execute p nm ok \<Rightarrow> False
    | Create_finish p cs \<Rightarrow> cs = [] \<or> (\<exists>b. cs = [Start_process b]) \<or> (\<exists>s. cs = [Idle s])
    | _ \<Rightarrow> True)"

definition is_retry :: "call \<Rightarrow> bool" where
  "is_retry c \<longleftrightarrow> (\<exists>s b. c = Sema_retry s b)"

text \<open>Calls that do not return to what is below them.\<close>

definition final_call :: "call \<Rightarrow> bool" where
  "final_call c = (case c of Thread_exit \<Rightarrow> True | Thread_die \<Rightarrow> True | Start_process b \<Rightarrow> True | Exit_code i \<Rightarrow> True | _ \<Rightarrow> False)"

text \<open>The calls of the idle thread.\<close>

definition idle_call :: "call \<Rightarrow> bool" where
  "idle_call c = (case c of Kernel_thread \<Rightarrow> True | Idle s \<Rightarrow> True | Sema_up s \<Rightarrow> True | Idle_loop \<Rightarrow> True | Idle_halt \<Rightarrow> True
    | Set_level b \<Rightarrow> True | Iret \<Rightarrow> True | _ \<Rightarrow> False)"

definition is_idle :: "call \<Rightarrow> bool" where
  "is_idle c \<longleftrightarrow> (\<exists>s. c = Idle s)"

definition is_idle_loop :: "call \<Rightarrow> bool" where
  "is_idle_loop c \<longleftrightarrow> c = Idle_loop \<or> c = Idle_halt"

lemmas class_defs = inner_call_def is_retry_def final_call_def idle_call_def is_idle_def is_idle_loop_def

definition stack_ok :: "call list \<Rightarrow> bool" where
  "stack_ok fs \<longleftrightarrow> (\<forall>f \<in> set fs. inner_call f) \<and> (\<forall>f \<in> set (butlast fs). \<not> final_call f) \<and> (\<forall>f \<in> set (tl fs). \<not> is_retry f)"

text \<open>
  Counting calls on stacks.  A token is a call that exists at most once; \<open>tk\<close> is the thread
  that has it on its stack.
\<close>

definition wsum :: "(call \<Rightarrow> int) \<Rightarrow> call list \<Rightarrow> int" where
  "wsum g fs = sum_list (map g fs)"

lemma wsum_simps [simp]: "wsum g [] = 0" "wsum g (f # fs) = g f + wsum g fs" "wsum g (fs @ gs) = wsum g fs + wsum g gs"
  by (simp_all add: wsum_def)

definition token :: "(call \<Rightarrow> int) \<Rightarrow> (nat \<Rightarrow> call list) \<Rightarrow> nat option \<Rightarrow> bool" where
  "token g fr tk \<longleftrightarrow> (\<forall>t. wsum g (fr t) = (if tk = Some t then 1 else 0))"

definition starts_idle :: "call \<Rightarrow> int" where
  "starts_idle c = (case c of Idle s \<Rightarrow> 1 | Create_finish p cs \<Rightarrow> of_bool (\<exists>s. cs = [Idle s]) | _ \<Rightarrow> 0)"

definition creates :: "nat \<Rightarrow> call \<Rightarrow> int" where
  "creates p c = (case c of Create_finish q cs \<Rightarrow> of_bool (p = q) | _ \<Rightarrow> 0)"

lemma starts_idle_simps [simp]:
  "starts_idle (Idle s) = 1" "starts_idle Kernel_thread = 0" "starts_idle (Start_process b) = 0"
  by (simp_all add: starts_idle_def)

lemma creates_simps [simp]:
  "creates p (Create_finish q cs) = of_bool (p = q)" "creates p (Idle s) = 0" "creates p Kernel_thread = 0"
  "creates p (Start_process b) = 0"
  by (simp_all add: creates_def)

definition ready_ok :: "kst \<Rightarrow> bool" where
  "ready_ok k \<longleftrightarrow> distinct (ready_list k)
     \<and> (\<forall>t. t \<in> set (ready_list k) \<longleftrightarrow> st k t = Some THREAD_READY \<and> t \<noteq> idle_thread k)"

definition all_ok :: "kst \<Rightarrow> bool" where
  "all_ok k \<longleftrightarrow> distinct (all_list k) \<and> (\<forall>t. t \<in> set (all_list k) \<longleftrightarrow> st k t \<noteq> None \<and> st k t \<noteq> Some THREAD_DYING)
     \<and> (\<forall>t. frames k t \<noteq> [] \<longrightarrow> t \<in> set (all_list k)) \<and> (\<forall>t m. magics k t = Some m \<longrightarrow> t \<noteq> 0 \<and> m = THREAD_MAGIC)"

definition wait_ok :: "kst \<Rightarrow> bool" where
  "wait_ok k \<longleftrightarrow> (\<forall>s x. semas k s = Some x \<longrightarrow> distinct (s_waiters x)
       \<and> (\<forall>t. t \<in> set (s_waiters x) \<longleftrightarrow> st k t = Some THREAD_BLOCKED \<and> (\<exists>b fs. frames k t = Sema_retry s b # fs)))
     \<and> (\<forall>t s b fs. frames k t = Sema_retry s b # fs \<longrightarrow> semas k s \<noteq> None)"

definition idle_ok :: "kst \<Rightarrow> bool" where
  "idle_ok k \<longleftrightarrow> (\<forall>t. t \<noteq> 0 \<and> t = idle_thread k \<or> (\<exists>f \<in> set (frames k t). is_idle f) \<longrightarrow> (\<forall>f \<in> set (frames k t). idle_call f))
     \<and> (\<forall>t. t \<noteq> 0 \<and> t = idle_thread k \<longleftrightarrow> (\<exists>f \<in> set (frames k t). is_idle_loop f))
     \<and> (\<exists>tk. token starts_idle (frames k) tk \<and> (idle_thread k \<noteq> 0 \<longrightarrow> tk = None))"

definition creating :: "kst \<Rightarrow> nat \<Rightarrow> bool" where
  "creating k p \<longleftrightarrow> st k p = Some THREAD_BLOCKED \<and> frames k p = []"

definition create_ok :: "kst \<Rightarrow> bool" where
  "create_ok k \<longleftrightarrow> (\<forall>p. if creating k p then \<exists>t. token (creates p) (frames k) (Some t) else token (creates p) (frames k) None)"

definition blocked_ok :: "kst \<Rightarrow> bool" where
  "blocked_ok k \<longleftrightarrow> (\<forall>t. st k t = Some THREAD_BLOCKED \<longrightarrow>
     (case frames k t of [] \<Rightarrow> True | f # fs \<Rightarrow> is_retry f \<or> f = Idle_halt))"

definition core_ok :: "kst \<Rightarrow> bool" where
  "core_ok k \<longleftrightarrow> ready_ok k \<and> all_ok k \<and> wait_ok k \<and> idle_ok k \<and> create_ok k \<and> blocked_ok k \<and> (\<forall>t. stack_ok (frames k t))"

definition sched_ok :: "kst \<Rightarrow> bool" where
  "sched_ok k \<longleftrightarrow> core_ok k \<and> (\<forall>t. st k t = Some THREAD_RUNNING \<longleftrightarrow> t = running k)
     \<and> (\<forall>t. st k t = Some THREAD_DYING \<longrightarrow> t = initial_thread k) \<and> \<not> in_external_intr k
     \<and> (case frames k (running k) of f # fs \<Rightarrow> is_retry f \<longrightarrow> \<not> intr_on k | [] \<Rightarrow> True)"

lemmas core_defs = ready_ok_def all_ok_def wait_ok_def idle_ok_def create_ok_def blocked_ok_def

section \<open>Switching threads\<close>

text \<open>Before \<open>schedule\<close> no thread has the status \<open>THREAD_RUNNING\<close>.\<close>

definition switch_ok :: "kst \<Rightarrow> bool" where
  "switch_ok k \<longleftrightarrow> core_ok k \<and> (\<forall>t. st k t \<noteq> Some THREAD_RUNNING)
     \<and> (\<forall>t. st k t = Some THREAD_DYING \<longrightarrow> t = initial_thread k \<or> t = running k) \<and> \<not> in_external_intr k"

lemma core_okI:
  assumes "ready_ok k" "all_ok k" "wait_ok k" "idle_ok k" "create_ok k" "blocked_ok k" "\<And>t. stack_ok (frames k t)"
  shows "core_ok k"
  using assms by (simp add: core_ok_def)

lemma core_okD:
  assumes "core_ok k"
  shows "ready_ok k" "all_ok k" "wait_ok k" "idle_ok k" "create_ok k" "blocked_ok k" "stack_ok (frames k t)"
  using assms by (auto simp: core_ok_def)

lemma idle_okD:
  assumes "idle_ok k"
  shows "idle_thread k \<noteq> 0 \<Longrightarrow> f \<in> set (frames k (idle_thread k)) \<Longrightarrow> idle_call f"
    "g \<in> set (frames k t) \<Longrightarrow> is_idle g \<Longrightarrow> f \<in> set (frames k t) \<Longrightarrow> idle_call f"
    "idle_thread k \<noteq> 0 \<Longrightarrow> \<exists>f \<in> set (frames k (idle_thread k)). is_idle_loop f"
    "f \<in> set (frames k t) \<Longrightarrow> is_idle_loop f \<Longrightarrow> t = idle_thread k \<and> t \<noteq> 0"
    "idle_thread k \<noteq> 0 \<Longrightarrow> frames k (idle_thread k) \<noteq> []"
proof -
  show "idle_thread k \<noteq> 0 \<Longrightarrow> f \<in> set (frames k (idle_thread k)) \<Longrightarrow> idle_call f"
    "g \<in> set (frames k t) \<Longrightarrow> is_idle g \<Longrightarrow> f \<in> set (frames k t) \<Longrightarrow> idle_call f"
    "f \<in> set (frames k t) \<Longrightarrow> is_idle_loop f \<Longrightarrow> t = idle_thread k \<and> t \<noteq> 0"
    using assms unfolding idle_ok_def by blast+
  show *: "idle_thread k \<noteq> 0 \<Longrightarrow> \<exists>f \<in> set (frames k (idle_thread k)). is_idle_loop f"
    using assms unfolding idle_ok_def by blast
  then show "idle_thread k \<noteq> 0 \<Longrightarrow> frames k (idle_thread k) \<noteq> []"
    by auto
qed

lemma readyD: "ready_ok k \<Longrightarrow> t \<in> set (ready_list k) \<longleftrightarrow> st k t = Some THREAD_READY \<and> t \<noteq> idle_thread k"
  by (simp add: ready_ok_def)

lemma allD: "all_ok k \<Longrightarrow> t \<in> set (all_list k) \<longleftrightarrow> st k t \<noteq> None \<and> st k t \<noteq> Some THREAD_DYING"
  "all_ok k \<Longrightarrow> frames k t \<noteq> [] \<Longrightarrow> t \<in> set (all_list k)"
  unfolding all_ok_def by (simp, blast)

lemma threadD: "all_ok k \<Longrightarrow> threads k t = Some th \<Longrightarrow> t \<noteq> 0 \<and> t_magic th = THREAD_MAGIC"
proof -
  assume "all_ok k" "threads k t = Some th"
  moreover from this have "magics k t = Some (t_magic th)"
    by (simp add: magics_def)
  ultimately show ?thesis
    unfolding all_ok_def by blast
qed

lemma st_simps [simp]:
  "st (pop_call k) = st k" "st (push_calls cs k) = st k" "st (set_eax v k) = st k" "st (set_sema s f k) = st k"
  "magics (pop_call k) = magics k" "magics (push_calls cs k) = magics k" "magics (set_eax v k) = magics k"
  "magics (set_sema s f k) = magics k" "magics (set_status t u k) = magics k"
  by (auto simp: st_def magics_def fun_eq_iff set_status_def option.map_comp comp_def)

lemma st_fields [simp]:
  "st (k\<lparr>ready_list := a\<rparr>) = st k" "st (k\<lparr>all_list := a\<rparr>) = st k" "st (k\<lparr>frames := fr\<rparr>) = st k" "st (k\<lparr>intr_on := b\<rparr>) = st k"
  "st (k\<lparr>semas := sm\<rparr>) = st k" "st (k\<lparr>idle_thread := t\<rparr>) = st k" "st (k\<lparr>thread_ticks := n\<rparr>) = st k"
  "magics (k\<lparr>ready_list := a\<rparr>) = magics k" "magics (k\<lparr>all_list := a\<rparr>) = magics k" "magics (k\<lparr>frames := fr\<rparr>) = magics k"
  "magics (k\<lparr>intr_on := b\<rparr>) = magics k" "magics (k\<lparr>semas := sm\<rparr>) = magics k" "magics (k\<lparr>idle_thread := t\<rparr>) = magics k"
  "magics (k\<lparr>thread_ticks := n\<rparr>) = magics k"
  by (simp_all add: st_def magics_def fun_eq_iff)

lemma st_set_status [simp]:
  "st (set_status t u k) = (if st k t = None then st k else (st k)(t \<mapsto> u))"
  by (auto simp: st_def set_status_def fun_eq_iff)

lemma waitD:
  assumes "wait_ok k"
  shows "semas k s = Some x \<Longrightarrow> distinct (s_waiters x)"
    "semas k s = Some x \<Longrightarrow> t \<in> set (s_waiters x) \<longleftrightarrow> st k t = Some THREAD_BLOCKED \<and> (\<exists>b fs. frames k t = Sema_retry s b # fs)"
    "frames k t = Sema_retry s b # fs \<Longrightarrow> semas k s \<noteq> None"
  using assms unfolding wait_ok_def by blast+

lemma core_ok_switch:
  assumes core: "core_ok k"
    and same: "frames k' = frames k" "all_list k' = all_list k" "idle_thread k' = idle_thread k" "semas k' = semas k"
    and st: "\<And>t. st k' t = (if t = r then Some THREAD_RUNNING else if t = d then None else st k t)" "st k r \<noteq> None"
    and magics: "\<And>t. magics k' t = None \<or> magics k' t = magics k t"
    and d: "d \<noteq> r \<Longrightarrow> st k d = Some THREAD_DYING \<or> st k d = None"
    and r: "ready_list k = r # ready_list k' \<or> ready_list k = [] \<and> ready_list k' = [] \<and> r = idle_thread k"
    and r0: "r \<noteq> 0"
  shows "core_ok k'"
proof -
  note c = core_okD [OF core] and i = idle_okD [OF core_okD(4) [OF core]]
  have r_st: "st k r = Some THREAD_READY \<or> r = idle_thread k"
    using r readyD [OF c(1), of r] by auto
  have no_retry: "frames k r \<noteq> Sema_retry s b # fs \<or> st k r \<noteq> Some THREAD_BLOCKED" for s b fs
    using r_st i(1) [of "Sema_retry s b"] r0 by (auto simp: idle_call_def)
  have not_creating: "\<not> creating k r"
    using r_st i(5) r0 by (auto simp: creating_def)
  have r_dying: "st k r \<noteq> Some THREAD_DYING"
    using r_st allD [OF c(2), of r] i(5) r0 by auto
  have unchanged: "st k' t = Some u \<longleftrightarrow> st k t = Some u" if "t \<noteq> r" "u \<noteq> THREAD_DYING" for t u
    using that d by (auto simp: st)
  show ?thesis
  proof (rule core_okI)
    have dist: "distinct (ready_list k)" and mem: "\<And>t. t \<in> set (ready_list k) \<longleftrightarrow> st k t = Some THREAD_READY \<and> t \<noteq> idle_thread k"
      using c(1) by (simp_all add: ready_ok_def)
    show "ready_ok k'"
      unfolding ready_ok_def same
      using r
    proof (elim disjE conjE)
      assume q: "ready_list k = r # ready_list k'"
      have "t \<in> set (ready_list k') \<longleftrightarrow> st k' t = Some THREAD_READY \<and> t \<noteq> idle_thread k" for t
        using mem [of t, unfolded q] dist [unfolded q] unchanged [of t THREAD_READY] st(1) [of t] by (cases "t = r") auto
      then show "distinct (ready_list k') \<and> (\<forall>t. t \<in> set (ready_list k') \<longleftrightarrow> st k' t = Some THREAD_READY \<and> t \<noteq> idle_thread k)"
        using dist [unfolded q] by simp
    next
      assume q: "ready_list k = []" "ready_list k' = []" "r = idle_thread k"
      have "\<not> (st k' t = Some THREAD_READY \<and> t \<noteq> idle_thread k)" for t
        using mem [of t, unfolded q(1)] unchanged [of t THREAD_READY] q(3) by auto
      then show "distinct (ready_list k') \<and> (\<forall>t. t \<in> set (ready_list k') \<longleftrightarrow> st k' t = Some THREAD_READY \<and> t \<noteq> idle_thread k)"
        using q(2) by simp
    qed
    show "all_ok k'"
      unfolding all_ok_def same
    proof (intro conjI allI)
      show "t \<in> set (all_list k) \<longleftrightarrow> st k' t \<noteq> None \<and> st k' t \<noteq> Some THREAD_DYING" for t
        using allD(1) [OF c(2), of t] d st(2) r_dying by (auto simp: st(1))
      show "magics k' t = Some m \<longrightarrow> t \<noteq> 0 \<and> m = THREAD_MAGIC" for t m
        using magics [of t] c(2) by (auto simp: all_ok_def)
    qed (use c(2) in \<open>auto simp: all_ok_def\<close>)
    show "wait_ok k'"
    proof -
      have "st k' t = Some THREAD_BLOCKED \<and> (\<exists>b fs. frames k t = Sema_retry s b # fs)
          \<longleftrightarrow> st k t = Some THREAD_BLOCKED \<and> (\<exists>b fs. frames k t = Sema_retry s b # fs)" for t s
        using unchanged [of t THREAD_BLOCKED] no_retry st(1) [of t] by (cases "t = r") auto
      then show ?thesis
        using c(3) unfolding wait_ok_def same by simp
    qed
    show "idle_ok k'"
      using c(4) unfolding idle_ok_def same .
    show "create_ok k'"
    proof -
      have "creating k' p = creating k p" for p
        using unchanged [of p THREAD_BLOCKED] not_creating st(1) [of p] by (cases "p = r") (auto simp: creating_def same)
      then show ?thesis
        using c(5) unfolding create_ok_def same by simp
    qed
    show "blocked_ok k'"
      unfolding blocked_ok_def same
    proof (intro allI impI)
      fix t
      assume "st k' t = Some THREAD_BLOCKED"
      then have "st k t = Some THREAD_BLOCKED"
        using unchanged [of t THREAD_BLOCKED] st(1) [of t] by (auto split: if_splits)
      then show "case frames k t of [] \<Rightarrow> True | f # fs \<Rightarrow> is_retry f \<or> f = Idle_halt"
        using c(6) by (simp add: blocked_ok_def)
    qed
    show "stack_ok (frames k' t)" for t
      unfolding same by (rule c(7))
  qed
qed

theorem schedule_ok:
  assumes k: "switch_ok k" and sch: "schedule k = Some k'"
  shows "sched_ok k'"
proof -
  note e = schedule_effect [OF sch]
  have core: "core_ok k" and nr: "\<And>t. st k t \<noteq> Some THREAD_RUNNING"
    and dy: "\<And>t. st k t = Some THREAD_DYING \<Longrightarrow> t = initial_thread k \<or> t = running k" and ext: "\<not> in_external_intr k"
    using k by (auto simp: switch_ok_def)
  let ?d = "if running k \<noteq> running k' \<and> st k (running k) = Some THREAD_DYING \<and> running k \<noteq> initial_thread k then running k else running k'"
  have thr: "is_thread (running k') k"
    using e by simp
  have r: "st k (running k') \<noteq> None" "running k' \<noteq> 0"
    using thr by (auto simp: is_thread_eq st_def)
  have rk: "running k \<noteq> 0"
    using core_okD(2) [OF core] e by (auto simp: all_ok_def st_def magics_def)
  have st': "st k' t = (if t = running k' then Some THREAD_RUNNING else if t = ?d then None else st k t)" for t
  proof -
    have th: "threads k' t = (if t = running k \<and> t \<noteq> 0 \<and> t \<noteq> running k' \<and> st k t = Some THREAD_DYING \<and> t \<noteq> initial_thread k then None
            else if t = running k' then map_option (\<lambda>th. th\<lparr>t_status := THREAD_RUNNING\<rparr>) (threads k t) else threads k t)"
      using e by blast
    show ?thesis
      unfolding st_def th using r rk by (auto simp: st_def)
  qed
  have mg: "magics k' t = None \<or> magics k' t = magics k t" for t
    using e by (auto simp: magics_def option.map_comp comp_def)
  have same: "frames k' = frames k" "all_list k' = all_list k" "idle_thread k' = idle_thread k" "semas k' = semas k"
    "in_external_intr k' = in_external_intr k" "initial_thread k' = initial_thread k" "\<not> intr_on k'"
    using e by (auto simp: same_objs_def)
  have "core_ok k'"
    by (rule core_ok_switch [OF core same(1-4) st' r(1) mg]) (use e r(2) in \<open>auto split: if_splits\<close>)
  then show ?thesis
    unfolding sched_ok_def
  proof (intro conjI allI)
    show "st k' t = Some THREAD_RUNNING \<longleftrightarrow> t = running k'" for t
      using nr st' by auto
    show "st k' t = Some THREAD_DYING \<longrightarrow> t = initial_thread k'" for t
      using dy [of t] st' [of t] same by auto
    show "\<not> in_external_intr k'"
      using ext same by simp
    show "case frames k' (running k') of f # fs \<Rightarrow> is_retry f \<longrightarrow> \<not> intr_on k' | [] \<Rightarrow> True"
      using same by (simp split: list.splits)
  qed
qed

section \<open>Changing the stack of the running thread\<close>

lemma token_cong: "(\<And>t. wsum g (fr' t) = wsum g (fr t)) \<Longrightarrow> token g fr' tk = token g fr tk"
  by (simp add: token_def)

lemma idle_ok_cong:
  assumes "idle_ok k" and same: "frames k' = frames k" "idle_thread k' = idle_thread k"
  shows "idle_ok k'"
  using assms(1) unfolding idle_ok_def same .

lemma token_upd: "wsum g fs = wsum g (fr r) \<Longrightarrow> token g (fr(r := fs)) tk = token g fr tk"
  unfolding token_def by (metis fun_upd_apply)

text \<open>What the stack \<open>fs\<close> of thread \<open>r\<close> may be replaced by.\<close>

definition stack_for :: "kst \<Rightarrow> nat \<Rightarrow> call list \<Rightarrow> bool" where
  "stack_for k r fs \<longleftrightarrow> stack_ok fs \<and> wsum starts_idle fs = wsum starts_idle (frames k r)
     \<and> (\<forall>p. wsum (creates p) fs = wsum (creates p) (frames k r))
     \<and> ((\<exists>f \<in> set fs. is_idle f) \<or> r = idle_thread k \<longrightarrow> (\<forall>f \<in> set fs. idle_call f))
     \<and> (r = idle_thread k \<longleftrightarrow> (\<exists>f \<in> set fs. is_idle_loop f))"

lemma idle_ok_stack:
  assumes "idle_ok k" "stack_for k r fs" "frames k' = (frames k)(r := fs)" "idle_thread k' = idle_thread k" "r \<noteq> 0"
  shows "idle_ok k'"
proof -
  have sf: "\<And>f g. f \<in> set fs \<Longrightarrow> is_idle f \<Longrightarrow> g \<in> set fs \<Longrightarrow> idle_call g" "\<And>g. r = idle_thread k \<Longrightarrow> g \<in> set fs \<Longrightarrow> idle_call g"
    "r = idle_thread k \<longleftrightarrow> (\<exists>f \<in> set fs. is_idle_loop f)" "wsum starts_idle fs = wsum starts_idle (frames k r)"
    using assms(2) unfolding stack_for_def by blast+
  note i = idle_okD [OF assms(1)]
  show ?thesis
    unfolding idle_ok_def assms(3,4)
  proof (intro conjI allI impI)
    fix t
    assume h: "t \<noteq> 0 \<and> t = idle_thread k \<or> (\<exists>f \<in> set (((frames k)(r := fs)) t). is_idle f)"
    show "\<forall>f \<in> set (((frames k)(r := fs)) t). idle_call f"
    proof (cases "t = r")
      case True
      then show ?thesis
        using h sf(1,2) by auto
    next
      case False
      then show ?thesis
        using h i(1,2) by auto
    qed
  next
    show "t \<noteq> 0 \<and> t = idle_thread k \<longleftrightarrow> (\<exists>f \<in> set (((frames k)(r := fs)) t). is_idle_loop f)" for t
    proof (cases "t = r")
      case True
      then show ?thesis
        using sf(3) assms(5) by simp
    next
      case False
      then show ?thesis
        using i(3,4) by auto
    qed
  next
    show "\<exists>tk. token starts_idle ((frames k)(r := fs)) tk \<and> (idle_thread k \<noteq> 0 \<longrightarrow> tk = None)"
      using assms(1) sf(4) unfolding idle_ok_def by (simp add: token_upd)
  qed
qed

lemma create_ok_stack:
  assumes "create_ok k" "stack_for k r fs" "frames k' = (frames k)(r := fs)" "\<And>p. creating k' p = creating k p"
  shows "create_ok k'"
  using assms(1,2) unfolding create_ok_def stack_for_def assms(3,4) by (simp add: token_upd)

lemma wait_ok_semas:
  assumes w: "wait_ok k"
    and sem: "\<And>s x. semas k s = Some x \<Longrightarrow> \<exists>y. semas k' s = Some y \<and> s_waiters y = s_waiters x"
      "\<And>s y. semas k s = None \<Longrightarrow> semas k' s = Some y \<Longrightarrow> s_waiters y = []"
    and fr: "\<And>t s b fs. frames k' t = Sema_retry s b # fs \<Longrightarrow> frames k t = frames k' t"
    and bl: "\<And>t s. st k' t = Some THREAD_BLOCKED \<and> (\<exists>b fs. frames k' t = Sema_retry s b # fs)
        \<longleftrightarrow> st k t = Some THREAD_BLOCKED \<and> (\<exists>b fs. frames k t = Sema_retry s b # fs)"
  shows "wait_ok k'"
  unfolding wait_ok_def bl
proof (intro conjI allI impI)
  fix t s b fs
  assume "frames k' t = Sema_retry s b # fs"
  then show "semas k' s \<noteq> None"
    using fr [of t s b fs] waitD(3) [OF w, of t s b fs] sem(1) [of s] by auto
next
  fix s y
  assume y: "semas k' s = Some y"
  show "distinct (s_waiters y)" "t \<in> set (s_waiters y) \<longleftrightarrow> st k t = Some THREAD_BLOCKED \<and> (\<exists>b fs. frames k t = Sema_retry s b # fs)" for t
  proof -
    show "distinct (s_waiters y)"
      using waitD(1) [OF w, of s] sem(1) [of s] sem(2) [of s y] y by (cases "semas k s") auto
    show "t \<in> set (s_waiters y) \<longleftrightarrow> st k t = Some THREAD_BLOCKED \<and> (\<exists>b fs. frames k t = Sema_retry s b # fs)"
      using waitD(2,3) [OF w, of s] waitD(3) [OF w, of t s] sem(1) [of s] sem(2) [of s y] y by (cases "semas k s") auto
  qed
qed

lemma core_ok_stack:
  assumes core: "core_ok k" and r: "st k r = Some THREAD_RUNNING" and sf: "stack_for k r fs"
    and nr: "\<And>f. f \<in> set fs \<Longrightarrow> \<not> is_retry f"
    and same: "st k' = st k" "magics k' = magics k" "ready_list k' = ready_list k" "all_list k' = all_list k"
      "idle_thread k' = idle_thread k"
    and fr: "frames k' = (frames k)(r := fs)"
    and sem: "\<And>s x. semas k s = Some x \<Longrightarrow> \<exists>y. semas k' s = Some y \<and> s_waiters y = s_waiters x"
      "\<And>s y. semas k s = None \<Longrightarrow> semas k' s = Some y \<Longrightarrow> s_waiters y = []"
  shows "core_ok k'"
proof -
  note c = core_okD [OF core]
  have r_all: "r \<in> set (all_list k)"
    using c(2) r by (simp add: all_ok_def)
  have r0: "r \<noteq> 0"
    using c(2) r by (auto simp: all_ok_def magics_def st_def)
  have no: "fs \<noteq> Sema_retry s b # gs" for s b gs
    using nr [of "Sema_retry s b"] by (auto simp: is_retry_def)
  show ?thesis
  proof (rule core_okI)
    show "ready_ok k'"
      using c(1) by (simp add: ready_ok_def same)
    show "all_ok k'"
      using c(2) r_all unfolding all_ok_def same fr by (metis fun_upd_apply)
    show "wait_ok k'"
      by (rule wait_ok_semas [OF c(3) sem]) (use r no in \<open>auto simp: same fr split: if_splits\<close>)
    show "idle_ok k'"
      by (rule idle_ok_stack [OF c(4) sf fr same(5) r0])
    show "create_ok k'"
      by (rule create_ok_stack [OF c(5) sf fr]) (use r in \<open>auto simp: creating_def same fr\<close>)
    show "blocked_ok k'"
      using c(6) r by (simp add: blocked_ok_def same fr)
    show "stack_ok (frames k' t)" for t
      using c(7) sf by (simp add: fr stack_for_def)
  qed
qed

section \<open>The call that is executed\<close>

text \<open>
  The running thread is about to execute \<open>c\<close>, above the calls \<open>fs\<close>: \<open>c\<close> is the top of its
  stack, or a new call of a thread whose stack is empty.
\<close>

definition at_call :: "kst \<Rightarrow> call \<Rightarrow> call list \<Rightarrow> bool" where
  "at_call k c fs \<longleftrightarrow> frames k (running k) = c # fs \<and> inner_call c \<or> frames k (running k) = [] \<and> fs = [] \<and> legal c k"

lemma pop_call_empty: "frames k (running k) = [] \<Longrightarrow> pop_call k = k"
  by (simp add: pop_call_def fun_upd_idem)

lemma legal_class:
  "legal c k \<Longrightarrow> starts_idle c = 0 \<and> creates p c = 0 \<and> \<not> is_idle c \<and> \<not> is_idle_loop c \<and> \<not> is_retry c"
  by (cases c) (simp_all add: class_defs starts_idle_def creates_def)

lemma is_idle_class: "is_idle c \<Longrightarrow> idle_call c" "is_idle_loop c \<Longrightarrow> idle_call c" "is_retry c \<Longrightarrow> \<not> idle_call c"
  by (auto simp: class_defs)

lemma at_call_stack:
  assumes core: "core_ok k" and a: "at_call k c fs"
  shows "stack_ok fs" "fs \<noteq> [] \<Longrightarrow> \<not> final_call c" "f \<in> set fs \<Longrightarrow> \<not> is_retry f"
    "wsum starts_idle (frames k (running k)) = starts_idle c + wsum starts_idle fs"
    "wsum (creates p) (frames k (running k)) = creates p c + wsum (creates p) fs"
    "frames (pop_call k) = (frames k)(running k := fs)"
proof -
  have F: "frames k (running k) = c # fs \<or> frames k (running k) = [] \<and> fs = [] \<and> legal c k"
    using a by (auto simp: at_call_def)
  show "frames (pop_call k) = (frames k)(running k := fs)"
    using F by auto
  have ok: "stack_ok (frames k (running k))"
    using core by (simp add: core_ok_def)
  show "stack_ok fs" "fs \<noteq> [] \<Longrightarrow> \<not> final_call c" "f \<in> set fs \<Longrightarrow> \<not> is_retry f"
    using ok F by (cases fs; auto simp: stack_ok_def)+
  show "wsum starts_idle (frames k (running k)) = starts_idle c + wsum starts_idle fs"
    "wsum (creates p) (frames k (running k)) = creates p c + wsum (creates p) fs"
    using F legal_class by auto
qed

lemma at_call_idle:
  assumes core: "core_ok k" and a: "at_call k c fs" and r0: "running k \<noteq> 0"
  shows "f \<in> set fs \<Longrightarrow> is_idle f \<Longrightarrow> g \<in> set (c # fs) \<Longrightarrow> idle_call g"
    "running k = idle_thread k \<Longrightarrow> g \<in> set (c # fs) \<Longrightarrow> idle_call g"
    "is_idle c \<Longrightarrow> g \<in> set fs \<Longrightarrow> idle_call g"
    "f \<in> set (c # fs) \<Longrightarrow> is_idle_loop f \<Longrightarrow> running k = idle_thread k"
    "running k = idle_thread k \<Longrightarrow> is_idle_loop c \<or> (\<exists>f \<in> set fs. is_idle_loop f)"
proof -
  have F: "frames k (running k) = c # fs \<or> frames k (running k) = [] \<and> fs = [] \<and> legal c k"
    using a by (auto simp: at_call_def)
  note i = idle_okD [OF core_okD(4) [OF core]]
  show "f \<in> set fs \<Longrightarrow> is_idle f \<Longrightarrow> g \<in> set (c # fs) \<Longrightarrow> idle_call g"
    using F i(2) [of f "running k" g] by auto
  show "running k = idle_thread k \<Longrightarrow> g \<in> set (c # fs) \<Longrightarrow> idle_call g"
    using F i(1) [of g] i(5) r0 by auto
  show "is_idle c \<Longrightarrow> g \<in> set fs \<Longrightarrow> idle_call g"
    using F i(2) [of c "running k" g] by auto
  show "f \<in> set (c # fs) \<Longrightarrow> is_idle_loop f \<Longrightarrow> running k = idle_thread k"
    using F i(4) [of f "running k"] legal_class by auto
  show "running k = idle_thread k \<Longrightarrow> is_idle_loop c \<or> (\<exists>f \<in> set fs. is_idle_loop f)"
    using F i(3,5) r0 by auto
qed

text \<open>Replacing the call by the calls \<open>ps\<close>.\<close>

lemma stack_for_replace:
  assumes core: "core_ok k" and a: "at_call k c fs" and r0: "running k \<noteq> 0"
    and inner: "\<And>f. f \<in> set ps \<Longrightarrow> inner_call f" and retry: "\<And>f. f \<in> set (tl ps) \<Longrightarrow> \<not> is_retry f"
    and final: "\<And>f. f \<in> set (butlast ps) \<Longrightarrow> \<not> final_call f" "\<And>f. f \<in> set ps \<Longrightarrow> final_call f \<Longrightarrow> fs = []"
    and sums: "wsum starts_idle ps = starts_idle c" "\<And>p. wsum (creates p) ps = creates p c"
    and idle: "\<And>f. f \<in> set ps \<Longrightarrow> \<not> is_idle f" "\<And>f. idle_call c \<Longrightarrow> f \<in> set ps \<Longrightarrow> idle_call f"
      "(\<exists>f \<in> set ps. is_idle_loop f) \<longleftrightarrow> is_idle_loop c"
  shows "stack_for k (running k) (ps @ fs)"
proof -
  note s = at_call_stack [OF core a] and i = at_call_idle [OF core a r0]
  have "stack_ok (ps @ fs)"
    unfolding stack_ok_def
  proof (intro conjI ballI)
    show "inner_call f" if "f \<in> set (ps @ fs)" for f
      using that inner s(1) by (auto simp: stack_ok_def)
    show "\<not> final_call f" if "f \<in> set (butlast (ps @ fs))" for f
      using that final s(1) by (cases "fs = []") (auto simp: stack_ok_def butlast_append)
    show "\<not> is_retry f" if "f \<in> set (tl (ps @ fs))" for f
      using that retry s(3) by (cases ps; cases fs) auto
  qed
  moreover have "wsum starts_idle (ps @ fs) = wsum starts_idle (frames k (running k))"
    "\<And>p. wsum (creates p) (ps @ fs) = wsum (creates p) (frames k (running k))"
    using s(4,5) sums by auto
  moreover have "\<forall>f \<in> set (ps @ fs). idle_call f" if "(\<exists>f \<in> set (ps @ fs). is_idle f) \<or> running k = idle_thread k"
  proof -
    have "\<forall>g \<in> set (c # fs). idle_call g"
      using that idle(1) i(1,2) by auto
    then show ?thesis
      using idle(2) by auto
  qed
  moreover have "running k = idle_thread k \<longleftrightarrow> (\<exists>f \<in> set (ps @ fs). is_idle_loop f)"
    using i(4,5) idle(3) by auto
  ultimately show ?thesis
    by (simp add: stack_for_def)
qed

lemma pushes_class:
  assumes "pushes c ps"
  shows "f \<in> set ps \<Longrightarrow> inner_call f \<and> \<not> is_retry f \<and> \<not> is_idle f" "f \<in> set (butlast ps) \<Longrightarrow> \<not> final_call f"
    "f \<in> set ps \<Longrightarrow> final_call f \<Longrightarrow> final_call c"
    "wsum starts_idle ps = starts_idle c" "wsum (creates p) ps = creates p c"
    "idle_call c \<Longrightarrow> f \<in> set ps \<Longrightarrow> idle_call f" "(\<exists>f \<in> set ps. is_idle_loop f) \<longleftrightarrow> is_idle_loop c"
proof -
  have nil: "starts_idle c = 0 \<and> creates p c = 0 \<and> \<not> is_idle_loop c" if "quiet_call c" "c \<noteq> Idle_halt" for c p
    using that by (cases c) (simp_all add: starts_idle_def creates_def class_defs)
  show "f \<in> set ps \<Longrightarrow> inner_call f \<and> \<not> is_retry f \<and> \<not> is_idle f" "f \<in> set (butlast ps) \<Longrightarrow> \<not> final_call f"
    "f \<in> set ps \<Longrightarrow> final_call f \<Longrightarrow> final_call c"
    using assms by (cases rule: pushes.cases; auto simp: class_defs)+
  show "wsum starts_idle ps = starts_idle c" "wsum (creates p) ps = creates p c"
    using assms by (cases rule: pushes.cases; auto simp: starts_idle_def creates_def dest: nil)+
  show "idle_call c \<Longrightarrow> f \<in> set ps \<Longrightarrow> idle_call f" "(\<exists>f \<in> set ps. is_idle_loop f) \<longleftrightarrow> is_idle_loop c"
    using assms by (cases rule: pushes.cases; auto simp: class_defs dest: nil)+
qed

section \<open>Steps that keep the processor\<close>

lemma sched_okD:
  assumes "sched_ok k"
  shows "core_ok k" "st k (running k) = Some THREAD_RUNNING" "running k \<noteq> 0" "\<not> in_external_intr k"
    "st k t = Some THREAD_RUNNING \<longleftrightarrow> t = running k" "st k t = Some THREAD_DYING \<Longrightarrow> t = initial_thread k"
    "is_thread (running k) k"
proof -
  show core: "core_ok k" and st: "st k t = Some THREAD_RUNNING \<longleftrightarrow> t = running k" for t
    using assms by (auto simp: sched_ok_def)
  show "\<not> in_external_intr k" "st k t = Some THREAD_DYING \<Longrightarrow> t = initial_thread k"
    using assms by (auto simp: sched_ok_def)
  show r: "st k (running k) = Some THREAD_RUNNING"
    using st by simp
  then show "running k \<noteq> 0" "is_thread (running k) k"
    using threadD [OF core_okD(2) [OF core], of "running k"] by (auto simp: st_def is_thread_eq)
qed

lemma sched_ok_stay:
  assumes ok: "sched_ok k" and core: "core_ok k'" and run: "running k' = running k"
    and st: "\<And>t. st k' t = Some THREAD_RUNNING \<longleftrightarrow> st k t = Some THREAD_RUNNING"
      "\<And>t. st k' t = Some THREAD_DYING \<longleftrightarrow> st k t = Some THREAD_DYING"
    and same: "initial_thread k' = initial_thread k" "in_external_intr k' = in_external_intr k"
    and nr: "\<And>f fs. frames k' (running k) = f # fs \<Longrightarrow> \<not> is_retry f"
  shows "sched_ok k'"
  using ok core nr unfolding sched_ok_def run st same by (auto split: list.splits)

lemma quiet_ok:
  assumes ok: "sched_ok k" and a: "at_call k c fs" and q: "quiet ps (pop_call k) k'"
    and sf: "stack_for k (running k) (ps @ fs)" and nr: "\<And>f. f \<in> set ps \<Longrightarrow> \<not> is_retry f"
  shows "sched_ok k'"
proof (rule sched_ok_stay [OF ok])
  note d = sched_okD [OF ok] and s = at_call_stack [OF sched_okD(1) [OF ok] a]
  have fr: "frames k' = (frames k)(running k := ps @ fs)"
    using q fun_cong [OF s(6), of "running k"] by (simp add: quiet_def)
  have nr': "\<not> is_retry f" if "f \<in> set (ps @ fs)" for f
    using that nr s(3) by auto
  show "core_ok k'"
    by (rule core_ok_stack [OF d(1,2) sf nr' _ _ _ _ _ fr]) (use q in \<open>auto simp: quiet_def\<close>)
  show "\<not> is_retry f" if "frames k' (running k) = f # gs" for f gs
    using that nr' [of f] by (simp add: fr)
qed (use q in \<open>auto simp: quiet_def\<close>)

lemma exec_quiet_ok:
  assumes ok: "sched_ok k" and a: "at_call k c fs" and qc: "quiet_call c"
    and ex: "exec w c (pop_call k) = Some k'"
  shows "sched_ok k'"
proof -
  note d = sched_okD [OF ok] and s = at_call_stack [OF sched_okD(1) [OF ok] a]
  have fresh: "semas (pop_call k) s = None" if "c = Sema_init s v" for s v
    using a that by (auto simp: at_call_def inner_call_def fresh_sema_def)
  have fresh': "semas (pop_call k) (lock_sema l) = None" if "c = Lock_init l" for l
    using a that by (auto simp: at_call_def inner_call_def fresh_lock_def)
  have fresh'': "semas (pop_call k) s = None" if "c = Cond_wait b l s" for b l s
    using a that by (auto simp: at_call_def inner_call_def fresh_sema_def)
  have "quiet_result c (pop_call k) k'"
    by (rule exec_quiet [OF ex qc]) (erule fresh fresh' fresh'')+
  then obtain ps where ps: "pushes c ps" "quiet ps (pop_call k) k'"
    by (auto simp: quiet_result_def)
  note p = pushes_class [OF ps(1)]
  have "stack_for k (running k) (ps @ fs)"
  proof (rule stack_for_replace [OF d(1) a d(3)])
    show "inner_call f" "\<not> is_idle f" "final_call f \<Longrightarrow> fs = []" if "f \<in> set ps" for f
      using p(1,3) [OF that] s(2) by auto
    show "\<not> is_retry f" if "f \<in> set (tl ps)" for f
      using that p(1) [of f] by (cases ps) auto
  qed (use p in auto)
  then show ?thesis
    using p(1) by (intro quiet_ok [OF ok a ps(2)]) auto
qed

text \<open>A call that has no part in the bookkeeping of the scheduler can be taken off the stack.\<close>

lemma pop_ok:
  assumes ok: "sched_ok k" and a: "at_call k c fs"
    and c: "starts_idle c = 0" "\<And>p. creates p c = 0" "\<not> is_idle_loop c"
  shows "sched_ok (pop_call k)"
proof -
  note d = sched_okD [OF ok]
  have "stack_for k (running k) ([] @ fs)"
    by (rule stack_for_replace [OF d(1) a d(3)]) (use c in auto)
  then show ?thesis
    by (intro quiet_ok [OF ok a, of "[]"]) auto
qed

lemma stack_for_refl:
  assumes "sched_ok k"
  shows "stack_for k (running k) (frames k (running k))"
  using core_okD(7) [OF sched_okD(1) [OF assms], of "running k"] idle_okD [OF core_okD(4) [OF sched_okD(1) [OF assms]]]
    sched_okD(3) [OF assms]
  by (auto simp: stack_for_def)

lemma quiet_nil_ok:
  assumes ok: "sched_ok k" and q: "quiet [] k k'" and nr: "\<And>f. f \<in> set (frames k (running k)) \<Longrightarrow> \<not> is_retry f"
  shows "sched_ok k'"
proof (rule sched_ok_stay [OF ok])
  show "core_ok k'"
    by (rule core_ok_stack [OF sched_okD(1,2) [OF ok] stack_for_refl [OF ok] nr]) (use q in \<open>auto simp: quiet_def\<close>)
qed (use q nr in \<open>auto simp: quiet_def\<close>)

lemma stack_for_push:
  assumes ok: "sched_ok k" and nr: "\<And>f. f \<in> set (frames k (running k)) \<Longrightarrow> \<not> is_retry f"
    and c: "inner_call c" "\<not> final_call c" "starts_idle c = 0" "\<And>p. creates p c = 0" "\<not> is_idle c" "\<not> is_idle_loop c"
    and idle: "idle_call c \<or> running k \<noteq> idle_thread k \<and> (\<forall>f \<in> set (frames k (running k)). \<not> is_idle f)"
  shows "stack_for k (running k) (c # frames k (running k))"
proof -
  note d = sched_okD [OF ok] and i = idle_okD [OF core_okD(4) [OF sched_okD(1) [OF ok]]]
  have "stack_ok (c # frames k (running k))"
    using core_okD(7) [OF d(1), of "running k"] nr c by (auto simp: stack_ok_def)
  moreover have "running k = idle_thread k \<longleftrightarrow> (\<exists>f \<in> set (c # frames k (running k)). is_idle_loop f)"
    using c(6) i(3,4) d(3) by auto
  moreover have "\<forall>f \<in> set (c # frames k (running k)). idle_call f"
    if "(\<exists>f \<in> set (c # frames k (running k)). is_idle f) \<or> running k = idle_thread k"
    using that idle c(5) i(1,2) d(3) by auto
  ultimately show ?thesis
    using c by (simp add: stack_for_def)
qed

lemma push_ok:
  assumes ok: "sched_ok k" and q: "quiet [c] k k'" and sf: "stack_for k (running k) (c # frames k (running k))"
    and nr: "\<And>f. f \<in> set (c # frames k (running k)) \<Longrightarrow> \<not> is_retry f"
  shows "sched_ok k'"
proof (rule sched_ok_stay [OF ok])
  note d = sched_okD [OF ok]
  have fr: "frames k' = (frames k)(running k := c # frames k (running k))"
    using q by (simp add: quiet_def)
  show "core_ok k'"
    by (rule core_ok_stack [OF d(1,2) sf nr _ _ _ _ _ fr]) (use q in \<open>auto simp: quiet_def\<close>)
  show "\<not> is_retry f" if "frames k' (running k) = f # gs" for f gs
    using that nr [of f] by (simp add: fr)
qed (use q in \<open>auto simp: quiet_def\<close>)

text \<open>Waking the first waiter of a semaphore.\<close>

lemma core_ok_wake:
  assumes core: "core_ok k" and x: "semas k s = Some x" "s_waiters x = t # ts"
    and st: "st k' = (st k)(t \<mapsto> THREAD_READY)" and r: "ready_list k' = ready_list k @ [t]"
    and sem: "semas k' = (semas k)(s \<mapsto> y)" "s_waiters y = ts"
    and same: "magics k' = magics k" "all_list k' = all_list k" "idle_thread k' = idle_thread k" "frames k' = frames k"
  shows "core_ok k'"
proof -
  note c = core_okD [OF core]
  have t: "st k t = Some THREAD_BLOCKED" and ft: "\<exists>b fs. frames k t = Sema_retry s b # fs"
    using waitD(2) [OF c(3) x(1), of t] x(2) by auto
  have t0: "t \<noteq> idle_thread k"
  proof
    assume "t = idle_thread k"
    moreover have "t \<noteq> 0"
      using threadD [OF c(2), of t] t by (auto simp: st_def)
    moreover obtain b fs where "frames k t = Sema_retry s b # fs"
      using ft by blast
    ultimately show False
      using idle_okD(1) [OF c(4), of "Sema_retry s b"] by (auto simp: idle_call_def)
  qed
  have d: "distinct (t # ts)"
    using waitD(1) [OF c(3) x(1)] x(2) by simp
  show ?thesis
  proof (rule core_okI)
    show "ready_ok k'"
      using c(1) t t0 unfolding ready_ok_def st r same by auto
    show "all_ok k'"
      using c(2) t unfolding all_ok_def st same by (auto split: if_splits)
    show "wait_ok k'"
      unfolding wait_ok_def
    proof (intro conjI allI impI)
      fix s' z
      assume z: "semas k' s' = Some z"
      show "distinct (s_waiters z)"
        using z waitD(1) [OF c(3), of s'] d sem by (auto split: if_splits)
      show "u \<in> set (s_waiters z) \<longleftrightarrow> st k' u = Some THREAD_BLOCKED \<and> (\<exists>b fs. frames k' u = Sema_retry s' b # fs)" for u
      proof (cases "s' = s")
        case True
        then show ?thesis
          using z sem waitD(2) [OF c(3) x(1), of u] x(2) d by (auto simp: st same)
      next
        case False
        then show ?thesis
          using z sem waitD(2) [OF c(3), of s' z u] ft by (auto simp: st same)
      qed
    next
      fix u s' b fs
      assume "frames k' u = Sema_retry s' b # fs"
      then show "semas k' s' \<noteq> None"
        using waitD(3) [OF c(3), of u s' b fs] by (simp add: sem same)
    qed
    show "idle_ok k'"
      using c(4) unfolding idle_ok_def same .
    show "create_ok k'"
    proof -
      have "creating k' p = creating k p" for p
        using ft by (auto simp: creating_def st same)
      then show ?thesis
        using c(5) unfolding create_ok_def same by simp
    qed
    show "blocked_ok k'"
      using c(6) unfolding blocked_ok_def st same by auto
    show "stack_ok (frames k' u)" for u
      unfolding same by (rule c(7))
  qed
qed

lemma sema_up_ok:
  assumes ok: "sched_ok k" and nr: "\<And>f. f \<in> set (frames k (running k)) \<Longrightarrow> \<not> is_retry f"
    and up: "sema_up s k = Some k'"
  shows "sched_ok k'"
  using up
proof (cases rule: sema_up_effect)
  case (none x)
  have "quiet [] k k'"
    unfolding none(3) by simp
  then show ?thesis
    using nr by (rule quiet_nil_ok [OF ok])
next
  case (wake x t ts)
  note d = sched_okD [OF ok]
  have st: "st k' = (st k)(t \<mapsto> THREAD_READY)"
    using wake(4) unfolding wake(5) by simp
  have tr: "t \<noteq> running k"
    using wake(4) d(2) by auto
  have "core_ok k'"
    by (rule core_ok_wake [OF d(1) wake(1,2) st]) (use wake(1) in \<open>auto simp: wake(5)\<close>)
  then show ?thesis
    using st tr nr wake(4) by (intro sched_ok_stay [OF ok]) (auto simp: wake(5))
qed

section \<open>Steps that give the processor away\<close>

lemma switch_okI:
  assumes ok: "sched_ok k" and core: "core_ok k'" and st: "st k' = (st k)(running k := u)" "u \<noteq> Some THREAD_RUNNING"
    and same: "initial_thread k' = initial_thread k" "in_external_intr k' = in_external_intr k" "running k' = running k"
  shows "switch_ok k'"
  using sched_okD [OF ok] core st(2) unfolding switch_ok_def st(1) same by auto

lemma core_ok_leave:
  assumes ok: "sched_ok k" and sf: "stack_for k (running k) fs"
    and st: "st k' = (st k)(running k \<mapsto> u)" "u = THREAD_READY \<or> u = THREAD_BLOCKED"
    and same: "magics k' = magics k" "all_list k' = all_list k" "idle_thread k' = idle_thread k"
    and fr: "frames k' = (frames k)(running k := fs)"
    and ready: "ready_ok k'" and wait: "wait_ok k'"
    and bl: "u = THREAD_BLOCKED \<Longrightarrow> \<exists>f gs. fs = f # gs \<and> (is_retry f \<or> f = Idle_halt)"
  shows "core_ok k'"
proof -
  note d = sched_okD [OF ok] and c = core_okD [OF sched_okD(1) [OF ok]]
  have r_all: "running k \<in> set (all_list k)"
    using c(2) d(2) by (simp add: all_ok_def)
  show ?thesis
  proof (rule core_okI)
    show "all_ok k'"
      unfolding all_ok_def same fr
    proof (intro conjI allI impI)
      show "t \<in> set (all_list k) \<longleftrightarrow> st k' t \<noteq> None \<and> st k' t \<noteq> Some THREAD_DYING" for t
        using allD(1) [OF c(2), of t] r_all st by auto
      show "t \<in> set (all_list k)" if "((frames k)(running k := fs)) t \<noteq> []" for t
        using that r_all allD(2) [OF c(2), of t] by (auto split: if_splits)
    qed (use c(2) in \<open>auto simp: all_ok_def\<close>)
    show "idle_ok k'"
      by (rule idle_ok_stack [OF c(4) sf fr same(3) d(3)])
    show "create_ok k'"
      by (rule create_ok_stack [OF c(5) sf fr]) (use d(2) st bl in \<open>auto simp: creating_def fr\<close>)
    show "blocked_ok k'"
      using c(6) bl st unfolding blocked_ok_def fr by auto
    show "stack_ok (frames k' t)" for t
      using c(7) sf by (simp add: fr stack_for_def)
  qed (fact ready wait)+
qed

lemma sema_retry_ok:
  assumes ok: "sched_ok k" and nr: "\<And>f. f \<in> set (frames k (running k)) \<Longrightarrow> \<not> is_retry f"
    and busy: "running k \<noteq> idle_thread k" "\<And>f. f \<in> set (frames k (running k)) \<Longrightarrow> \<not> is_idle f"
    and re: "sema_retry s b (k\<lparr>intr_on := i\<rparr>) = Some k'"
  shows "sched_ok k'"
  using re
proof (cases rule: sema_retry_effect)
  case (pass x)
  have "quiet [] k k'"
    unfolding pass(3) by (simp add: set_sema_def quiet_def st_def magics_def fun_eq_iff)
  then show ?thesis
    using nr by (rule quiet_nil_ok [OF ok])
next
  case (wait x)
  note d = sched_okD [OF ok] and c = core_okD [OF sched_okD(1) [OF ok]]
  let ?r = "running k" and ?fs = "Sema_retry s b # frames k (running k)"
  let ?k1 = "set_status ?r THREAD_BLOCKED (push_calls [Sema_retry s b]
    (set_sema s (\<lambda>x. x\<lparr>s_waiters := s_waiters x @ [?r]\<rparr>) (k\<lparr>intr_on := i\<rparr>)))"
  have x: "semas k s = Some x"
    using wait(1) by simp
  have sf: "stack_for k ?r ?fs"
    by (rule stack_for_push [OF ok nr]) (use busy in \<open>auto simp: class_defs starts_idle_def creates_def\<close>)
  have st: "st ?k1 = (st k)(?r \<mapsto> THREAD_BLOCKED)"
    using d(2) by simp
  have sem: "semas ?k1 = (semas k)(s \<mapsto> x\<lparr>s_waiters := s_waiters x @ [?r]\<rparr>)"
    using x by simp
  have fr: "frames ?k1 = (frames k)(?r := ?fs)"
    by simp
  have out: "?r \<notin> set (s_waiters y)" if "semas k s' = Some y" for s' y
    using waitD(2) [OF c(3) that, of ?r] d(2) by simp
  have w: "wait_ok ?k1"
    unfolding wait_ok_def
  proof (intro conjI allI impI)
    fix s' y
    assume y: "semas ?k1 s' = Some y"
    show "distinct (s_waiters y)"
      using y waitD(1) [OF c(3), of s'] x out [OF x] unfolding sem by (auto split: if_splits)
    show "t \<in> set (s_waiters y) \<longleftrightarrow> st ?k1 t = Some THREAD_BLOCKED \<and> (\<exists>b fs. frames ?k1 t = Sema_retry s' b # fs)" for t
      using y waitD(2) [OF c(3), of s' _ t] x out unfolding sem st fr by (cases "t = ?r"; cases "s' = s") auto
  next
    fix t s' b' fs
    assume "frames ?k1 t = Sema_retry s' b' # fs"
    then show "semas ?k1 s' \<noteq> None"
      using waitD(3) [OF c(3), of t s' b' fs] unfolding sem fr by (auto split: if_splits)
  qed
  have rd: "ready_ok ?k1"
    using c(1) d(2) unfolding ready_ok_def st by simp
  have "core_ok ?k1"
    by (rule core_ok_leave [OF ok sf st _ _ _ _ fr rd w]) (use d(2) in \<open>auto simp: is_retry_def\<close>)
  then have "switch_ok ?k1"
    using d(2) by (intro switch_okI [OF ok _ st]) auto
  then show ?thesis
    using thread_block_effect [OF wait(3)] by (auto intro: schedule_ok)
qed

lemma thread_yield_ok:
  assumes ok: "sched_ok k" and nr: "\<And>f. f \<in> set (frames k (running k)) \<Longrightarrow> \<not> is_retry f"
    and y: "thread_yield k = Some k'"
  shows "sched_ok k'"
proof -
  note d = sched_okD [OF ok] and c = core_okD [OF sched_okD(1) [OF ok]]
  let ?r = "running k" and ?fs = "Set_level (intr_on k) # frames k (running k)"
  let ?k1 = "push_calls [Set_level (intr_on k)] (set_status ?r THREAD_READY
         (k\<lparr>intr_on := False, ready_list := ready_list k @ (if ?r \<noteq> idle_thread k then [?r] else [])\<rparr>))"
  have sf: "stack_for k ?r ?fs"
    by (rule stack_for_push [OF ok nr]) (auto simp: class_defs starts_idle_def creates_def)
  have st: "st ?k1 = (st k)(?r \<mapsto> THREAD_READY)"
    using d(2) by simp
  have fr: "frames ?k1 = (frames k)(?r := ?fs)"
    by simp
  have "?r \<notin> set (ready_list k)"
    using readyD [OF c(1), of ?r] d(2) by simp
  then have rd: "ready_ok ?k1"
    using c(1) unfolding ready_ok_def st by auto
  have w: "wait_ok ?k1"
    by (rule wait_ok_semas [OF c(3)]) (use d(2) in \<open>auto simp: st fr simp del: st_simps st_set_status split: if_splits\<close>)
  have "core_ok ?k1"
    by (rule core_ok_leave [OF ok sf st _ _ _ _ fr rd w]) (use d(2) in auto)
  then have "switch_ok ?k1"
    by (intro switch_okI [OF ok _ st]) auto
  then show ?thesis
    using thread_yield_effect [OF y] by (auto intro: schedule_ok)
qed

lemma thread_die_ok:
  assumes ok: "sched_ok k" and emp: "frames k (running k) = []" and y: "thread_die k = Some k'"
  shows "sched_ok k'"
proof -
  note d = sched_okD [OF ok] and c = core_okD [OF sched_okD(1) [OF ok]]
  let ?r = "running k"
  let ?k1 = "set_status ?r THREAD_DYING (k\<lparr>intr_on := False,
         all_list := remove1 ?r (all_list k), frames := (frames k)(?r := [])\<rparr>)"
  have st: "st ?k1 = (st k)(?r \<mapsto> THREAD_DYING)"
    using d(2) by simp
  have fr: "frames ?k1 = frames k"
    using emp by auto
  have "core_ok ?k1"
  proof (rule core_okI)
    show "ready_ok ?k1"
      using c(1) d(2) unfolding ready_ok_def st by simp
    show "all_ok ?k1"
      unfolding all_ok_def fr
    proof (intro conjI allI impI)
      have dist: "distinct (all_list k)"
        using c(2) by (simp add: all_ok_def)
      then show "distinct (all_list ?k1)"
        by simp
      show mem: "t \<in> set (all_list ?k1) \<longleftrightarrow> st ?k1 t \<noteq> None \<and> st ?k1 t \<noteq> Some THREAD_DYING" for t
        using allD(1) [OF c(2), of t] dist unfolding st by simp
      show "t \<in> set (all_list ?k1)" if "frames k t \<noteq> []" for t
        using that emp allD(2) [OF c(2), of t] by (cases "t = ?r") auto
    qed (use c(2) in \<open>auto simp: all_ok_def\<close>)
    show "wait_ok ?k1"
      by (rule wait_ok_semas [OF c(3)]) (use d(2) emp in \<open>auto simp: st fr simp del: st_simps st_set_status split: if_splits\<close>)
    show "idle_ok ?k1"
      by (rule idle_ok_cong [OF c(4) fr]) simp
    show "create_ok ?k1"
    proof -
      have "creating ?k1 p = creating k p" for p
        using d(2) unfolding creating_def st fr by auto
      then show ?thesis
        using c(5) unfolding create_ok_def fr by simp
    qed
    show "blocked_ok ?k1"
      using c(6) unfolding blocked_ok_def st fr by auto
    show "stack_ok (frames ?k1 t)" for t
      unfolding fr by (rule c(7))
  qed
  then have "switch_ok ?k1"
    by (intro switch_okI [OF ok _ st]) auto
  then show ?thesis
    using thread_die_effect [OF y] by (auto intro: schedule_ok)
qed

lemma idle_loop_ok:
  assumes ok: "sched_ok k" and a: "at_call k Idle_loop fs" and y: "idle_loop (pop_call k) = Some k'"
  shows "sched_ok k'"
proof -
  note d = sched_okD [OF ok] and c = core_okD [OF sched_okD(1) [OF ok]]
  let ?r = "running k" and ?fs = "[Idle_halt] @ fs"
  let ?k1 = "set_status ?r THREAD_BLOCKED (push_calls [Idle_halt] ((pop_call k)\<lparr>intr_on := False\<rparr>))"
  have sf: "stack_for k ?r ?fs"
    by (rule stack_for_replace [OF d(1) a d(3)]) (auto simp: class_defs starts_idle_def creates_def)
  have st: "st ?k1 = (st k)(?r \<mapsto> THREAD_BLOCKED)"
    using d(2) by simp
  have fr: "frames ?k1 = (frames k)(?r := ?fs)"
    using fun_cong [OF at_call_stack(6) [OF d(1) a], of ?r] by simp
  have w: "wait_ok ?k1"
    by (rule wait_ok_semas [OF c(3)]) (use d(2) in \<open>auto simp: st fr simp del: st_simps st_set_status split: if_splits\<close>)
  have rd: "ready_ok ?k1"
    using c(1) d(2) unfolding ready_ok_def st by simp
  have "core_ok ?k1"
    by (rule core_ok_leave [OF ok sf st _ _ _ _ fr rd w]) (use d(2) in auto)
  then have "switch_ok ?k1"
    by (intro switch_okI [OF ok _ st]) auto
  moreover have "thread_block (push_calls [Idle_halt] ((pop_call k)\<lparr>intr_on := False\<rparr>)) = Some k'"
    using y by (simp add: idle_loop_def intr_disable_def)
  ultimately show ?thesis
    using thread_block_effect [of "push_calls [Idle_halt] ((pop_call k)\<lparr>intr_on := False\<rparr>)" k'] by (auto intro: schedule_ok)
qed

section \<open>New threads\<close>

lemma wsum_nonneg: "(\<And>f. 0 \<le> g f) \<Longrightarrow> 0 \<le> wsum g fs"
  by (induction fs) auto

lemma starts_idle_nonneg: "0 \<le> starts_idle c"
  by (cases c) (auto simp: starts_idle_def)

lemma creates_nonneg: "0 \<le> creates p c"
  by (cases c) (auto simp: creates_def)

lemma token_None: "token g fr None \<longleftrightarrow> (\<forall>t. wsum g (fr t) = 0)"
  by (simp add: token_def)

lemma token_at:
  assumes "token g fr tk" "0 < wsum g (fr t)"
  shows "tk = Some t \<and> wsum g (fr t) = 1 \<and> (\<forall>u. u \<noteq> t \<longrightarrow> wsum g (fr u) = 0)"
  using assms unfolding token_def by (metis less_irrefl option.inject)

lemma core_ok_create:
  assumes ok: "sched_ok k" and p: "st k p = None"
    and cs: "inner_call (Create_finish p cs)"
    and idle: "starts_idle (Create_finish p cs) = 1 \<Longrightarrow> idle_thread k = 0 \<and> (\<forall>t. wsum starts_idle (frames k t) = 0)"
    and r: "running k \<noteq> idle_thread k" "\<And>f. f \<in> set (frames k (running k)) \<Longrightarrow> \<not> is_idle f \<and> \<not> is_retry f"
    and st: "st k' = (st k)(p \<mapsto> THREAD_BLOCKED)" "magics k' = (magics k)(p \<mapsto> THREAD_MAGIC)" "p \<noteq> 0"
    and al: "all_list k' = all_list k @ [p]"
    and fr: "frames k' = (frames k)(running k := alloc_tid_calls p @ Create_finish p cs # frames k (running k))"
    and same: "idle_thread k' = idle_thread k" "semas k' = semas k" "ready_list k' = ready_list k"
  shows "core_ok k'"
proof -
  note d = sched_okD [OF ok] and c = core_okD [OF sched_okD(1) [OF ok]]
  let ?r = "running k"
  have pr: "p \<noteq> ?r"
    using p d(2) by auto
  have fp: "frames k p = []"
    using allD [OF c(2), of p] p by auto
  have pi: "p \<noteq> idle_thread k"
    using fp idle_okD(5) [OF c(4)] st(3) by auto
  have cw: "wsum (creates q) (frames k' t) = wsum (creates q) (frames k t) + of_bool (q = p \<and> t = ?r)" for q t
    by (simp add: fr alloc_tid_calls_def creates_def)
  have iw: "wsum starts_idle (frames k' t) = wsum starts_idle (frames k t) + (if t = ?r then starts_idle (Create_finish p cs) else 0)" for t
    by (simp add: fr alloc_tid_calls_def starts_idle_def)
  have inn: "inner_call f \<and> \<not> is_retry f \<and> \<not> is_idle f \<and> \<not> is_idle_loop f \<and> \<not> final_call f" if "f \<in> set (alloc_tid_calls p @ [Create_finish p cs])" for f
    using that cs by (auto simp: alloc_tid_calls_def class_defs)
  show ?thesis
  proof (rule core_okI)
    show "ready_ok k'"
      using c(1) p unfolding ready_ok_def st(1) same by auto
    show "all_ok k'"
      unfolding all_ok_def
    proof (intro conjI allI impI)
      show "distinct (all_list k')"
        using c(2) p allD(1) [OF c(2), of p] by (simp add: al all_ok_def)
      show mem: "t \<in> set (all_list k') \<longleftrightarrow> st k' t \<noteq> None \<and> st k' t \<noteq> Some THREAD_DYING" for t
        using allD(1) [OF c(2), of t] by (simp add: al st(1))
      show "t \<in> set (all_list k')" if "frames k' t \<noteq> []" for t
        using that allD(2) [OF c(2), of t] allD(1) [OF c(2), of ?r] d(2) by (auto simp: al fr split: if_splits)
      show "t \<noteq> 0" "m = THREAD_MAGIC" if "magics k' t = Some m" for t m
        using that c(2) st(3) by (auto simp: all_ok_def st(2) split: if_splits)
    qed
    show "wait_ok k'"
      by (rule wait_ok_semas [OF c(3)])
        (use d(2) p fp pr in \<open>auto simp: st(1) fr same alloc_tid_calls_def split: if_splits\<close>)
    show "idle_ok k'"
      unfolding idle_ok_def same
    proof (intro conjI allI impI)
      fix t
      assume h: "t \<noteq> 0 \<and> t = idle_thread k \<or> (\<exists>f \<in> set (frames k' t). is_idle f)"
      then have "t \<noteq> ?r"
        using r inn by (auto simp: fr)
      then show "\<forall>f \<in> set (frames k' t). idle_call f"
        using h idle_okD(1,2) [OF c(4)] by (auto simp: fr)
    next
      show "t \<noteq> 0 \<and> t = idle_thread k \<longleftrightarrow> (\<exists>f \<in> set (frames k' t). is_idle_loop f)" for t
      proof -
        have "(\<exists>f \<in> set (frames k' t). is_idle_loop f) \<longleftrightarrow> (\<exists>f \<in> set (frames k t). is_idle_loop f)"
          using inn by (auto simp: fr)
        then show ?thesis
          using idle_okD(3,4) [OF c(4)] by blast
      qed
    next
      show "\<exists>tk. token starts_idle (frames k') tk \<and> (idle_thread k \<noteq> 0 \<longrightarrow> tk = None)"
      proof (cases "starts_idle (Create_finish p cs) = 1")
        case True
        then show ?thesis
          using idle by (intro exI [of _ "Some ?r"]) (simp add: token_def iw)
      next
        case False
        then have "starts_idle (Create_finish p cs) = 0"
          by (auto simp: starts_idle_def)
        then show ?thesis
          using c(4) iw token_cong [of starts_idle "frames k'" "frames k"] unfolding idle_ok_def by simp
      qed
    qed
    show "create_ok k'"
      unfolding create_ok_def
    proof
      fix q
      have qk: "if creating k q then \<exists>t. token (creates q) (frames k) (Some t) else token (creates q) (frames k) None"
        using c(5) by (simp add: create_ok_def)
      show "if creating k' q then \<exists>t. token (creates q) (frames k') (Some t) else token (creates q) (frames k') None"
      proof (cases "q = p")
        case True
        have "\<not> creating k p"
          using p by (simp add: creating_def)
        then have "token (creates p) (frames k') (Some ?r)"
          using qk True by (simp add: token_def cw)
        moreover have "creating k' p"
          using fp pr by (simp add: creating_def st(1) fr)
        ultimately show ?thesis
          using True by auto
      next
        case False
        then have "creating k' q = creating k q"
          using d(2) by (auto simp: creating_def st(1) fr)
        then show ?thesis
          using qk False token_cong [of "creates q" "frames k'" "frames k"] by (simp add: cw)
      qed
    qed
    show "blocked_ok k'"
      using c(6) d(2) fp pr unfolding blocked_ok_def st(1) fr by auto
    show "stack_ok (frames k' t)" for t
      using c(7) [of t] inn r(2) by (auto simp: fr stack_ok_def butlast_append alloc_tid_calls_def)
  qed
qed

lemma thread_create_ok:
  assumes ok: "sched_ok k" and p: "threads k p = None" and cs: "inner_call (Create_finish p cs)"
    and idle: "starts_idle (Create_finish p cs) = 1 \<Longrightarrow> idle_thread k = 0 \<and> (\<forall>t. wsum starts_idle (frames k t) = 0)"
    and r: "running k \<noteq> idle_thread k" "\<And>f. f \<in> set (frames k (running k)) \<Longrightarrow> \<not> is_idle f \<and> \<not> is_retry f"
    and y: "thread_create p nm pri cs k = Some k'"
  shows "sched_ok k'"
proof (cases "p = 0")
  case True
  then have "k' = set_eax TID_ERROR k"
    using y by (simp add: thread_create_def)
  then show ?thesis
    using r by (intro quiet_nil_ok [OF ok]) auto
next
  case False
  note d = sched_okD [OF ok]
  obtain th where k': "k' = push_calls (alloc_tid_calls p @ [Create_finish p cs])
      (k\<lparr>threads := (threads k)(p \<mapsto> th), all_list := all_list k @ [p], intr_on := intr_on k\<rparr>)"
    and th: "t_status th = THREAD_BLOCKED" "t_magic th = THREAD_MAGIC"
    using thread_create_effect [OF y False] .
  have st: "st k' = (st k)(p \<mapsto> THREAD_BLOCKED)" "magics k' = (magics k)(p \<mapsto> THREAD_MAGIC)"
    using th by (auto simp: k' st_def magics_def fun_eq_iff)
  have pr: "p \<noteq> running k"
    using p d(2) by (auto simp: st_def)
  have "core_ok k'"
    by (rule core_ok_create [OF ok _ cs idle r st False]) (use p in \<open>auto simp: k' st_def\<close>)
  then show ?thesis
    using st p pr by (intro sched_ok_stay [OF ok]) (auto simp: k' alloc_tid_calls_def is_retry_def st_def)
qed

text \<open>A thread that starts a new call has an empty stack, so it is not the idle thread.\<close>

lemma empty_not_idle:
  assumes "sched_ok k" "frames k (running k) = []"
  shows "running k \<noteq> idle_thread k"
  using idle_okD(5) [OF core_okD(4) [OF sched_okD(1) [OF assms(1)]]] sched_okD(3) [OF assms(1)] assms(2) by auto

lemma push_plain_ok:
  assumes ok: "sched_ok k" and r: "running k \<noteq> idle_thread k"
    and nr: "\<And>f. f \<in> set (frames k (running k)) \<Longrightarrow> \<not> is_idle f \<and> \<not> is_retry f"
    and c: "inner_call c" "\<not> final_call c" "starts_idle c = 0" "\<And>p. creates p c = 0" "\<not> is_idle c" "\<not> is_idle_loop c" "\<not> is_retry c"
  shows "sched_ok (push_calls [c] k)"
proof (rule push_ok [OF ok])
  show "quiet [c] k (push_calls [c] k)"
    by (simp add: quiet_def)
  show "stack_for k (running k) (c # frames k (running k))"
    using nr r by (intro stack_for_push [OF ok] c) auto
qed (use nr c(7) in auto)

lemma create_calls_ok:
  assumes ok: "sched_ok k" and emp: "frames k (running k) = []" and l: "legal c k"
  shows "c = Thread_create p nm pri cs \<Longrightarrow> exec w c k = Some k' \<Longrightarrow> sched_ok k'"
    "c = Process_execute p nm b \<Longrightarrow> exec w c k = Some k' \<Longrightarrow> sched_ok k'"
    "c = Thread_start s p \<Longrightarrow> exec w c k = Some k' \<Longrightarrow> sched_ok k'"
proof -
  note r = empty_not_idle [OF ok emp]
  have plain: "inner_call c \<and> \<not> final_call c \<and> starts_idle c = 0 \<and> creates q c = 0 \<and> \<not> is_idle c \<and> \<not> is_idle_loop c \<and> \<not> is_retry c"
    if "c = Exec_wait \<or> c = Set_level True \<or> c = Sema_down s" for c q s
    using that by (auto simp: class_defs starts_idle_def creates_def)
  show "sched_ok k'" if c: "c = Thread_create p nm pri cs" and ex: "exec w c k = Some k'"
    using l ex emp r unfolding c by (intro thread_create_ok [OF ok, of p cs]) (auto simp: inner_call_def starts_idle_def)
  show "sched_ok k'" if c: "c = Process_execute p nm b" and ex: "exec w c k = Some k'"
  proof (rule thread_create_ok)
    show "sched_ok (push_calls [Exec_wait] k)"
      using r emp plain by (intro push_plain_ok [OF ok]) auto
    show "thread_create p nm PRI_DEFAULT [Start_process b] (push_calls [Exec_wait] k) = Some k'"
      using ex c by (simp add: process_execute_def)
  qed (use l c r emp in \<open>auto simp: inner_call_def starts_idle_def is_idle_def is_retry_def\<close>)
  show "sched_ok k'" if c: "c = Thread_start s p" and ex: "exec w c k = Some k'"
  proof -
    let ?k1 = "k\<lparr>semas := (semas k)(s \<mapsto> \<lparr>s_value = 0, s_waiters = []\<rparr>)\<rparr>"
    have fresh: "semas k s = None" and idle0: "idle_thread k = 0" and al: "all_list k = [running k]" and p: "threads k p = None"
      using l c by (auto simp: fresh_sema_def)
    have k1: "sched_ok ?k1"
      using emp fresh by (intro quiet_nil_ok [OF ok]) auto
    have k2: "sched_ok (push_calls [Sema_down s] ?k1)"
      by (rule push_plain_ok [OF k1]) (use r emp plain in auto)
    have "sched_ok (push_calls [Set_level True] (push_calls [Sema_down s] ?k1))"
      by (rule push_plain_ok [OF k2]) (use r emp plain in \<open>auto simp: is_idle_def is_retry_def\<close>)
    then have k3: "sched_ok (push_calls [Set_level True, Sema_down s] ?k1)"
      by (simp add: push_calls_def)
    have others: "frames k t = []" if "t \<noteq> running k" for t
      using that allD(2) [OF core_okD(2) [OF sched_okD(1) [OF ok]], of t] al by auto
    have y: "thread_create p [105, 100, 108, 101, 0] PRI_MIN [Idle s] (push_calls [Set_level True, Sema_down s] ?k1) = Some k'"
      using ex c by (auto simp: thread_start_def sema_init_def Let_def bind_eq_Some_conv)
    show ?thesis
      by (rule thread_create_ok [OF k3 _ _ _ _ _ y])
        (use p r emp idle0 others in \<open>auto simp: inner_call_def starts_idle_def is_idle_def is_retry_def\<close>)
  qed
qed

lemma core_ok_finish:
  assumes ok: "sched_ok k" and F: "frames k (running k) = Create_finish p cs # fs"
    and st: "st k' = (st k)(p \<mapsto> THREAD_READY)" "magics k' = magics k"
    and fr: "frames k' = (frames k)(running k := fs, p := Kernel_thread # cs)"
    and rd: "ready_list k' = ready_list k @ [p]"
    and same: "all_list k' = all_list k" "idle_thread k' = idle_thread k"
    and sem: "\<And>s x. semas k s = Some x \<Longrightarrow> semas k' s = Some x"
      "\<And>s y. semas k s = None \<Longrightarrow> semas k' s = Some y \<Longrightarrow> s_waiters y = []"
  shows "core_ok k'"
proof -
  note d = sched_okD [OF ok] and c = core_okD [OF sched_okD(1) [OF ok]]
  let ?r = "running k" and ?c = "Create_finish p cs"
  have so: "stack_ok (?c # fs)"
    using c(7) [of ?r] F by simp
  have cs: "cs = [] \<or> (\<exists>b. cs = [Start_process b]) \<or> (\<exists>s. cs = [Idle s])"
    using so by (auto simp: stack_ok_def inner_call_def)
  have pos: "0 < wsum (creates p) (frames k ?r)"
    using wsum_nonneg [of "creates p" fs] creates_nonneg by (simp add: F add_pos_nonneg)
  have cre: "creating k p" and one: "wsum (creates p) fs = 0" "\<And>u. u \<noteq> ?r \<Longrightarrow> wsum (creates p) (frames k u) = 0"
  proof -
    have qk: "if creating k p then \<exists>t. token (creates p) (frames k) (Some t) else token (creates p) (frames k) None"
      using c(5) by (simp add: create_ok_def)
    then show "creating k p"
      using pos token_None [of "creates p" "frames k"] by (metis less_irrefl)
    then obtain t where "token (creates p) (frames k) (Some t)"
      using qk by auto
    from token_at [OF this pos] show "wsum (creates p) fs = 0" "\<And>u. u \<noteq> ?r \<Longrightarrow> wsum (creates p) (frames k u) = 0"
      by (auto simp: F)
  qed
  have pst: "st k p = Some THREAD_BLOCKED" and fp: "frames k p = []"
    using cre by (auto simp: creating_def)
  have pr: "p \<noteq> ?r"
    using pst d(2) by auto
  have p0: "p \<noteq> 0"
    using threadD [OF c(2), of p] pst by (auto simp: st_def)
  have pi: "p \<noteq> idle_thread k"
    using fp idle_okD(5) [OF c(4)] p0 by auto
  have ri: "?r \<noteq> idle_thread k" "\<And>f. f \<in> set fs \<Longrightarrow> \<not> is_idle f"
    using idle_okD(1) [OF c(4), of ?c] idle_okD(2) [OF c(4), of _ ?r ?c] d(3) F by (auto simp: idle_call_def)
  have cw: "wsum (creates q) (frames k' t) = wsum (creates q) (frames k t) - of_bool (q = p \<and> t = ?r)" for q t
    using cs fp pr F by (auto simp: fr)
  have iw: "wsum starts_idle (frames k' t) = wsum starts_idle (frames k t)
      + (if t = p then starts_idle ?c else 0) - (if t = ?r then starts_idle ?c else 0)" for t
    using cs fp pr F by (auto simp: fr starts_idle_def)
  show ?thesis
  proof (rule core_okI)
    show "ready_ok k'"
      using c(1) pst pi readyD [OF c(1), of p] unfolding ready_ok_def st(1) rd same by auto
    show "all_ok k'"
      unfolding all_ok_def same st(2)
    proof (intro conjI allI impI)
      show mem: "t \<in> set (all_list k) \<longleftrightarrow> st k' t \<noteq> None \<and> st k' t \<noteq> Some THREAD_DYING" for t
        using allD(1) [OF c(2), of t] pst by (auto simp: st(1))
      show "t \<in> set (all_list k)" if "frames k' t \<noteq> []" for t
        using that allD(2) [OF c(2), of t] allD(1) [OF c(2), of p] allD(1) [OF c(2), of ?r] d(2) pst by (auto simp: fr split: if_splits)
    qed (use c(2) in \<open>auto simp: all_ok_def\<close>)
    have nr: "fs = Sema_retry s b # gs \<Longrightarrow> False" for s b gs
      using so by (auto simp: stack_ok_def is_retry_def)
    show "wait_ok k'"
      by (rule wait_ok_semas [OF c(3)]) (use sem d(2) fp pr in \<open>auto simp: st(1) fr split: if_splits dest: nr\<close>)
    show "idle_ok k'"
      unfolding idle_ok_def same
    proof (intro conjI allI impI)
      fix t
      assume h: "t \<noteq> 0 \<and> t = idle_thread k \<or> (\<exists>f \<in> set (frames k' t). is_idle f)"
      show "\<forall>f \<in> set (frames k' t). idle_call f"
      proof (cases "t = p")
        case True
        then show ?thesis
          using h pi cs by (auto simp: fr class_defs)
      next
        case False
        then have "t \<noteq> ?r"
          using h ri by (auto simp: fr)
        then show ?thesis
          using h False idle_okD(1,2) [OF c(4)] by (auto simp: fr)
      qed
    next
      show "t \<noteq> 0 \<and> t = idle_thread k \<longleftrightarrow> (\<exists>f \<in> set (frames k' t). is_idle_loop f)" for t
      proof -
        have "(\<exists>f \<in> set (frames k' t). is_idle_loop f) \<longleftrightarrow> (\<exists>f \<in> set (frames k t). is_idle_loop f)"
          using cs fp pr F by (auto simp: fr is_idle_loop_def)
        then show ?thesis
          using idle_okD(3,4) [OF c(4)] by blast
      qed
    next
      obtain tk where tk: "token starts_idle (frames k) tk" "idle_thread k \<noteq> 0 \<longrightarrow> tk = None"
        using c(4) by (auto simp: idle_ok_def)
      show "\<exists>tk. token starts_idle (frames k') tk \<and> (idle_thread k \<noteq> 0 \<longrightarrow> tk = None)"
      proof (cases "starts_idle ?c = 0")
        case True
        then show ?thesis
          using tk token_cong [of starts_idle "frames k'" "frames k" tk, OF iw [unfolded True, simplified]] by auto
      next
        case False
        then have c1: "starts_idle ?c = 1"
          by (auto simp: starts_idle_def)
        then have "0 < wsum starts_idle (frames k ?r)"
          using wsum_nonneg [of starts_idle fs] starts_idle_nonneg by (simp add: F add_pos_nonneg)
        from token_at [OF tk(1) this] have "tk = Some ?r" "wsum starts_idle (frames k ?r) = 1"
          "\<And>u. u \<noteq> ?r \<Longrightarrow> wsum starts_idle (frames k u) = 0"
          by auto
        then show ?thesis
          using tk(2) c1 pr by (intro exI [of _ "Some p"]) (simp add: token_def iw)
      qed
    qed
    show "create_ok k'"
      unfolding create_ok_def
    proof
      fix q
      have qk: "if creating k q then \<exists>t. token (creates q) (frames k) (Some t) else token (creates q) (frames k) None"
        using c(5) by (simp add: create_ok_def)
      show "if creating k' q then \<exists>t. token (creates q) (frames k') (Some t) else token (creates q) (frames k') None"
      proof (cases "q = p")
        case True
        have "\<not> creating k' p"
          by (simp add: creating_def st(1))
        moreover have "token (creates p) (frames k') None"
          using one F by (auto simp: token_None cw)
        ultimately show ?thesis
          using True by simp
      next
        case False
        then have "creating k' q = creating k q"
          using d(2) by (auto simp: creating_def st(1) fr)
        then show ?thesis
          using qk False token_cong [of "creates q" "frames k'" "frames k"] by (simp add: cw)
      qed
    qed
    show "blocked_ok k'"
      using c(6) d(2) unfolding blocked_ok_def st(1) fr by auto
    show "stack_ok (frames k' t)" for t
    proof -
      have "stack_ok (Kernel_thread # cs)"
        using cs by (auto simp: stack_ok_def class_defs)
      moreover have "stack_ok fs"
        using so by (cases fs) (auto simp: stack_ok_def)
      ultimately show ?thesis
        using c(7) [of t] by (simp add: fr)
    qed
  qed
qed

lemma fresh_ws_semas:
  assumes "fresh_ws w k"
  shows "semas k (lock_sema (ws_lock w)) = None" "semas k (ws_dead w) = None" "semas k (ws_load_finished w) = None"
  using assms by (auto simp: fresh_ws_def fresh_lock_def fresh_sema_def)

lemma create_finish_ok:
  assumes ok: "sched_ok k" and F: "frames k (running k) = Create_finish p cs # fs" and w: "fresh_ws w k"
    and y: "thread_create_finish p cs w (pop_call k) = Some k'"
  shows "sched_ok k'"
  using y
proof (cases rule: thread_create_finish_effect)
  case (1 ths tid)
  note d = sched_okD [OF ok]
  have th: "st (k\<lparr>threads := ths\<rparr>) = st k" "magics (k\<lparr>threads := ths\<rparr>) = magics k"
    using 1(1) by (auto simp: same_threads_def st_def magics_def fun_eq_iff)
  let ?K = "(with_ws w tid (pop_call k))\<lparr>threads := ths, frames := (frames (pop_call k))(p := Kernel_thread # cs),
    ready_list := ready_list (pop_call k) @ [p]\<rparr>"
  have stK: "st ?K = st k" and mgK: "magics ?K = magics k"
    using th by (simp_all add: st_def magics_def fun_eq_iff)
  have st: "st k' = (st k)(p \<mapsto> THREAD_READY)" and mg: "magics k' = magics k"
    using 1(2) unfolding 1(3) by (simp_all only: st_simps st_set_status stK mgK) simp
  have pr: "p \<noteq> running k"
    using 1(2) d(2) by auto
  have "core_ok k'"
    by (rule core_ok_finish [OF ok F st mg]) (use fresh_ws_semas [OF w] F in \<open>auto simp: 1(3) with_ws_def split: if_splits\<close>)
  moreover have "\<not> is_retry f" if "frames k' (running k) = f # gs" for f gs
    using that pr core_okD(7) [OF d(1), of "running k"] F by (auto simp: 1(3) with_ws_def stack_ok_def)
  ultimately show ?thesis
    using st 1(2) pr by (intro sched_ok_stay [OF ok]) (auto simp: 1(3) with_ws_def)
qed

section \<open>The idle thread\<close>

lemma idle_begin_ok:
  assumes ok: "sched_ok k" and F: "frames k (running k) = Idle s # fs" and y: "idle_begin s (pop_call k) = Some k'"
  shows "sched_ok k'"
proof -
  note d = sched_okD [OF ok] and c = core_okD [OF sched_okD(1) [OF ok]]
  let ?r = "running k" and ?fs = "Sema_up s # Idle_loop # fs"
  have k': "k' = push_calls [Sema_up s, Idle_loop] ((pop_call k)\<lparr>idle_thread := ?r\<rparr>)"
    using y by (auto simp: idle_begin_def bind_eq_Some_conv thread_current_eq)
  have fr: "frames k' = (frames k)(?r := ?fs)"
    by (simp add: k' F)
  have idle': "idle_thread k' = ?r" and st: "st k' = st k"
    by (simp_all add: k')
  have pure: "idle_call f" if "f \<in> set fs" for f
    using idle_okD(2) [OF c(4), of "Idle s" ?r f] that F by (auto simp: is_idle_def)
  obtain tk where tk: "token starts_idle (frames k) tk" "idle_thread k \<noteq> 0 \<longrightarrow> tk = None"
    using c(4) by (auto simp: idle_ok_def)
  have "0 < wsum starts_idle (frames k ?r)"
    using wsum_nonneg [of starts_idle fs] starts_idle_nonneg by (simp add: F add_pos_nonneg)
  from token_at [OF tk(1) this] have one: "tk = Some ?r" "wsum starts_idle fs = 0" "\<And>u. u \<noteq> ?r \<Longrightarrow> wsum starts_idle (frames k u) = 0"
    by (auto simp: F)
  have i0: "idle_thread k = 0"
    using tk(2) one(1) by auto
  have noloop: "\<not> is_idle_loop f" if "f \<in> set (frames k t)" for f t
    using idle_okD(4) [OF c(4) that] i0 by auto
  have core: "core_ok k'"
  proof (rule core_okI)
    show "ready_ok k'"
    proof -
      have "st k t = Some THREAD_READY \<and> t \<noteq> ?r \<longleftrightarrow> st k t = Some THREAD_READY \<and> t \<noteq> idle_thread k" for t
        using d(2) i0 threadD [OF c(2), of t] by (auto simp: st_def)
      then show ?thesis
        using c(1) unfolding ready_ok_def st idle' by (simp add: k')
    qed
    show "all_ok k'"
      unfolding all_ok_def st
    proof (intro conjI allI impI)
      show mem: "t \<in> set (all_list k') \<longleftrightarrow> st k t \<noteq> None \<and> st k t \<noteq> Some THREAD_DYING" for t
        using allD(1) [OF c(2), of t] by (simp add: k')
      show "t \<in> set (all_list k')" if "frames k' t \<noteq> []" for t
        using that allD(2) [OF c(2), of t] F by (auto simp: fr k' split: if_splits)
    qed (use c(2) in \<open>auto simp: all_ok_def k'\<close>)
    show "wait_ok k'"
      by (rule wait_ok_semas [OF c(3)]) (use d(2) in \<open>auto simp: st fr k' split: if_splits\<close>)
    show "idle_ok k'"
      unfolding idle_ok_def idle'
    proof (intro conjI allI impI)
      fix t
      assume h: "t \<noteq> 0 \<and> t = ?r \<or> (\<exists>f \<in> set (frames k' t). is_idle f)"
      show "\<forall>f \<in> set (frames k' t). idle_call f"
      proof (cases "t = ?r")
        case True
        then show ?thesis
          using pure by (auto simp: fr idle_call_def)
      next
        case False
        then show ?thesis
          using h idle_okD(2) [OF c(4)] by (auto simp: fr)
      qed
    next
      show "t \<noteq> 0 \<and> t = ?r \<longleftrightarrow> (\<exists>f \<in> set (frames k' t). is_idle_loop f)" for t
        using noloop [of _ t] d(3) by (auto simp: fr is_idle_loop_def)
    next
      have "token starts_idle (frames k') None"
        using one(2,3) by (auto simp: token_None fr starts_idle_def)
      then show "\<exists>tk. token starts_idle (frames k') tk \<and> (?r \<noteq> 0 \<longrightarrow> tk = None)"
        by blast
    qed
    show "create_ok k'"
    proof -
      have "creating k' p = creating k p" for p
        using d(2) by (auto simp: creating_def st fr)
      moreover have "token (creates p) (frames k') tk = token (creates p) (frames k) tk" for p tk
        using F by (intro token_cong) (auto simp: fr creates_def)
      ultimately show ?thesis
        using c(5) unfolding create_ok_def by simp
    qed
    show "blocked_ok k'"
      using c(6) d(2) unfolding blocked_ok_def st fr by auto
    show "stack_ok (frames k' t)" for t
    proof -
      have so: "stack_ok (Idle s # fs)"
        using c(7) [of ?r] F by simp
      have "stack_ok ?fs"
        using so by (cases fs) (auto simp: stack_ok_def class_defs)
      then show ?thesis
        using c(7) [of t] by (simp add: fr)
    qed
  qed
  show ?thesis
    by (rule sched_ok_stay [OF ok core]) (auto simp: k' is_retry_def)
qed

section \<open>All steps\<close>

lemma exec_ok:
  assumes ok: "sched_ok k" and a: "at_call k c fs" and w: "fresh_ws w k" and ex: "exec w c (pop_call k) = Some k'"
  shows "sched_ok k'"
proof (cases "quiet_call c")
  case True
  then show ?thesis
    by (rule exec_quiet_ok [OF ok a _ ex])
next
  case False
  note d = sched_okD [OF ok] and s = at_call_stack [OF sched_okD(1) [OF ok] a] and i = at_call_idle [OF sched_okD(1) [OF ok] a sched_okD(3) [OF ok]]
  have nr: "\<not> is_retry f" if "f \<in> set (frames (pop_call k) (running (pop_call k)))" for f
    using that s(3) [of f] fun_cong [OF s(6), of "running k"] by simp
  have pop: "sched_ok (pop_call k)" if "starts_idle c = 0" "\<And>p. creates p c = 0" "\<not> is_idle_loop c"
    using that by (rule pop_ok [OF ok a])
  have new: "frames k (running k) = [] \<and> legal c k \<and> pop_call k = k" if "\<not> inner_call c"
    using that a by (auto simp: at_call_def pop_call_empty)
  have old: "frames k (running k) = c # fs" if "\<not> legal c k"
    using that a by (auto simp: at_call_def)
  have busy: "running (pop_call k) \<noteq> idle_thread (pop_call k)" "f \<in> set (frames (pop_call k) (running (pop_call k))) \<Longrightarrow> \<not> is_idle f"
    if "\<not> idle_call c" for f
    using that i(1,2) fun_cong [OF s(6), of "running k"] by auto
  show ?thesis
  proof (cases c)
    case (Sema_down x)
    then show ?thesis
      using sema_down_effect [of x "pop_call k" k'] ex
      by (intro sema_retry_ok [OF pop nr busy]) (auto simp: class_defs starts_idle_def creates_def)
  next
    case (Sema_retry x b)
    then have "sema_retry x b ((pop_call k)\<lparr>intr_on := intr_on k\<rparr>) = Some k'"
      using ex by (simp add: pop_call_def)
    then show ?thesis
      using Sema_retry by (intro sema_retry_ok [OF pop nr busy]) (auto simp: class_defs starts_idle_def creates_def)
  next
    case (Sema_up x)
    then show ?thesis
      using ex by (intro sema_up_ok [OF pop nr]) (auto simp: class_defs starts_idle_def creates_def)
  next
    case Thread_yield
    then show ?thesis
      using ex by (intro thread_yield_ok [OF pop nr]) (auto simp: class_defs starts_idle_def creates_def)
  next
    case Thread_die
    then have "fs = []"
      using s(2) by (auto simp: final_call_def)
    then show ?thesis
      using Thread_die ex s(6) by (intro thread_die_ok [OF pop]) (auto simp: class_defs starts_idle_def creates_def)
  next
    case (Thread_create p nm pri cs)
    then show ?thesis
      using new ex create_calls_ok(1) [OF ok, of c p nm pri cs w k'] by (simp add: inner_call_def)
  next
    case (Process_execute p nm b)
    then show ?thesis
      using new ex create_calls_ok(2) [OF ok, of c p nm b w k'] by (simp add: inner_call_def)
  next
    case (Thread_start x q)
    then show ?thesis
      using new ex create_calls_ok(3) [OF ok, of c x q w k'] by (simp add: inner_call_def)
  next
    case (Create_finish p cs)
    then show ?thesis
      using old ex w by (intro create_finish_ok [OF ok]) auto
  next
    case (Idle x)
    then show ?thesis
      using old ex by (intro idle_begin_ok [OF ok]) auto
  next
    case Idle_loop
    then show ?thesis
      using a ex by (intro idle_loop_ok [OF ok]) auto
  qed (use False in simp_all)
qed

lemma tick_ok:
  assumes ok: "sched_ok k" and on: "intr_on k" and ti: "take_interrupt k = Some k'" and t: "thread_ticks k < TIME_SLICE"
  shows "sched_ok k'"
proof -
  note d = sched_okD [OF ok]
  let ?k0 = "k\<lparr>thread_ticks := thread_ticks k + 1\<rparr>"
  have nr: "\<not> is_retry f" if "f \<in> set (frames k (running k))" for f
  proof (cases "frames k (running k)")
    case (Cons g gs)
    then have "\<not> is_retry g"
      using ok on by (auto simp: sched_ok_def)
    then show ?thesis
      using that Cons core_okD(7) [OF d(1), of "running k"] by (auto simp: stack_ok_def)
  qed (use that in auto)
  have ok0: "sched_ok ?k0"
  proof (rule sched_ok_stay [OF ok])
    show "core_ok ?k0"
      by (rule core_ok_stack [OF d(1,2) stack_for_refl [OF ok] nr]) auto
  qed (use nr in auto)
  have sf: "stack_for ?k0 (running ?k0) (Iret # frames ?k0 (running ?k0))"
    by (rule stack_for_push [OF ok0]) (use nr in \<open>auto simp: class_defs starts_idle_def creates_def\<close>)
  have push: "sched_ok k1" if "quiet [Iret] ?k0 k1" for k1
    by (rule push_ok [OF ok0 that sf]) (use nr in \<open>auto simp: is_retry_def\<close>)
  from ti t show ?thesis
  proof (cases rule: take_interrupt_effect)
    case (stay k1)
    then show ?thesis
      using push by simp
  next
    case (yield k1)
    then show ?thesis
      using nr by (intro thread_yield_ok [OF push]) (auto simp: quiet_def is_retry_def)
  qed
qed

lemma kstep_ok:
  assumes "kstep a k k'" "sched_ok k" "thread_ticks k < TIME_SLICE"
  shows "sched_ok k'"
  using assms(1)
proof cases
  case (run c fs w)
  then have "at_call k c fs"
    using core_okD(7) [OF sched_okD(1) [OF assms(2)], of "running k"] by (auto simp: at_call_def stack_ok_def)
  then show ?thesis
    using exec_ok [OF assms(2)] run by blast
next
  case (call c w)
  then have "at_call k c []" "pop_call k = k"
    by (auto simp: at_call_def pop_call_empty)
  then show ?thesis
    using exec_ok [OF assms(2), of c "[]" w k'] call by simp
next
  case tick
  then show ?thesis
    using tick_ok [OF assms(2)] assms(3) by blast
qed

lemma boot_ok:
  assumes p: "p \<noteq> 0" and k: "thread_init (boot_state p) = Some k"
  shows "sched_ok k"
proof -
  let ?k0 = "(boot_state p)\<lparr>holder := [tid_lock \<mapsto> 0], semas := [lock_sema tid_lock \<mapsto> \<lparr>s_value = 1, s_waiters = []\<rparr>],
    ready_list := [], all_list := [], initial_thread := p\<rparr>"
  obtain k1 where k1: "init_thread p [109, 97, 105, 110, 0] PRI_DEFAULT ?k0 = Some k1"
    and k': "k = push_calls (alloc_tid_calls p) (set_status p THREAD_RUNNING k1)"
    using k by (auto simp: thread_init_def lock_init_def sema_init_def Let_def bind_eq_Some_conv running_thread_def boot_state_def)
  obtain th where k1': "k1 = ?k0\<lparr>threads := (threads ?k0)(p \<mapsto> th), all_list := all_list ?k0 @ [p], intr_on := intr_on ?k0\<rparr>"
    and th: "t_status th = THREAD_BLOCKED" "t_magic th = THREAD_MAGIC" "p \<noteq> 0"
    using init_thread_effect [OF k1] .
  have fr: "frames k = (\<lambda>_. [])(p := alloc_tid_calls p)"
    by (simp add: k' k1' boot_state_def)
  have st: "st k = [p \<mapsto> THREAD_RUNNING]"
    by (simp add: k' k1' boot_state_def st_def fun_eq_iff set_status_def)
  have rest: "magics k = [p \<mapsto> THREAD_MAGIC]" "all_list k = [p]" "ready_list k = []" "idle_thread k = 0" "running k = p"
    "semas k = [lock_sema tid_lock \<mapsto> \<lparr>s_value = 1, s_waiters = []\<rparr>]" "\<not> in_external_intr k" "\<not> intr_on k"
    using th by (auto simp: k' k1' boot_state_def magics_def fun_eq_iff)
  have cls: "inner_call f \<and> \<not> is_retry f \<and> \<not> is_idle f \<and> \<not> is_idle_loop f \<and> \<not> final_call f \<and> starts_idle f = 0 \<and> creates q f = 0"
    if "f \<in> set (alloc_tid_calls p)" for f q
    using that by (auto simp: alloc_tid_calls_def class_defs starts_idle_def creates_def)
  have "core_ok k"
  proof (rule core_okI)
    show "ready_ok k" "all_ok k"
      using p by (auto simp: ready_ok_def all_ok_def st fr rest)
    show "wait_ok k"
      using cls by (auto simp: wait_ok_def st fr rest alloc_tid_calls_def split: if_splits)
    show "idle_ok k"
      using cls by (auto simp: idle_ok_def fr rest alloc_tid_calls_def token_None starts_idle_def intro!: exI [of _ None])
    show "create_ok k"
      using cls by (auto simp: create_ok_def creating_def fr st alloc_tid_calls_def token_None creates_def)
    show "blocked_ok k"
      by (simp add: blocked_ok_def st)
    show "stack_ok (frames k t)" for t
      using cls by (auto simp: fr stack_ok_def alloc_tid_calls_def)
  qed
  then show ?thesis
    using rest by (auto simp: sched_ok_def st split: list.splits)
qed

lemma kreach_ok: "kreach k \<Longrightarrow> sched_ok k"
proof (induction rule: kreach.induct)
  case (boot p k)
  then show ?case
    by (rule boot_ok)
next
  case (step k a k')
  then show ?case
    using kstep_ok kreach_ticks by blast
qed

lemma creates_zero: "(\<And>cs. f \<noteq> Create_finish p cs) \<Longrightarrow> creates p f = 0"
  by (cases f) (auto simp: creates_def)

lemma creates_member: "wsum (creates p) fs = 1 \<Longrightarrow> \<exists>cs. Create_finish p cs \<in> set fs"
proof (induction fs)
  case (Cons f fs)
  then show ?case
    using creates_zero [of f p] by (cases "\<exists>cs. f = Create_finish p cs") auto
qed simp

text \<open>
  C1: the state of the scheduler stays consistent in every execution.  Exactly one thread
  has the status \<open>THREAD_RUNNING\<close>, and it is the thread that runs.  The run queue holds
  every ready thread exactly once, apart from the idle thread.  The wait list of a semaphore
  has no duplicates and holds blocked threads only, and no thread is on two wait lists.  A
  blocked thread is on a wait list, or it is the idle thread, or the call that creates it
  has not returned: no thread is ever lost.
\<close>

theorem scheduler_invariant:
  assumes "kreach k"
  shows "(\<forall>t. st k t = Some THREAD_RUNNING \<longleftrightarrow> t = running k)
    \<and> distinct (ready_list k) \<and> (\<forall>t. t \<in> set (ready_list k) \<longleftrightarrow> st k t = Some THREAD_READY \<and> t \<noteq> idle_thread k)
    \<and> (\<forall>s x. semas k s = Some x \<longrightarrow> distinct (s_waiters x) \<and> (\<forall>t \<in> set (s_waiters x). st k t = Some THREAD_BLOCKED))
    \<and> (\<forall>s x s' x' t. semas k s = Some x \<and> semas k s' = Some x' \<and> t \<in> set (s_waiters x) \<inter> set (s_waiters x') \<longrightarrow> s = s')
    \<and> (\<forall>t. st k t = Some THREAD_BLOCKED \<longrightarrow> (\<exists>s x. semas k s = Some x \<and> t \<in> set (s_waiters x)) \<or> t = idle_thread k
         \<or> (\<exists>u cs. Create_finish t cs \<in> set (frames k u)))"
proof (intro conjI allI impI)
  note ok = kreach_ok [OF assms]
  note d = sched_okD [OF ok] and c = core_okD [OF sched_okD(1) [OF ok]]
  show "st k t = Some THREAD_RUNNING \<longleftrightarrow> t = running k" for t
    by (rule d(5))
  show "distinct (ready_list k)" "t \<in> set (ready_list k) \<longleftrightarrow> st k t = Some THREAD_READY \<and> t \<noteq> idle_thread k" for t
    using c(1) by (simp_all add: ready_ok_def)
  show "distinct (s_waiters x)" "\<forall>t \<in> set (s_waiters x). st k t = Some THREAD_BLOCKED" if "semas k s = Some x" for s x
    using waitD(1,2) [OF c(3) that] by auto
  show "s = s'" if "semas k s = Some x \<and> semas k s' = Some x' \<and> t \<in> set (s_waiters x) \<inter> set (s_waiters x')" for s x s' x' t
    using waitD(2) [OF c(3), of s x t] waitD(2) [OF c(3), of s' x' t] that by auto
  fix t
  assume b: "st k t = Some THREAD_BLOCKED"
  show "(\<exists>s x. semas k s = Some x \<and> t \<in> set (s_waiters x)) \<or> t = idle_thread k \<or> (\<exists>u cs. Create_finish t cs \<in> set (frames k u))"
  proof (cases "frames k t")
    case Nil
    then have "creating k t"
      using b by (simp add: creating_def)
    then obtain u where "token (creates t) (frames k) (Some u)"
      using spec [OF c(5) [unfolded create_ok_def], of t] by auto
    then show ?thesis
      using creates_member [of t "frames k u"] by (auto simp: token_def)
  next
    case (Cons f fs)
    then have "is_retry f \<or> f = Idle_halt"
      using spec [OF c(6) [unfolded blocked_ok_def], of t] b by simp
    then show ?thesis
    proof
      assume "is_retry f"
      then obtain s b' where f: "frames k t = Sema_retry s b' # fs"
        using Cons by (auto simp: is_retry_def)
      then obtain x where "semas k s = Some x"
        using waitD(3) [OF c(3)] by blast
      then show ?thesis
        using waitD(2) [OF c(3), of s x t] b f by blast
    next
      assume "f = Idle_halt"
      then show ?thesis
        using idle_okD(4) [OF c(4), of Idle_halt t] Cons by (auto simp: is_idle_loop_def)
    qed
  qed
qed

theorem scheduler_invariant_witness:
  "st demo_state 0xc000e000 = Some THREAD_RUNNING \<and> st demo_state 0xc0020000 = Some THREAD_READY
    \<and> distinct (ready_list demo_state)"
proof -
  note inv = scheduler_invariant [OF demo_state_kreach]
  have "st demo_state (running demo_state) = Some THREAD_RUNNING" "distinct (ready_list demo_state)"
    "0xc0020000 \<in> set (ready_list demo_state) \<longrightarrow> st demo_state 0xc0020000 = Some THREAD_READY"
    using inv by blast+
  then show ?thesis
    using demo_ready by simp
qed

end
