(* ===== verification/Lock_Inv.thy ===== *)
theory Lock_Inv
  imports Sched_Inv
begin

text \<open>
  Locks and semaphores in every interleaving of the threads.  A lock is in exactly one of
  three states: free, held by the thread in its \<open>holder\<close> field, or in transit, that is,
  taken by a thread that has not set the field yet, or no longer held by a thread that has
  not called \<open>sema_up\<close> yet.  A wake-up is never lost: while threads wait for a semaphore,
  its value is covered by threads that were woken and have not run yet.
\<close>

section \<open>The invariant of locks\<close>

text \<open>
  What the calls on a stack owe a lock: a thread behind \<open>sema_down\<close> has taken the semaphore
  of the lock, and a thread in front of \<open>sema_up\<close> has yet to give it back.
\<close>

definition owes :: "nat \<Rightarrow> call \<Rightarrow> int" where
  "owes l c = (case c of Lock_owned l' \<Rightarrow> of_bool (l' = l) | Sema_down s \<Rightarrow> - of_bool (s = lock_sema l)
     | Sema_retry s b \<Rightarrow> - of_bool (s = lock_sema l) | Sema_up s \<Rightarrow> of_bool (s = lock_sema l) | _ \<Rightarrow> 0)"

text \<open>Calls that name only initialized objects, and no semaphore of a lock.\<close>

definition first_call :: "kst \<Rightarrow> call \<Rightarrow> bool" where
  "first_call k c = (case c of Start_process b \<Rightarrow> True | Idle s \<Rightarrow> user_sema s k | _ \<Rightarrow> False)"

definition plain_call :: "kst \<Rightarrow> call \<Rightarrow> bool" where
  "plain_call k c = (case c of Lock_owned l \<Rightarrow> False | Sema_down s \<Rightarrow> user_sema s k | Sema_retry s b \<Rightarrow> user_sema s k
     | Sema_up s \<Rightarrow> user_sema s k | Sema_try_down s \<Rightarrow> user_sema s k | Idle s \<Rightarrow> user_sema s k
     | Create_finish p cs \<Rightarrow> list_all (first_call k) cs | _ \<Rightarrow> True)"

text \<open>
  Stacks: the calls on the semaphore of a lock are those that \<open>lock_acquire\<close> and
  \<open>lock_release\<close> leave behind.
\<close>

inductive lock_stack :: "kst \<Rightarrow> call list \<Rightarrow> bool" for k where
  "lock_stack k []"
| "plain_call k c \<Longrightarrow> lock_stack k fs \<Longrightarrow> lock_stack k (c # fs)"
| "holder k l \<noteq> None \<Longrightarrow> lock_stack k fs \<Longrightarrow> lock_stack k (Lock_owned l # fs)"
| "holder k l \<noteq> None \<Longrightarrow> lock_stack k fs \<Longrightarrow> lock_stack k (Sema_down (lock_sema l) # Lock_owned l # fs)"
| "holder k l \<noteq> None \<Longrightarrow> lock_stack k fs \<Longrightarrow> lock_stack k (Sema_retry (lock_sema l) b # Lock_owned l # fs)"
| "holder k l \<noteq> None \<Longrightarrow> lock_stack k fs \<Longrightarrow> lock_stack k (Sema_up (lock_sema l) # fs)"

definition lock_state :: "kst \<Rightarrow> nat \<Rightarrow> bool" where
  "lock_state k l \<longleftrightarrow> (\<exists>x tk. semas k (lock_sema l) = Some x \<and> token (owes l) (frames k) tk
     \<and> s_value x + of_bool (tk \<noteq> None) + of_bool (holder k l \<noteq> Some 0) = 1)"

definition objs_ok :: "kst \<Rightarrow> bool" where
  "objs_ok k \<longleftrightarrow> (\<forall>c ws s. conds k c = Some ws \<and> s \<in> set ws \<longrightarrow> user_sema s k)
     \<and> (\<forall>w. wstats k w \<noteq> None \<longrightarrow> user_sema (ws_dead w) k \<and> user_sema (ws_load_finished w) k)"

definition lock_ok :: "kst \<Rightarrow> bool" where
  "lock_ok k \<longleftrightarrow> (\<forall>l. holder k l \<noteq> None \<longrightarrow> lock_state k l) \<and> (\<forall>t. lock_stack k (frames k t)) \<and> objs_ok k"

section \<open>Growing the set of objects\<close>

definition grows :: "kst \<Rightarrow> kst \<Rightarrow> bool" where
  "grows k k' \<longleftrightarrow> (\<forall>s. semas k s \<noteq> None \<longrightarrow> semas k' s \<noteq> None) \<and> (\<forall>l. holder k l \<noteq> None \<longrightarrow> holder k' l \<noteq> None)
     \<and> (\<forall>l. holder k l = None \<and> holder k' l \<noteq> None \<longrightarrow> semas k (lock_sema l) = None)"

lemma grows_user_sema: "grows k k' \<Longrightarrow> user_sema s k \<Longrightarrow> user_sema s k'"
  unfolding grows_def user_sema_def is_lock_sema_def lock_sema_def
  by (metis add.commute le_add_diff_inverse)

lemma grows_first: "grows k k' \<Longrightarrow> first_call k c \<Longrightarrow> first_call k' c"
  by (cases c) (auto simp: first_call_def grows_user_sema)

lemma grows_plain: "grows k k' \<Longrightarrow> plain_call k c \<Longrightarrow> plain_call k' c"
  by (cases c) (auto simp: plain_call_def grows_user_sema list_all_iff grows_first)

lemma grows_stack:
  assumes "lock_stack k fs" "grows k k'"
  shows "lock_stack k' fs"
  using assms(1)
proof induction
  case (2 c fs)
  then show ?case
    using grows_plain [OF assms(2)] by (auto intro: lock_stack.intros)
qed (use assms(2) in \<open>auto simp: grows_def intro: lock_stack.intros\<close>)

lemma lock_sema_inj [simp]: "lock_sema l = lock_sema l' \<longleftrightarrow> l = l'"
  by (simp add: lock_sema_def)

lemma lock_sema_nonzero [simp]: "lock_sema l \<noteq> 0"
  by (simp add: lock_sema_def)

lemma user_sema_not_lock: "user_sema s k \<Longrightarrow> holder k l \<noteq> None \<Longrightarrow> s \<noteq> lock_sema l"
  by (auto simp: user_sema_def is_lock_sema_def lock_sema_def)

lemma plain_owes: "plain_call k c \<Longrightarrow> holder k l \<noteq> None \<Longrightarrow> owes l c = 0"
  by (cases c) (auto simp: plain_call_def owes_def dest: user_sema_not_lock)

lemma owes_simps [simp]:
  "owes l (Lock_owned l') = of_bool (l' = l)" "owes l (Sema_down s) = - of_bool (s = lock_sema l)"
  "owes l (Sema_retry s b) = - of_bool (s = lock_sema l)" "owes l (Sema_up s) = of_bool (s = lock_sema l)"
  by (simp_all add: owes_def)

lemma stack_owes_nonneg:
  assumes "lock_stack k fs" "holder k l \<noteq> None"
  shows "0 \<le> wsum (owes l) fs"
  using assms(1) by induction (use assms(2) in \<open>auto simp: plain_owes\<close>)

text \<open>A lock that does not exist yet, and whose semaphore does not, is owed nothing.\<close>

lemma stack_owes_fresh:
  assumes "lock_stack k fs" "holder k l = None" "semas k (lock_sema l) = None"
    and "\<And>l'. holder k l' \<noteq> None \<Longrightarrow> semas k (lock_sema l') \<noteq> None"
  shows "wsum (owes l) fs = 0"
  using assms(1)
proof induction
  case (2 c fs)
  then have "owes l c = 0"
    using assms(3) by (simp add: plain_call_def owes_def user_sema_def split: call.splits) auto
  then show ?case
    using 2 by simp
qed (use assms(2,3,4) in auto)

lemma stack_pop: "lock_stack k (c # fs) \<Longrightarrow> lock_stack k fs"
  by (erule lock_stack.cases) (auto intro: lock_stack.intros)

text \<open>Calls that do not work on the semaphore of a lock.\<close>

definition apart :: "call \<Rightarrow> bool" where
  "apart c = (case c of Lock_owned l \<Rightarrow> False | Sema_down s \<Rightarrow> False | Sema_retry s b \<Rightarrow> False | Sema_up s \<Rightarrow> False | _ \<Rightarrow> True)"

lemma stack_apart: "lock_stack k (c # fs) \<Longrightarrow> apart c \<Longrightarrow> plain_call k c"
  by (erule lock_stack.cases) (auto simp: apart_def)

lemma stack_retry: "lock_stack k (Sema_down s # fs) \<Longrightarrow> lock_stack k (Sema_retry s b # fs)"
  "lock_stack k (Sema_retry s b # fs) \<Longrightarrow> lock_stack k (Sema_retry s b' # fs)"
  by (erule lock_stack.cases; auto simp: plain_call_def intro: lock_stack.intros)+

lemma stack_plain: "\<forall>c \<in> set ps. plain_call k c \<Longrightarrow> lock_stack k fs \<Longrightarrow> lock_stack k (ps @ fs)"
  by (induction ps) (auto intro: lock_stack.intros)

lemma plain_wsum: "\<forall>c \<in> set ps. plain_call k c \<Longrightarrow> holder k l \<noteq> None \<Longrightarrow> wsum (owes l) ps = 0"
  by (induction ps) (auto simp: plain_owes)

section \<open>Keeping the invariant\<close>

lemma lock_okD:
  assumes "lock_ok k"
  shows "holder k l \<noteq> None \<Longrightarrow> lock_state k l" "lock_stack k (frames k t)" "objs_ok k"
    "holder k l \<noteq> None \<Longrightarrow> \<exists>x. semas k (lock_sema l) = Some x \<and> s_value x \<le> 1"
proof -
  show "holder k l \<noteq> None \<Longrightarrow> lock_state k l" "lock_stack k (frames k t)" "objs_ok k"
    using assms unfolding lock_ok_def by blast+
  then show "holder k l \<noteq> None \<Longrightarrow> \<exists>x. semas k (lock_sema l) = Some x \<and> s_value x \<le> 1"
    unfolding lock_state_def by (metis le_add1 add.assoc)
qed

lemma token_arith:
  fixes v v' h h' w :: int
  assumes "0 \<le> v" "0 \<le> v'" "0 \<le> h" "0 \<le> h'" "0 \<le> w" "v + h + (if tk = None then 0 else 1) = 1"
    and "v' + h' + w = v + h + (if tk = Some r then 1 else 0)"
    and "tk' = (if tk = None \<or> tk = Some r then if w = 1 then Some r else None else tk)"
  shows "v' + h' + (if tk' = None then 0 else 1) = 1" "w = (if tk' = Some r then 1 else 0)"
proof (atomize (full), cases "tk = None \<or> tk = Some r")
  case True
  then have "v' + h' + w = 1"
    using assms by (auto split: if_splits)
  then show "v' + h' + (if tk' = None then 0 else 1) = 1 \<and> w = (if tk' = Some r then 1 else 0)"
    using assms True by (auto split: if_splits)
next
  case False
  then have "v' + h' + w = 0"
    using assms by (auto split: if_splits)
  then have "v' = 0" "h' = 0" "w = 0"
    using assms by linarith+
  then show "v' + h' + (if tk' = None then 0 else 1) = 1 \<and> w = (if tk' = Some r then 1 else 0)"
    using assms False by auto
qed

lemma lock_state_move:
  assumes ls: "lock_state k l" and x: "semas k (lock_sema l) = Some x" and y: "semas k' (lock_sema l) = Some y"
    and others: "\<And>t. t \<noteq> r \<Longrightarrow> wsum (owes l) (frames k' t) = wsum (owes l) (frames k t)"
    and pos: "0 \<le> wsum (owes l) (frames k' r)"
    and bal: "int (s_value y) + of_bool (holder k' l \<noteq> Some 0) + wsum (owes l) (frames k' r)
      = int (s_value x) + of_bool (holder k l \<noteq> Some 0) + wsum (owes l) (frames k r)"
  shows "lock_state k' l"
proof -
  obtain tk where tk: "token (owes l) (frames k) tk"
    and one: "s_value x + of_bool (tk \<noteq> None) + of_bool (holder k l \<noteq> Some 0) = 1"
    using ls x by (auto simp: lock_state_def)
  define tk' where "tk' = (if tk = None \<or> tk = Some r then if wsum (owes l) (frames k' r) = 1 then Some r else None else tk)"
  have sum: "int (s_value x) + of_bool (holder k l \<noteq> Some 0) + (if tk = None then 0 else 1) = 1"
    using arg_cong [OF one, of int] by (cases tk; cases "holder k l = Some 0") auto
  have bal': "int (s_value y) + of_bool (holder k' l \<noteq> Some 0) + wsum (owes l) (frames k' r)
      = int (s_value x) + of_bool (holder k l \<noteq> Some 0) + (if tk = Some r then 1 else 0)"
    using bal tk by (simp add: token_def)
  note arith = token_arith [OF _ _ _ _ pos sum bal' tk'_def]
  have "int (s_value y + of_bool (tk' \<noteq> None) + of_bool (holder k' l \<noteq> Some 0)) = int 1"
    using arith(1) by (cases tk'; cases "holder k' l = Some 0") auto
  then have "s_value y + of_bool (tk' \<noteq> None) + of_bool (holder k' l \<noteq> Some 0) = 1"
    by (simp only: of_nat_eq_iff)
  moreover have "token (owes l) (frames k') tk'"
    unfolding token_def
  proof
    fix t
    show "wsum (owes l) (frames k' t) = (if tk' = Some t then 1 else 0)"
    proof (cases "t = r")
      case False
      then show ?thesis
        using others [of t] tk by (auto simp: token_def tk'_def)
    qed (use arith(2) in simp)
  qed
  ultimately show ?thesis
    using y unfolding lock_state_def by blast
qed

lemma lock_state_new:
  assumes ok: "lock_ok k" and new: "holder k l = None" "semas k (lock_sema l) = None"
    and l: "holder k' l = Some 0" "semas k' (lock_sema l) = Some x" "s_value x = 1"
    and fr: "\<And>t. wsum (owes l) (frames k' t) = wsum (owes l) (frames k t)"
  shows "lock_state k' l"
proof -
  have "wsum (owes l) (frames k' t) = 0" for t
    unfolding fr by (rule stack_owes_fresh [OF lock_okD(2) [OF ok] new]) (use lock_okD(4) [OF ok] in auto)
  then show ?thesis
    using l unfolding lock_state_def by (intro exI [of _ x] exI [of _ None]) (simp add: token_None)
qed

lemma lock_ok_move:
  assumes ok: "lock_ok k" and gr: "grows k k'" and objs: "objs_ok k'"
    and fr: "frames k' = (frames k)(r := fs)" and st: "lock_stack k' fs"
    and bal: "\<And>l x. holder k l \<noteq> None \<Longrightarrow> semas k (lock_sema l) = Some x \<Longrightarrow> s_value x \<le> 1 \<Longrightarrow> lock_state k l
      \<Longrightarrow> \<exists>y. semas k' (lock_sema l) = Some y
        \<and> int (s_value y) + of_bool (holder k' l \<noteq> Some 0) + wsum (owes l) fs
          = int (s_value x) + of_bool (holder k l \<noteq> Some 0) + wsum (owes l) (frames k r)"
    and new: "\<And>l. holder k l = None \<Longrightarrow> holder k' l \<noteq> None \<Longrightarrow> lock_state k' l"
  shows "lock_ok k'"
  unfolding lock_ok_def
proof (intro conjI allI impI objs)
  show stack: "lock_stack k' (frames k' t)" for t
    using grows_stack [OF lock_okD(2) [OF ok] gr] st by (simp add: fr)
  fix l
  assume l: "holder k' l \<noteq> None"
  show "lock_state k' l"
  proof (cases "holder k l = None")
    case False
    obtain x where x: "semas k (lock_sema l) = Some x" "s_value x \<le> 1"
      using lock_okD(4) [OF ok False] by blast
    note ls = lock_okD(1) [OF ok False]
    obtain y where y: "semas k' (lock_sema l) = Some y"
      "int (s_value y) + of_bool (holder k' l \<noteq> Some 0) + wsum (owes l) fs
          = int (s_value x) + of_bool (holder k l \<noteq> Some 0) + wsum (owes l) (frames k r)"
      using bal [OF False x ls] by blast
    show ?thesis
      by (rule lock_state_move [OF ls x(1) y(1), of r]) (use y(2) stack_owes_nonneg [OF st l] in \<open>simp_all add: fr\<close>)
  qed (use new l in blast)
qed

text \<open>Steps that leave all semaphores and locks as they are.\<close>

definition spares :: "call list \<Rightarrow> kst \<Rightarrow> kst \<Rightarrow> bool" where
  "spares ps k k' \<longleftrightarrow> holder k' = holder k \<and> semas k' = semas k \<and> objs_ok k'
     \<and> frames k' = (frames k)(running k := ps @ frames k (running k)) \<and> (\<forall>c \<in> set ps. plain_call k c)"

lemma grows_refl: "holder k' = holder k \<Longrightarrow> semas k' = semas k \<Longrightarrow> grows k k'"
  by (auto simp: grows_def)

lemma user_sema_cong: "holder k' = holder k \<Longrightarrow> semas k' = semas k \<Longrightarrow> user_sema s k' = user_sema s k"
  by (simp add: user_sema_def is_lock_sema_def)

lemma spares_lock_ok:
  assumes ok: "lock_ok k" and kp: "spares ps k k'"
  shows "lock_ok k'"
proof -
  have same: "holder k' = holder k" "semas k' = semas k" "objs_ok k'"
    and fr: "frames k' = (frames k)(running k := ps @ frames k (running k))" and ps: "\<forall>c \<in> set ps. plain_call k c"
    using kp by (auto simp: spares_def)
  have gr: "grows k k'"
    using same by (intro grows_refl)
  show ?thesis
  proof (rule lock_ok_move [OF ok gr same(3) fr])
    show "lock_stack k' (ps @ frames k (running k))"
      using stack_plain [OF ps lock_okD(2) [OF ok]] by (rule grows_stack [OF _ gr])
  qed (use same plain_wsum [OF ps] in auto)
qed

lemma at_call_frames: "at_call k c fs \<Longrightarrow> frames (pop_call k) = (frames k)(running k := fs)"
  by (auto simp: at_call_def)

lemma legal_plain: "legal c k \<Longrightarrow> plain_call k c"
  by (cases c) (auto simp: plain_call_def)

lemma at_call_lock:
  assumes ok: "lock_ok k" and a: "at_call k c fs"
  shows "lock_stack k (c # fs)" "lock_stack k fs"
    "holder k l \<noteq> None \<Longrightarrow> wsum (owes l) (frames k (running k)) = owes l c + wsum (owes l) fs"
proof -
  show st: "lock_stack k (c # fs)"
    using a lock_okD(2) [OF ok, of "running k"] by (auto simp: at_call_def dest: legal_plain intro: lock_stack.intros)
  then show "lock_stack k fs"
    by (rule stack_pop)
  show "holder k l \<noteq> None \<Longrightarrow> wsum (owes l) (frames k (running k)) = owes l c + wsum (owes l) fs"
    using a plain_owes [OF legal_plain] by (auto simp: at_call_def)
qed

lemma objs_ok_cong:
  "objs_ok k \<Longrightarrow> holder k' = holder k \<Longrightarrow> semas k' = semas k \<Longrightarrow> conds k' = conds k \<Longrightarrow> wstats k' = wstats k \<Longrightarrow> objs_ok k'"
  by (simp add: objs_ok_def user_sema_def is_lock_sema_def)

lemma pop_lock_ok:
  assumes ok: "lock_ok k" and a: "at_call k c fs" and c: "apart c"
  shows "lock_ok (pop_call k)" "plain_call k c"
proof -
  show p: "plain_call k c"
    using stack_apart [OF at_call_lock(1) [OF ok a] c] .
  show "lock_ok (pop_call k)"
  proof (rule lock_ok_move [OF ok _ _ at_call_frames [OF a]])
    show "grows k (pop_call k)"
      by (rule grows_refl) simp_all
    then show "lock_stack (pop_call k) fs"
      by (rule grows_stack [OF at_call_lock(2) [OF ok a]])
    show "objs_ok (pop_call k)"
      by (rule objs_ok_cong [OF lock_okD(3) [OF ok]]) simp_all
  qed (use at_call_lock(3) [OF ok a] plain_owes [OF p] in auto)
qed

section \<open>Calls that leave semaphores and locks alone\<close>

lemma objs_ok_simps [simp]:
  "objs_ok (push_calls cs k) = objs_ok k" "objs_ok (set_eax v k) = objs_ok k" "objs_ok (upd_thread t f k) = objs_ok k"
  "objs_ok (set_status t u k) = objs_ok k" "objs_ok (pop_call k) = objs_ok k" "objs_ok (k\<lparr>intr_on := b\<rparr>) = objs_ok k"
  "objs_ok (k\<lparr>next_tid := i\<rparr>) = objs_ok k" "objs_ok (k\<lparr>active_pagedir := pd\<rparr>) = objs_ok k"
  "objs_ok (k\<lparr>idle_thread := t\<rparr>) = objs_ok k" "objs_ok (k\<lparr>ready_list := ts\<rparr>) = objs_ok k"
  "objs_ok (k\<lparr>all_list := ts\<rparr>) = objs_ok k" "objs_ok (k\<lparr>frames := fr\<rparr>) = objs_ok k" "objs_ok (k\<lparr>threads := th\<rparr>) = objs_ok k"
  by (simp_all add: objs_ok_def user_sema_def is_lock_sema_def)

lemma objs_ok_conds [simp]:
  "objs_ok k \<Longrightarrow> conds k = m \<Longrightarrow> list_all (\<lambda>s. user_sema s k) ws \<Longrightarrow> objs_ok (k\<lparr>conds := m(c \<mapsto> ws)\<rparr>)"
  by (auto simp: objs_ok_def user_sema_def is_lock_sema_def list_all_iff)

lemma objs_ok_wstats [simp]:
  "objs_ok k \<Longrightarrow> wstats k = m \<Longrightarrow> y = None \<or> m w \<noteq> None \<Longrightarrow> objs_ok (k\<lparr>wstats := m(w := y)\<rparr>)"
  by (auto simp: objs_ok_def user_sema_def is_lock_sema_def)

lemma objs_okD:
  "objs_ok k \<Longrightarrow> conds k c = Some ws \<Longrightarrow> s \<in> set ws \<Longrightarrow> user_sema s k"
  "objs_ok k \<Longrightarrow> wstats k w = Some x \<Longrightarrow> user_sema (ws_dead w) k \<and> user_sema (ws_load_finished w) k"
  unfolding objs_ok_def by blast+

lemma sparesI:
  assumes "objs_ok k1" "holder k1 = holder k" "semas k1 = semas k" "frames k1 = frames k"
  shows "spares [] k k1" "running k1 = running k \<Longrightarrow> \<forall>c \<in> set ps. plain_call k c \<Longrightarrow> spares ps k (push_calls ps k1)"
  using assms by (simp_all add: spares_def)

definition keeping :: "kst \<Rightarrow> kst \<Rightarrow> bool" where
  "keeping k k' \<longleftrightarrow> (\<exists>ps. spares ps k k')"

lemma keepingI:
  assumes "objs_ok k1" "holder k1 = holder k" "semas k1 = semas k" "frames k1 = frames k"
  shows "keeping k k1" "running k1 = running k \<Longrightarrow> list_all (plain_call k) ps \<Longrightarrow> keeping k (push_calls ps k1)"
  unfolding keeping_def using sparesI [OF assms] by (blast, metis list_all_iff)

lemma exec_keeping_plain:
  assumes ex: "exec w c k = Some k'" and ok: "objs_ok k"
  shows "c = Cond_init v \<Longrightarrow> keeping k k'" "c = Set_level b \<Longrightarrow> keeping k k'" "c = Iret \<Longrightarrow> keeping k k'"
    "c = Kernel_thread \<Longrightarrow> keeping k k'" "c = Next_tid p \<Longrightarrow> keeping k k'" "c = Wait_reap ws \<Longrightarrow> keeping k k'"
    "c = Exit_reap ws \<Longrightarrow> keeping k k'" "c = Ref_dec ws \<Longrightarrow> keeping k k'" "c = Exit_vm \<Longrightarrow> keeping k k'"
  using ex ok
  by (auto simp: call_defs level_defs Let_def bind_eq_Some_conv split: if_splits intro!: keepingI(1))

lemma exec_keeping_push:
  assumes ex: "exec w c k = Some k'" and ok: "objs_ok k"
  shows "c = Thread_exit \<Longrightarrow> keeping k k'" "c = Idle_halt \<Longrightarrow> keeping k k'"
    "c = Timer_sleep n \<Longrightarrow> keeping k k'" "c = Exit_code i \<Longrightarrow> keeping k k'" "c = Exit_own \<Longrightarrow> keeping k k'"
    "c = Idle s \<Longrightarrow> plain_call k c \<Longrightarrow> keeping k k'"
  using ex ok
  by (auto simp: thread_exit_def idle_halt_def timer_sleep_def exit_code_def exit_own_def ref_dec_calls_def idle_begin_def
      Let_def bind_eq_Some_conv plain_call_def intro!: keepingI(2))

lemma keepingI_if:
  assumes "objs_ok k1" "holder k1 = holder k" "semas k1 = semas k" "frames k1 = frames k"
    and "running k1 = running k" "list_all (plain_call k) ps"
    and "objs_ok k2" "holder k2 = holder k" "semas k2 = semas k" "frames k2 = frames k"
  shows "keeping k (if b then push_calls ps k1 else k2)" "keeping k (if b then k2 else push_calls ps k1)"
  using keepingI(2) [OF assms(1-6)] keepingI(1) [OF assms(7-10)] by simp_all

lemma exec_keeping_lookup:
  assumes ex: "exec w c k = Some k'" and ok: "objs_ok k"
  shows "c = Exec_wait \<Longrightarrow> keeping k k'" "c = Process_wait tid \<Longrightarrow> keeping k k'" "c = Start_process b \<Longrightarrow> keeping k k'"
    "c = Exit_signal ws \<Longrightarrow> keeping k k'" "c = Cond_signal v l \<Longrightarrow> keeping k k'" "c = Exit_children vs \<Longrightarrow> keeping k k'"
    "c = Cond_broadcast v l \<Longrightarrow> keeping k k'" "c = Sleep_loop start n \<Longrightarrow> keeping k k'"
proof -
  show "keeping k k'" if "c = Cond_broadcast v l"
    using ex ok that by (auto simp: cond_broadcast_def bind_eq_Some_conv plain_call_def simp del: if_split intro!: keepingI_if)
  show "keeping k k'" if "c = Sleep_loop start n"
    using ex ok that by (auto simp: sleep_loop_def plain_call_def simp del: if_split intro!: keepingI_if)
  have child: "wstats k w \<noteq> None" if "find_child tid ws k = Some w" "w \<noteq> 0" for tid ws w
    using that by (induction ws) (auto simp: bind_eq_Some_conv split: if_splits)
  have sig: "user_sema (ws_dead w) k" "user_sema (ws_load_finished w) k" if "wstats k w \<noteq> None" for w
    using that objs_okD(2) [OF ok] by blast+
  note k = keepingI(1) [OF ok refl refl refl] keepingI(2) [OF ok refl refl refl refl]
  show "keeping k k'" if c: "c = Exec_wait"
  proof -
    obtain tid ws u where "k' = k \<or> k' = push_calls [Sema_down (ws_load_finished u)] k \<and> find_child tid ws k = Some u \<and> u \<noteq> 0"
      using ex c by (auto simp: exec_wait_def get_child_by_tid_def Let_def bind_eq_Some_conv split: if_splits)
    then show ?thesis
      using child sig k by (auto simp: plain_call_def)
  qed
  show "keeping k k'" if c: "c = Process_wait tid"
  proof -
    obtain u where "k' = set_eax (- 1) k \<or> k' = push_calls [Wait_reap u] k
        \<or> k' = push_calls [Sema_down (ws_dead u), Wait_reap u] k \<and> wstats k u \<noteq> None"
      using ex c by (auto simp: process_wait_def Let_def bind_eq_Some_conv split: if_splits)
    then show ?thesis
      using sig k keepingI(1) [of "set_eax (- 1) k" k] ok by (auto simp: plain_call_def)
  qed
  show "keeping k k'" if c: "c = Start_process b"
    using ex c ok sig by (cases b) (auto simp: start_process_def Let_def bind_eq_Some_conv plain_call_def intro!: keepingI(2))
  show "keeping k k'" if c: "c = Exit_signal ws"
    using ex c ok sig
    by (auto simp: exit_signal_def free_ws_def bind_eq_Some_conv plain_call_def simp del: if_split intro!: keepingI_if)
  show "keeping k k'" if c: "c = Cond_signal v l"
  proof -
    obtain s ws where "k' = k \<or> k' = push_calls [Sema_up s] (k\<lparr>conds := (conds k)(v \<mapsto> ws)\<rparr>) \<and> conds k v = Some (s # ws)"
      using ex c by (auto simp: cond_signal_def bind_eq_Some_conv split: list.splits) (metis neq_Nil_conv)+
    then show ?thesis
      using objs_okD(1) [OF ok, of v "s # ws"] k(1) ok
      by (auto simp: plain_call_def list_all_iff intro!: keepingI(2))
  qed
  show "keeping k k'" if c: "c = Exit_children vs"
    using ex c k by (cases vs) (auto simp: bind_eq_Some_conv ref_dec_calls_def plain_call_def)
qed

lemma spares_schedule:
  assumes "schedule k1 = Some k'" "spares ps k k1"
  shows "spares ps k k'"
proof -
  have "same_objs k1 k'"
    using schedule_effect [OF assms(1)] by blast
  then show ?thesis
    using assms(2) objs_ok_cong [of k1 k'] by (auto simp: spares_def same_objs_def)
qed

lemma keepingI_create:
  assumes y: "thread_create p nm pri cs k1 = Some k'" and k1: "spares ps k k1" "running k1 = running k" and cs: "list_all (first_call k) cs"
  shows "keeping k k'"
proof (cases "p = 0")
  case True
  then have "k' = set_eax TID_ERROR k1"
    using y by (simp add: thread_create_def)
  then show ?thesis
    using k1 unfolding keeping_def spares_def by (intro exI [of _ ps]) simp
next
  case False
  show ?thesis
    using thread_create_effect [OF y False]
  proof cases
    case (1 th)
    then show ?thesis
      using k1 cs unfolding keeping_def spares_def
      by (intro exI [of _ "alloc_tid_calls p @ [Create_finish p cs] @ ps"]) (auto simp: alloc_tid_calls_def plain_call_def)
  qed
qed

lemma exec_keeping_switch:
  assumes ex: "exec w c k = Some k'" and ok: "objs_ok k"
  shows "c = Thread_yield \<Longrightarrow> keeping k k'" "c = Idle_loop \<Longrightarrow> keeping k k'"
    "c = Thread_die \<Longrightarrow> frames k (running k) = [] \<Longrightarrow> keeping k k'"
    "c = Thread_create p nm pri [] \<Longrightarrow> keeping k k'" "c = Process_execute p nm b \<Longrightarrow> keeping k k'"
proof -
  show "keeping k k'" if c: "c = Thread_yield"
  proof -
    have "thread_yield k = Some k'"
      using ex c by simp
    from thread_yield_effect [OF this, THEN conjunct2, THEN conjunct2] have "spares [Set_level (intr_on k)] k k'"
      by (rule spares_schedule) (use ok in \<open>simp add: spares_def plain_call_def\<close>)
    then show ?thesis
      by (auto simp: keeping_def)
  qed
  show "keeping k k'" if c: "c = Idle_loop"
  proof -
    have "schedule (set_status (running k) THREAD_BLOCKED (push_calls [Idle_halt] (k\<lparr>intr_on := False\<rparr>))) = Some k'"
      using ex c thread_block_effect [of "push_calls [Idle_halt] (k\<lparr>intr_on := False\<rparr>)" k']
      by (simp add: idle_loop_def level_defs Let_def)
    then have "spares [Idle_halt] k k'"
      by (rule spares_schedule) (use ok in \<open>simp add: spares_def plain_call_def\<close>)
    then show ?thesis
      by (auto simp: keeping_def)
  qed
  show "keeping k k'" if c: "c = Thread_die" and emp: "frames k (running k) = []"
  proof -
    have "thread_die k = Some k'"
      using ex c by simp
    from thread_die_effect [OF this, THEN conjunct2, THEN conjunct2] have "spares [] k k'"
      by (rule spares_schedule) (use ok emp in \<open>simp add: spares_def\<close>)
    then show ?thesis
      by (auto simp: keeping_def)
  qed
  show "keeping k k'" if "c = Thread_create p nm pri []"
    using that ex ok by (intro keepingI_create [of p nm pri "[]" k]) (auto simp: spares_def)
  show "keeping k k'" if "c = Process_execute p nm b"
    using that ex ok
    by (intro keepingI_create [of p nm PRI_DEFAULT "[Start_process b]" "push_calls [Exec_wait] k" k' "[Exec_wait]"])
      (auto simp: spares_def process_execute_def plain_call_def first_call_def)
qed

lemma take_interrupt_keeping:
  assumes ti: "take_interrupt k = Some k'" and t: "thread_ticks k < TIME_SLICE" and ok: "objs_ok k"
  shows "keeping k k'"
proof -
  have iret: "spares [Iret] k k1" if "quiet [Iret] (k\<lparr>thread_ticks := thread_ticks k + 1\<rparr>) k1" "semas k1 = semas k"
    "holder k1 = holder k" "conds k1 = conds k" "wstats k1 = wstats k" for k1
    using that objs_ok_cong [OF ok, of k1] by (simp add: spares_def quiet_def plain_call_def)
  from ti t show ?thesis
  proof (cases rule: take_interrupt_effect)
    case (stay k1)
    then show ?thesis
      using iret [OF stay(2,4-7)] by (auto simp: keeping_def)
  next
    case (yield k1)
    have "running k1 = running k"
      using yield(2) by (simp add: quiet_def)
    with iret [OF yield(2,4-7)] have "spares [Set_level False, Iret] k
        (push_calls [Set_level (intr_on k1)] (set_status (running k1) THREAD_READY
         (k1\<lparr>intr_on := False, ready_list := ready_list k1 @ (if running k1 \<noteq> idle_thread k1 then [running k1] else [])\<rparr>)))"
      using yield(3) by (simp add: spares_def plain_call_def)
    with thread_yield_effect [OF yield(1), THEN conjunct2, THEN conjunct2] have "spares [Set_level False, Iret] k k'"
      by (rule spares_schedule)
    then show ?thesis
      by (auto simp: keeping_def)
  qed
qed

section \<open>Calls that work on them\<close>

lemma grows_objs:
  assumes "objs_ok k" "grows k k'" "conds k' = conds k" "wstats k' = wstats k"
  shows "objs_ok k'"
  using assms grows_user_sema [OF assms(2)] unfolding objs_ok_def by auto

lemma lock_ok_cong:
  assumes "lock_ok k" "holder k' = holder k" "semas k' = semas k" "frames k' = frames k" "conds k' = conds k" "wstats k' = wstats k"
  shows "lock_ok k'"
  using assms(1,2) grows_stack [OF _ grows_refl [OF assms(2,3)]] objs_ok_cong [OF _ assms(2,3,5,6)]
  unfolding lock_ok_def lock_state_def assms(2,3,4) by blast

text \<open>One semaphore changes, and the running thread has the calls \<open>gs\<close> in place of \<open>c # fs\<close>.\<close>

lemma lock_ok_sema:
  assumes ok: "lock_ok k" and a: "at_call k c fs" and x: "semas k s = Some x" and sm: "semas k' = (semas k)(s \<mapsto> y)"
    and same: "holder k' = holder k" "conds k' = conds k" "wstats k' = wstats k"
    and fr: "frames k' = (frames k)(running k := gs)" and st: "lock_stack k gs"
    and bal: "\<And>l. holder k l \<noteq> None \<Longrightarrow> s = lock_sema l \<longrightarrow> s_value x \<le> 1
      \<Longrightarrow> (if s = lock_sema l then int (s_value y) - int (s_value x) else 0) + wsum (owes l) gs = owes l c + wsum (owes l) fs"
  shows "lock_ok k'"
proof (rule lock_ok_move [OF ok _ _ fr])
  show gr: "grows k k'"
    using same sm by (auto simp: grows_def)
  show "objs_ok k'"
    by (rule grows_objs [OF lock_okD(3) [OF ok] gr same(2,3)])
  show "lock_stack k' gs"
    by (rule grows_stack [OF st gr])
  show "\<exists>y. semas k' (lock_sema l) = Some y
      \<and> int (s_value y) + of_bool (holder k' l \<noteq> Some 0) + wsum (owes l) gs
        = int (s_value z) + of_bool (holder k l \<noteq> Some 0) + wsum (owes l) (frames k (running k))"
    if "holder k l \<noteq> None" "semas k (lock_sema l) = Some z" "s_value z \<le> 1" for l z
    using that bal [of l] at_call_lock(3) [OF ok a, of l] x by (auto simp: sm same)
qed (use same in auto)

lemma keeping_lock_ok: "lock_ok k \<Longrightarrow> keeping k k' \<Longrightarrow> lock_ok k'"
  unfolding keeping_def using spares_lock_ok by blast

lemma lock_ok_schedule:
  assumes "schedule k = Some k'" "lock_ok k"
  shows "lock_ok k'"
  using schedule_effect [OF assms(1)] by (intro lock_ok_cong [OF assms(2)]) (auto simp: same_objs_def)

lemma sema_retry_lock_ok:
  assumes ok: "lock_ok k" and a: "at_call k c fs" and c: "c = Sema_down s \<or> c = Sema_retry s b'"
    and y: "sema_retry s b ((pop_call k)\<lparr>intr_on := v\<rparr>) = Some k'"
  shows "lock_ok k'"
  using y
proof (cases rule: sema_retry_effect)
  case (wait x)
  let ?k1 = "push_calls [Sema_retry s b] (set_sema s (\<lambda>x. x\<lparr>s_waiters := s_waiters x @ [running k]\<rparr>) ((pop_call k)\<lparr>intr_on := v\<rparr>))"
  have "lock_stack k (Sema_retry s b # fs)"
    using c at_call_lock(1) [OF ok a] stack_retry by blast
  then have "lock_ok (set_status (running k) THREAD_BLOCKED ?k1)"
    by (rule lock_ok_sema [OF ok a, rotated -2]) (use wait(1) c at_call_frames [OF a] in auto)
  then show ?thesis
    using thread_block_effect [OF wait(3)] lock_ok_schedule by auto
next
  case (pass x)
  show ?thesis
    by (rule lock_ok_sema [OF ok a _ _ _ _ _ _ at_call_lock(2) [OF ok a]])
      (use pass c at_call_frames [OF a] in \<open>auto simp: of_nat_diff\<close>)
qed

lemma sema_up_semas:
  assumes y: "sema_up s k = Some k'"
  obtains x z where "semas k s = Some x" "semas k' = (semas k)(s \<mapsto> z)" "s_value z = szt (s_value x + 1)" "s_waiters z = tl (s_waiters x)"
    "holder k' = holder k" "conds k' = conds k" "wstats k' = wstats k" "frames k' = frames k"
  using y
proof (cases rule: sema_up_effect)
  case (none x)
  then show ?thesis
    by (intro that [of x "x\<lparr>s_value := szt (s_value x + 1)\<rparr>"]) auto
next
  case (wake x t ts)
  then show ?thesis
    by (intro that [of x "x\<lparr>s_waiters := ts, s_value := szt (s_value x + 1)\<rparr>"]) auto
qed

lemma sema_up_lock_ok:
  assumes ok: "lock_ok k" and a: "at_call k (Sema_up s) fs" and y: "sema_up s (pop_call k) = Some k'"
  shows "lock_ok k'"
  using y
proof (cases rule: sema_up_semas)
  case (1 x z)
  show ?thesis
    by (rule lock_ok_sema [OF ok a _ _ _ _ _ _ at_call_lock(2) [OF ok a], where s = s and x = x and y = z])
      (use 1 at_call_frames [OF a] in \<open>auto simp: szt_def\<close>)
qed

lemma sema_try_down_lock_ok:
  assumes ok: "lock_ok k" and a: "at_call k (Sema_try_down s) fs" and y: "sema_try_down s (pop_call k) = Some (b, k')"
  shows "lock_ok k'"
  using y
proof (cases rule: sema_try_down_effect)
  case (1 x)
  have "user_sema s k"
    using pop_lock_ok(2) [OF ok a] by (simp add: apart_def plain_call_def)
  then have "s \<noteq> lock_sema l" if "holder k l \<noteq> None" for l
    using that user_sema_not_lock by blast
  then show ?thesis
    by (intro lock_ok_sema [OF ok a _ _ _ _ _ _ at_call_lock(2) [OF ok a],
          where s = s and x = x and y = "if b then x\<lparr>s_value := s_value x - 1\<rparr> else x"])
      (use 1 at_call_frames [OF a] in \<open>auto simp: owes_def fun_upd_idem\<close>)
qed

text \<open>Locks.\<close>

lemma held_by_current:
  assumes "lock_held_by_current_thread l k = Some b"
  shows "\<exists>h. holder k l = Some h \<and> (b \<longleftrightarrow> h = running k) \<and> running k \<noteq> 0"
  using assms by (auto simp: lock_held_by_current_thread_def bind_eq_Some_conv thread_current_eq is_thread_def)

lemma lock_acquire_lock_ok:
  assumes ok: "lock_ok k" and a: "at_call k (Lock_acquire l) fs" and y: "lock_acquire l (pop_call k) = Some k'"
  shows "lock_ok k'"
proof -
  obtain b where held: "lock_held_by_current_thread l (pop_call k) = Some b"
    and k': "k' = push_calls [Sema_down (lock_sema l), Lock_owned l] (pop_call k)"
    using y by (auto simp: lock_acquire_def bind_eq_Some_conv)
  have l: "holder k l \<noteq> None"
    using held_by_current [OF held] by auto
  then obtain x where x: "semas k (lock_sema l) = Some x"
    using lock_okD(4) [OF ok] by blast
  have st: "lock_stack k (Sema_down (lock_sema l) # Lock_owned l # fs)"
    by (intro lock_stack.intros l at_call_lock(2) [OF ok a])
  show ?thesis
    by (rule lock_ok_sema [OF ok a x _ _ _ _ _ st]) (use x at_call_frames [OF a] in \<open>auto simp: k' owes_def\<close>)
qed

lemma lock_try_acquire_lock_ok:
  assumes ok: "lock_ok k" and a: "at_call k (Lock_try_acquire l) fs" and y: "lock_try_acquire l (pop_call k) = Some k'"
  shows "lock_ok k'"
proof -
  obtain h b k1 where held: "lock_held_by_current_thread l (pop_call k) = Some h"
    and k1: "sema_try_down (lock_sema l) (pop_call k) = Some (b, k1)"
    and k': "k' = (if b then push_calls [Lock_owned l] (set_eax (of_bool b) k1) else set_eax (of_bool b) k1)"
    using y by (auto simp: lock_try_acquire_def Let_def bind_eq_Some_conv)
  have l: "holder k l \<noteq> None"
    using held_by_current [OF held] by auto
  have st: "lock_stack k (if b then Lock_owned l # fs else fs)"
    using l at_call_lock(2) [OF ok a] by (auto intro: lock_stack.intros)
  from k1 show ?thesis
  proof (cases rule: sema_try_down_effect)
    case (1 x)
    show ?thesis
      by (rule lock_ok_sema [OF ok a _ _ _ _ _ _ st,
            where s = "lock_sema l" and x = x and y = "if b then x\<lparr>s_value := s_value x - 1\<rparr> else x"])
        (use 1 at_call_frames [OF a] in \<open>auto simp: k' owes_def fun_upd_idem of_nat_diff\<close>)
  qed
qed

text \<open>The field \<open>holder\<close> of one lock changes.\<close>

lemma lock_ok_holder:
  assumes ok: "lock_ok k" and a: "at_call k c fs" and l: "holder k l \<noteq> None" and h: "holder k' = (holder k)(l \<mapsto> h)"
    and same: "semas k' = semas k" "conds k' = conds k" "wstats k' = wstats k"
    and fr: "frames k' = (frames k)(running k := gs)" and st: "lock_stack k gs"
    and bal: "\<And>l'. holder k l' \<noteq> None \<Longrightarrow> lock_state k l' \<Longrightarrow>
      (if l' = l then of_bool (h \<noteq> 0) - of_bool (holder k l \<noteq> Some 0) else 0) + wsum (owes l') gs = owes l' c + wsum (owes l') fs"
  shows "lock_ok k'"
proof (rule lock_ok_move [OF ok _ _ fr])
  show gr: "grows k k'"
    using same h l by (auto simp: grows_def)
  show "objs_ok k'"
    by (rule grows_objs [OF lock_okD(3) [OF ok] gr same(2,3)])
  show "lock_stack k' gs"
    by (rule grows_stack [OF st gr])
  show "\<exists>y. semas k' (lock_sema l') = Some y
      \<and> int (s_value y) + of_bool (holder k' l' \<noteq> Some 0) + wsum (owes l') gs
        = int (s_value z) + of_bool (holder k l' \<noteq> Some 0) + wsum (owes l') (frames k (running k))"
    if "holder k l' \<noteq> None" "semas k (lock_sema l') = Some z" "lock_state k l'" for l' z
    using that(2) bal [OF that(1,3)] at_call_lock(3) [OF ok a that(1)] by (auto simp: h same split: if_splits)
qed (use h l in \<open>auto split: if_splits\<close>)

text \<open>A thread that owes a lock something finds it without a holder.\<close>

lemma owed_free:
  assumes "lock_state k l" "0 < wsum (owes l) (frames k t)" "holder k l \<noteq> None"
  shows "holder k l = Some 0"
proof -
  obtain x :: semaphore and tk where tk: "token (owes l) (frames k) tk" and one: "s_value x + of_bool (tk \<noteq> None) + of_bool (holder k l \<noteq> Some 0) = 1"
    using assms(1) unfolding lock_state_def by blast
  have "tk \<noteq> None"
    using tk assms(2) by (auto simp: token_def split: if_splits)
  then show ?thesis
    using one by (cases "holder k l = Some 0") auto
qed

lemma lock_owned_lock_ok:
  assumes ok: "lock_ok k" and a: "at_call k (Lock_owned l) fs" and y: "lock_owned l (pop_call k) = Some k'"
  shows "lock_ok k' \<and> holder k l = Some 0"
proof -
  have k': "k' = (pop_call k)\<lparr>holder := (holder k)(l \<mapsto> running k)\<rparr>" and r: "running k \<noteq> 0"
    using y by (auto simp: lock_owned_def bind_eq_Some_conv thread_current_eq is_thread_def)
  have "holder k l \<noteq> None"
    using at_call_lock(1) [OF ok a] by (rule lock_stack.cases) (auto simp: plain_call_def)
  moreover have "0 < wsum (owes l) (frames k (running k))"
    using at_call_lock(3) [OF ok a calculation] stack_owes_nonneg [OF at_call_lock(2) [OF ok a] calculation] by simp
  ultimately have l: "holder k l = Some 0"
    using owed_free [OF lock_okD(1) [OF ok]] by blast
  have "lock_ok k'"
    by (rule lock_ok_holder [OF ok a _ _ _ _ _ _ at_call_lock(2) [OF ok a], of l])
      (use l r at_call_frames [OF a] in \<open>auto simp: k'\<close>)
  with l show ?thesis
    by simp
qed

lemma lock_release_lock_ok:
  assumes ok: "lock_ok k" and a: "at_call k (Lock_release l) fs" and y: "lock_release l (pop_call k) = Some k'"
  shows "lock_ok k' \<and> holder k l = Some (running k)"
proof -
  have held: "lock_held_by_current_thread l (pop_call k) = Some True"
    and k': "k' = push_calls [Sema_up (lock_sema l)] ((pop_call k)\<lparr>holder := (holder k)(l \<mapsto> 0)\<rparr>)"
    using y by (auto simp: lock_release_def bind_eq_Some_conv)
  have l: "holder k l = Some (running k)" "running k \<noteq> 0"
    using held_by_current [OF held] by auto
  then have st: "lock_stack k (Sema_up (lock_sema l) # fs)"
    by (intro lock_stack.intros at_call_lock(2) [OF ok a]) auto
  have "lock_ok k'"
    by (rule lock_ok_holder [OF ok a _ _ _ _ _ _ st, of l]) (use l at_call_frames [OF a] in \<open>auto simp: k' owes_def\<close>)
  with l show ?thesis
    by simp
qed

section \<open>Calls that initialize them\<close>

lemma fresh_sema_lock_ok:
  assumes ok: "lock_ok k" and s: "fresh_sema s k"
  shows "lock_ok (k\<lparr>semas := (semas k)(s \<mapsto> y)\<rparr>)" "user_sema s (k\<lparr>semas := (semas k)(s \<mapsto> y)\<rparr>)"
proof -
  let ?k = "k\<lparr>semas := (semas k)(s \<mapsto> y)\<rparr>"
  show "user_sema s ?k"
    using s by (simp add: fresh_sema_def user_sema_def is_lock_sema_def)
  have "semas k s = None"
    using s by (simp add: fresh_sema_def)
  moreover have gr: "grows k ?k"
    by (auto simp: grows_def)
  ultimately show "lock_ok ?k"
    by (intro lock_ok_move [OF ok gr, of 0 "frames k 0"] grows_objs [OF lock_okD(3) [OF ok] gr] grows_stack [OF lock_okD(2) [OF ok] gr])
      auto
qed

lemma fresh_lock_lock_ok:
  assumes ok: "lock_ok k" and l: "fresh_lock l k"
  shows "lock_ok (k\<lparr>holder := (holder k)(l \<mapsto> 0), semas := (semas k)(lock_sema l \<mapsto> \<lparr>s_value = 1, s_waiters = []\<rparr>)\<rparr>)" (is "lock_ok ?k")
proof -
  have l': "holder k l = None" "semas k (lock_sema l) = None"
    using l by (auto simp: fresh_lock_def)
  then have gr: "grows k ?k"
    by (auto simp: grows_def)
  show ?thesis
  proof (rule lock_ok_move [OF ok gr, of 0 "frames k 0"])
    show "lock_state ?k m" if "holder k m = None" "holder ?k m \<noteq> None" for m
      using that l' by (intro lock_state_new [OF ok]) (auto split: if_splits)
  qed (use l' grows_objs [OF lock_okD(3) [OF ok] gr] grows_stack [OF lock_okD(2) [OF ok] gr] in \<open>auto split: if_splits\<close>)
qed

lemma other_stack_lock_ok:
  assumes ok: "lock_ok k" and p: "frames k p = []" and cs: "\<forall>c \<in> set cs. plain_call k c"
    and same: "holder k' = holder k" "semas k' = semas k" "conds k' = conds k" "wstats k' = wstats k" "frames k' = (frames k)(p := cs)"
  shows "lock_ok k'"
proof -
  have gr: "grows k k'"
    by (rule grows_refl [OF same(1,2)])
  show ?thesis
  proof (rule lock_ok_move [OF ok gr grows_objs [OF lock_okD(3) [OF ok] gr same(3,4)] same(5)])
    show "lock_stack k' cs"
      using stack_plain [OF cs, of "[]"] lock_stack.intros(1) by (intro grows_stack [OF _ gr]) simp
  qed (use plain_wsum [OF cs] p same in auto)
qed

lemma with_ws_lock_ok:
  assumes ok: "lock_ok k" and w: "fresh_ws w k"
  shows "lock_ok (with_ws w tid k)" "grows k (with_ws w tid k)"
proof -
  let ?z = "\<lparr>s_value = 0, s_waiters = []\<rparr>"
  define k1 where "k1 = k\<lparr>holder := (holder k)(ws_lock w \<mapsto> 0), semas := (semas k)(lock_sema (ws_lock w) \<mapsto> \<lparr>s_value = 1, s_waiters = []\<rparr>)\<rparr>"
  define k2 where "k2 = k1\<lparr>semas := (semas k1)(ws_dead w \<mapsto> ?z)\<rparr>"
  define k3 where "k3 = k2\<lparr>semas := (semas k2)(ws_load_finished w \<mapsto> ?z)\<rparr>"
  have f: "fresh_lock (ws_lock w) k" "fresh_sema (ws_dead w) k" "fresh_sema (ws_load_finished w) k"
    using w by (auto simp: fresh_ws_def)
  have "lock_ok k1"
    unfolding k1_def by (rule fresh_lock_lock_ok [OF ok f(1)])
  moreover have f1: "fresh_sema (ws_dead w) k1" "fresh_sema (ws_load_finished w) k1"
    using f by (auto simp: k1_def fresh_sema_def is_lock_sema_def ws_dead_def ws_load_finished_def ws_lock_def lock_sema_def)
  ultimately have k2: "lock_ok k2" "user_sema (ws_dead w) k2"
    unfolding k2_def using fresh_sema_lock_ok by blast+
  moreover have "fresh_sema (ws_load_finished w) k2"
    using f1 by (auto simp: k2_def fresh_sema_def is_lock_sema_def ws_dead_def ws_load_finished_def)
  ultimately have k3: "lock_ok k3" "user_sema (ws_load_finished w) k3"
    unfolding k3_def using fresh_sema_lock_ok by blast+
  have dead: "user_sema (ws_dead w) k3"
    using k2(2) by (simp add: k3_def user_sema_def is_lock_sema_def)
  have eq: "holder (with_ws w tid k) = holder k3" "semas (with_ws w tid k) = semas k3" "frames (with_ws w tid k) = frames k3"
    "conds (with_ws w tid k) = conds k3"
    "wstats (with_ws w tid k) = (wstats k3)(w \<mapsto> \<lparr>ws_ref_cnt = 2, ws_tid = tid, ws_exit_code = 0, ws_load_code = 0\<rparr>)"
    by (simp_all add: with_ws_def k3_def k2_def k1_def)
  have gr: "grows k3 (with_ws w tid k)"
    by (rule grows_refl [OF eq(1,2)])
  have objs: "objs_ok (with_ws w tid k)"
    using lock_okD(3) [OF k3(1)] grows_user_sema [OF gr] dead k3(2) unfolding objs_ok_def eq by (auto split: if_splits)
  show "lock_ok (with_ws w tid k)"
  proof (rule lock_ok_move [OF k3(1) gr objs, of 0 "frames k3 0"])
    show "lock_stack (with_ws w tid k) (frames k3 0)"
      by (rule grows_stack [OF lock_okD(2) [OF k3(1)] gr])
  qed (use eq in auto)
  show "grows k (with_ws w tid k)"
    using fresh_ws_semas [OF w] by (auto simp: grows_def with_ws_def split: if_splits)
qed

lemma create_finish_lock_ok:
  assumes ok: "lock_ok k" and a: "at_call k (Create_finish p cs) fs" and w: "fresh_ws w k" and p: "frames (pop_call k) p = []"
    and y: "thread_create_finish p cs w (pop_call k) = Some k'"
  shows "lock_ok k'"
  using y
proof (cases rule: thread_create_finish_effect)
  case (1 ths tid)
  have ap: "apart (Create_finish p cs)"
    by (simp add: apart_def)
  note pop = pop_lock_ok [OF ok a ap]
  have w': "fresh_ws w (pop_call k)"
    using w by (simp add: fresh_ws_def fresh_lock_def fresh_sema_def is_lock_sema_def)
  have "grows k (with_ws w tid (pop_call k))"
    using with_ws_lock_ok(2) [OF pop(1) w', of tid] by (simp add: grows_def)
  then have "list_all (first_call (with_ws w tid (pop_call k))) cs"
    using pop(2) grows_first by (auto simp: plain_call_def list_all_iff)
  then have plain: "\<forall>c \<in> set (Kernel_thread # cs). plain_call (with_ws w tid (pop_call k)) c"
    by (auto simp: list_all_iff first_call_def plain_call_def split: call.splits)
  show ?thesis
    by (rule other_stack_lock_ok [OF with_ws_lock_ok(1) [OF pop(1) w'] _ plain]) (use p in \<open>simp_all add: 1(3) with_ws_def\<close>)
qed

lemma init_calls_lock_ok:
  assumes ok: "lock_ok k" and l: "legal c k" and ex: "exec w c k = Some k'"
  shows "c = Sema_init s v \<Longrightarrow> lock_ok k'" "c = Lock_init m \<Longrightarrow> lock_ok k'" "c = Cond_wait cv m s \<Longrightarrow> lock_ok k'"
    "c = Thread_start s p \<Longrightarrow> lock_ok k'"
proof -
  let ?k1 = "\<lambda>v. k\<lparr>semas := (semas k)(s \<mapsto> \<lparr>s_value = v, s_waiters = []\<rparr>)\<rparr>"
  show "lock_ok k'" if c: "c = Sema_init s v"
    using fresh_sema_lock_ok(1) [OF ok, of s] l ex unfolding c by (auto simp: sema_init_def bind_eq_Some_conv)
  show "lock_ok k'" if c: "c = Lock_init m"
    using fresh_lock_lock_ok [OF ok, of m] l ex unfolding c by (auto simp: lock_init_def sema_init_def bind_eq_Some_conv)
  have k1: "lock_ok (?k1 0) \<and> user_sema s (?k1 0)" if "fresh_sema s k"
    using fresh_sema_lock_ok [OF ok that] by blast
  show "lock_ok k'" if c: "c = Cond_wait cv m s"
  proof -
    have f: "fresh_sema s k"
      using l c by simp
    obtain ws where ws: "conds k cv = Some ws" and k': "k' = push_calls [Lock_release m, Sema_down s, Lock_acquire m]
        ((?k1 0)\<lparr>conds := (conds (?k1 0))(cv \<mapsto> ws @ [s])\<rparr>)"
      using ex c by (auto simp: cond_wait_def sema_init_def Let_def bind_eq_Some_conv)
    have "objs_ok (?k1 0)" and s: "user_sema s (?k1 0)"
      using k1 [OF f] lock_okD(3) by blast+
    then have "list_all (\<lambda>s. user_sema s (?k1 0)) (ws @ [s])"
      using objs_okD(1) [of "?k1 0" cv ws] ws by (auto simp: list_all_iff)
    then have "keeping (?k1 0) k'"
      unfolding k' using \<open>objs_ok (?k1 0)\<close> s by (intro keepingI(2)) (auto simp: plain_call_def)
    then show ?thesis
      using keeping_lock_ok k1 [OF f] by blast
  qed
  show "lock_ok k'" if c: "c = Thread_start s p"
  proof -
    have f: "fresh_sema s k"
      using l c by simp
    have y: "thread_create p [105, 100, 108, 101, 0] PRI_MIN [Idle s] (push_calls [Set_level True, Sema_down s] (?k1 0)) = Some k'"
      using ex c by (auto simp: thread_start_def sema_init_def Let_def bind_eq_Some_conv)
    have k2: "spares [Set_level True, Sema_down s] (?k1 0) (push_calls [Set_level True, Sema_down s] (?k1 0))"
      using k1 [OF f] lock_okD(3) [of "?k1 0"] by (simp add: spares_def plain_call_def)
    have "keeping (?k1 0) k'"
      by (rule keepingI_create [OF y k2]) (use k1 [OF f] in \<open>auto simp: first_call_def\<close>)
    then show ?thesis
      using keeping_lock_ok k1 [OF f] by blast
  qed
qed

section \<open>All steps\<close>

lemma create_finish_stack:
  assumes ok: "sched_ok k" and a: "at_call k (Create_finish p cs) fs"
  shows "frames k p = []" "frames (pop_call k) p = []"
proof -
  note c = core_okD [OF sched_okD(1) [OF ok]]
  have "wsum (creates p) (frames k (running k)) \<noteq> 0"
    using at_call_stack(5) [OF sched_okD(1) [OF ok] a, of p] wsum_nonneg [of "creates p" fs] creates_nonneg [of p] by simp
  then have "\<not> token (creates p) (frames k) None"
    by (auto simp: token_None)
  then have "creating k p"
    using spec [OF c(5) [unfolded create_ok_def], of p] by (simp split: if_splits)
  then show "frames k p = []" "frames (pop_call k) p = []"
    by (auto simp: creating_def)
qed

definition object_call :: "call \<Rightarrow> bool" where
  "object_call c = (case c of Sema_init s v \<Rightarrow> True | Sema_down s \<Rightarrow> True | Sema_retry s b \<Rightarrow> True | Sema_try_down s \<Rightarrow> True
     | Sema_up s \<Rightarrow> True | Lock_init l \<Rightarrow> True | Lock_acquire l \<Rightarrow> True | Lock_owned l \<Rightarrow> True | Lock_try_acquire l \<Rightarrow> True
     | Lock_release l \<Rightarrow> True | Cond_wait v l s \<Rightarrow> True | Create_finish p cs \<Rightarrow> True | Thread_start s q \<Rightarrow> True | _ \<Rightarrow> False)"

lemma not_inner_legal: "at_call k c fs \<Longrightarrow> \<not> inner_call c \<Longrightarrow> legal c k \<and> frames k (running k) = [] \<and> pop_call k = k"
  by (auto simp: at_call_def pop_call_empty)

lemma exec_keeping:
  assumes ok: "sched_ok k" "lock_ok k" and a: "at_call k c fs" and ex: "exec w c (pop_call k) = Some k'" and oc: "\<not> object_call c"
  shows "keeping (pop_call k) k'"
proof -
  have o: "objs_ok (pop_call k)"
    using lock_okD(3) [OF ok(2)] by simp
  have "apart c"
    using oc by (cases c) (simp_all add: apart_def object_call_def)
  note p = pop_lock_ok [OF ok(2) a this]
  have plain: "plain_call (pop_call k) c"
    by (rule grows_plain [OF grows_refl p(2)]) simp_all
  note ks = exec_keeping_plain [OF ex o] exec_keeping_push [OF ex o] exec_keeping_lookup [OF ex o] exec_keeping_switch [OF ex o]
  show ?thesis
  proof (cases c)
    case (Idle s)
    then show ?thesis
      using exec_keeping_push(6) [OF ex o] plain by simp
  next
    case Thread_die
    then have "frames (pop_call k) (running (pop_call k)) = []"
      using at_call_stack(2) [OF sched_okD(1) [OF ok(1)] a] fun_cong [OF at_call_frames [OF a], of "running k"]
      by (auto simp: final_call_def)
    then show ?thesis
      using exec_keeping_switch(3) [OF ex o Thread_die] by simp
  next
    case (Thread_create q nm pri cs)
    then have "cs = []"
      using not_inner_legal [OF a] by (simp add: inner_call_def)
    then show ?thesis
      using exec_keeping_switch(4) [OF ex o] Thread_create by simp
  qed (use oc ks in \<open>simp_all add: object_call_def\<close>)
qed

lemma exec_lock_ok:
  assumes ok: "sched_ok k" "lock_ok k" and a: "at_call k c fs" and w: "fresh_ws w k" and ex: "exec w c (pop_call k) = Some k'"
  shows "lock_ok k'"
proof (cases "object_call c")
  case False
  then have "apart c"
    by (cases c) (simp_all add: apart_def object_call_def)
  then show ?thesis
    using keeping_lock_ok [OF pop_lock_ok(1) [OF ok(2) a] exec_keeping [OF ok a ex False]] by simp
next
  case True
  have new: "legal c k \<and> exec w c k = Some k'" if "\<not> inner_call c"
    using not_inner_legal [OF a that] ex by simp
  note init = init_calls_lock_ok [OF ok(2), of c w k']
  show ?thesis
  proof (cases c)
    case (Sema_init s v)
    then have "\<not> inner_call c"
      by (simp add: inner_call_def)
    then show ?thesis
      using init(1) [OF _ _ Sema_init] new by blast
  next
    case (Lock_init l)
    then have "\<not> inner_call c"
      by (simp add: inner_call_def)
    then show ?thesis
      using init(2) [OF _ _ Lock_init] new by blast
  next
    case (Cond_wait v l s)
    then have "\<not> inner_call c"
      by (simp add: inner_call_def)
    then show ?thesis
      using init(3) [OF _ _ Cond_wait] new by blast
  next
    case (Thread_start s q)
    then have "\<not> inner_call c"
      by (simp add: inner_call_def)
    then show ?thesis
      using init(4) [OF _ _ Thread_start] new by blast
  next
    case (Sema_down s)
    then show ?thesis
      using sema_down_effect [of s "pop_call k" k'] ex by (intro sema_retry_lock_ok [OF ok(2) a, of s]) auto
  next
    case (Sema_retry s b)
    then have "sema_retry s b ((pop_call k)\<lparr>intr_on := intr_on k\<rparr>) = Some k'"
      using ex by (simp add: pop_call_def)
    then show ?thesis
      using Sema_retry by (intro sema_retry_lock_ok [OF ok(2) a, of s]) auto
  next
    case (Sema_try_down s)
    then obtain b k1 where "sema_try_down s (pop_call k) = Some (b, k1)" "k' = set_eax (of_bool b) k1"
      using ex by auto
    then show ?thesis
      using sema_try_down_lock_ok [OF ok(2), of s fs b k1] a Sema_try_down by (intro lock_ok_cong [of k1 k']) simp_all
  next
    case (Sema_up s)
    then show ?thesis using sema_up_lock_ok [OF ok(2)] a ex by simp
  next
    case (Lock_acquire l)
    then show ?thesis using lock_acquire_lock_ok [OF ok(2)] a ex by simp
  next
    case (Lock_owned l)
    then show ?thesis using lock_owned_lock_ok [OF ok(2)] a ex by simp
  next
    case (Lock_try_acquire l)
    then show ?thesis using lock_try_acquire_lock_ok [OF ok(2)] a ex by simp
  next
    case (Lock_release l)
    then show ?thesis using lock_release_lock_ok [OF ok(2)] a ex by simp
  next
    case (Create_finish p cs)
    then show ?thesis
      using create_finish_lock_ok [OF ok(2), of p cs fs w k'] a w ex create_finish_stack [OF ok(1), of p cs fs] by simp
  qed (use True in \<open>simp_all add: object_call_def\<close>)
qed

text \<open>A step executes a call, or takes an interrupt.\<close>

lemma kstep_cases:
  assumes "kstep a k k'" "sched_ok k"
  obtains (exec) c fs w where "a = Run \<and> frames k (running k) = c # fs \<or> a = Call c \<and> frames k (running k) = [] \<and> fs = []"
      "at_call k c fs" "fresh_ws w k" "exec w c (pop_call k) = Some k'"
    | (tick) "a = Tick" "take_interrupt k = Some k'"
  using assms(1)
proof cases
  case (run c fs w)
  then have "at_call k c fs"
    using core_okD(7) [OF sched_okD(1) [OF assms(2)], of "running k"] by (auto simp: at_call_def stack_ok_def)
  then show ?thesis
    using run exec by blast
next
  case (call c w)
  then show ?thesis
    using exec [of c "[]" w] by (simp add: at_call_def pop_call_empty)
qed (use tick in blast)

lemma kstep_lock_ok:
  assumes "kstep a k k'" "sched_ok k" "lock_ok k" "thread_ticks k < TIME_SLICE"
  shows "lock_ok k'"
  using assms(1,2)
proof (cases rule: kstep_cases)
  case (exec c fs w)
  then show ?thesis
    using exec_lock_ok [OF assms(2,3)] by blast
next
  case tick
  then show ?thesis
    using keeping_lock_ok [OF assms(3)] take_interrupt_keeping [OF _ assms(4) lock_okD(3) [OF assms(3)]] by blast
qed

lemma boot_lock_ok:
  assumes k: "thread_init (boot_state p) = Some k"
  shows "lock_ok k"
proof -
  let ?k0 = "(boot_state p)\<lparr>holder := [tid_lock \<mapsto> 0], semas := [lock_sema tid_lock \<mapsto> \<lparr>s_value = 1, s_waiters = []\<rparr>],
    ready_list := [], all_list := [], initial_thread := p\<rparr>"
  obtain k1 where k1: "init_thread p [109, 97, 105, 110, 0] PRI_DEFAULT ?k0 = Some k1"
    and k': "k = push_calls (alloc_tid_calls p) (set_status p THREAD_RUNNING k1)"
    using k by (auto simp: thread_init_def lock_init_def sema_init_def Let_def bind_eq_Some_conv running_thread_def boot_state_def)
  obtain th where k1': "k1 = ?k0\<lparr>threads := (threads ?k0)(p \<mapsto> th), all_list := all_list ?k0 @ [p], intr_on := intr_on ?k0\<rparr>"
    using init_thread_effect [OF k1] .
  have eq: "frames k = (\<lambda>_. [])(p := alloc_tid_calls p)" "holder k = [tid_lock \<mapsto> 0]"
    "semas k = [lock_sema tid_lock \<mapsto> \<lparr>s_value = 1, s_waiters = []\<rparr>]" "conds k = Map.empty" "wstats k = Map.empty"
    by (simp_all add: k' k1' boot_state_def)
  have plain: "\<forall>c \<in> set (alloc_tid_calls p). plain_call k c"
    by (simp add: alloc_tid_calls_def plain_call_def)
  show ?thesis
    unfolding lock_ok_def
  proof (intro conjI allI impI)
    show "lock_stack k (frames k t)" for t
      using stack_plain [OF plain, of "[]"] by (auto simp: eq intro: lock_stack.intros)
    show "objs_ok k"
      by (simp add: objs_ok_def eq)
    show "lock_state k l" if "holder k l \<noteq> None" for l
      using plain_wsum [OF plain that] that unfolding lock_state_def
      by (auto simp: eq token_None split: if_splits intro!: exI [of _ None])
  qed
qed

lemma kreach_lock_ok: "kreach k \<Longrightarrow> lock_ok k"
proof (induction rule: kreach.induct)
  case (boot p k)
  then show ?case
    by (intro boot_lock_ok)
next
  case (step k a k')
  then show ?case
    using kstep_lock_ok kreach_ticks kreach_ok by blast
qed

section \<open>Mutual exclusion\<close>

lemma keeping_same: "keeping k k' \<Longrightarrow> holder k' = holder k \<and> semas k' = semas k"
  by (auto simp: keeping_def spares_def)

lemma create_same:
  assumes "thread_create p nm pri cs k = Some k'"
  shows "holder k' = holder k \<and> semas k' = semas k \<and> (\<forall>t. t \<noteq> running k \<longrightarrow> frames k' t = frames k t)"
proof (cases "p = 0")
  case True
  then show ?thesis
    using assms by (auto simp: thread_create_def)
next
  case False
  show ?thesis
    using thread_create_effect [OF assms False] by cases auto
qed

lemma sema_retry_same:
  assumes "sema_retry s b k = Some k'"
  shows "holder k' = holder k"
  using assms
proof (cases rule: sema_retry_effect)
  case (wait x)
  then have "schedule (set_status (running k) THREAD_BLOCKED
      (push_calls [Sema_retry s b] (set_sema s (\<lambda>x. x\<lparr>s_waiters := s_waiters x @ [running k]\<rparr>) k))) = Some k'"
    using thread_block_effect [OF wait(3)] by simp
  then show ?thesis
    by (auto dest!: schedule_effect simp: same_objs_def)
qed simp

text \<open>The holder of a lock changes only when it releases the lock.\<close>

lemma exec_holder:
  assumes ok: "sched_ok k" "lock_ok k" and a: "at_call k c fs" and w: "fresh_ws w k" and ex: "exec w c (pop_call k) = Some k'"
    and l: "holder k l = Some h" "h \<noteq> 0"
  shows "holder k' l = Some h \<or> c = Lock_release l \<and> h = running k \<and> holder k' l = Some 0"
proof (cases "object_call c")
  case False
  then show ?thesis
    using keeping_same [OF exec_keeping [OF ok a ex False]] l by simp
next
  case True
  have new: "legal c k \<and> pop_call k = k" if "\<not> inner_call c"
    using not_inner_legal [OF a that] by simp
  show ?thesis
  proof (cases c)
    case (Sema_init s v)
    then show ?thesis using ex l by (auto simp: sema_init_def bind_eq_Some_conv)
  next
    case (Lock_init m)
    then show ?thesis using ex l new by (auto simp: lock_init_def sema_init_def bind_eq_Some_conv inner_call_def fresh_lock_def)
  next
    case (Cond_wait v m s)
    then show ?thesis using ex l by (auto simp: cond_wait_def sema_init_def Let_def bind_eq_Some_conv)
  next
    case (Thread_start s q)
    then show ?thesis
      using ex l by (auto simp: thread_start_def sema_init_def Let_def bind_eq_Some_conv dest!: create_same)
  next
    case (Sema_down s)
    then show ?thesis
      using sema_retry_same [OF sema_down_effect [of s "pop_call k" k']] ex l by simp
  next
    case (Sema_retry s b)
    then show ?thesis
      using sema_retry_same [of s b "pop_call k" k'] ex l by simp
  next
    case (Sema_try_down s)
    then show ?thesis
      using ex l by (auto elim!: sema_try_down_effect split: if_splits)
  next
    case (Sema_up s)
    then have "sema_up s (pop_call k) = Some k'"
      using ex by simp
    then show ?thesis
      by (cases rule: sema_up_semas) (use l in simp)
  next
    case (Lock_acquire m)
    then show ?thesis using ex l by (auto simp: lock_acquire_def bind_eq_Some_conv)
  next
    case (Lock_owned m)
    then have "holder k m = Some 0" "k' = (pop_call k)\<lparr>holder := (holder k)(m \<mapsto> running k)\<rparr>"
      using lock_owned_lock_ok [OF ok(2), of m fs k'] a ex by (auto simp: lock_owned_def bind_eq_Some_conv thread_current_eq)
    then show ?thesis
      using l by auto
  next
    case (Lock_try_acquire m)
    then show ?thesis
      using ex l by (auto simp: lock_try_acquire_def Let_def bind_eq_Some_conv elim!: sema_try_down_effect split: if_splits)
  next
    case (Lock_release m)
    then have "holder k m = Some (running k)"
      "k' = push_calls [Sema_up (lock_sema m)] ((pop_call k)\<lparr>holder := (holder k)(m \<mapsto> 0)\<rparr>)"
      using lock_release_lock_ok [OF ok(2), of m fs k'] a ex by (auto simp: lock_release_def bind_eq_Some_conv)
    then show ?thesis
      using l Lock_release by auto
  next
    case (Create_finish p cs)
    then have "thread_create_finish p cs w (pop_call k) = Some k'"
      using ex by simp
    moreover have "ws_lock w \<noteq> l"
      using w l by (auto simp: fresh_ws_def fresh_lock_def)
    ultimately show ?thesis
      using l by (auto simp: with_ws_def elim!: thread_create_finish_effect)
  qed (use True in \<open>simp_all add: object_call_def\<close>)
qed

section \<open>Wake-ups\<close>

text \<open>Threads that were taken off the wait list of a semaphore and have not looked at its value since.\<close>

definition woken :: "kst \<Rightarrow> nat \<Rightarrow> semaphore \<Rightarrow> nat set" where
  "woken k s x = {t. (\<exists>b fs. frames k t = Sema_retry s b # fs) \<and> t \<notin> set (s_waiters x)}"

definition wake_ok :: "kst \<Rightarrow> bool" where
  "wake_ok k \<longleftrightarrow> (\<forall>s x. semas k s = Some x \<and> s_waiters x \<noteq> [] \<longrightarrow> s_value x \<le> card (woken k s x))"

lemma woken_finite: "sched_ok k \<Longrightarrow> finite (woken k s x)"
proof -
  assume "sched_ok k"
  then have "woken k s x \<subseteq> set (all_list k)"
    using allD(2) [OF core_okD(2) [OF sched_okD(1)]] by (auto simp: woken_def)
  then show ?thesis
    by (rule finite_subset) simp
qed

lemma wake_okI:
  assumes ok: "wake_ok k"
    and sm: "\<And>s y. semas k' s = Some y \<Longrightarrow> s_waiters y \<noteq> [] \<Longrightarrow> 0 < s_value y
      \<Longrightarrow> \<exists>x. semas k s = Some x \<and> s_waiters x \<noteq> [] \<and> s_value y + card (woken k s x) \<le> s_value x + card (woken k' s y)"
  shows "wake_ok k'"
  unfolding wake_ok_def
proof (intro allI impI)
  fix s y
  assume y: "semas k' s = Some y \<and> s_waiters y \<noteq> []"
  show "s_value y \<le> card (woken k' s y)"
  proof (cases "0 < s_value y")
    case True
    then obtain x where x: "semas k s = Some x" "s_waiters x \<noteq> []" "s_value y + card (woken k s x) \<le> s_value x + card (woken k' s y)"
      using sm y by blast
    then have "s_value x \<le> card (woken k s x)"
      using ok by (auto simp: wake_ok_def)
    then show ?thesis
      using x(3) by simp
  qed simp
qed

text \<open>Steps that change no wait list and raise no value.\<close>

lemma wake_keep:
  assumes ok: "wake_ok k" and fin: "sched_ok k'"
    and sm: "\<And>s y. semas k' s = Some y \<Longrightarrow> s_waiters y = [] \<or> s_value y = 0
      \<or> (\<exists>x. semas k s = Some x \<and> s_waiters y = s_waiters x \<and> s_value y \<le> s_value x)"
    and fr: "\<And>t s b gs. frames k t = Sema_retry s b # gs \<Longrightarrow> frames k' t = frames k t"
  shows "wake_ok k'"
proof (rule wake_okI [OF ok])
  fix s y
  assume y: "semas k' s = Some y" "s_waiters y \<noteq> []" "0 < s_value y"
  then obtain x where x: "semas k s = Some x" "s_waiters y = s_waiters x" "s_value y \<le> s_value x"
    using sm [of s y] by auto
  have "t \<in> woken k' s y" if "t \<in> woken k s x" for t
    using that fr [of t s] x(2) unfolding woken_def by auto
  then have "card (woken k s x) \<le> card (woken k' s y)"
    by (intro card_mono [OF woken_finite [OF fin]]) blast
  then show "\<exists>x. semas k s = Some x \<and> s_waiters x \<noteq> [] \<and> s_value y + card (woken k s x) \<le> s_value x + card (woken k' s y)"
    using x y by (intro exI [of _ x]) simp
qed

lemma sema_retry_wake_ok:
  assumes ok: "sched_ok k" "wake_ok k" and a: "at_call k c fs" and c: "c = Sema_down s \<or> c = Sema_retry s b"
    and y: "sema_retry s b ((pop_call k)\<lparr>intr_on := v\<rparr>) = Some k'" and ok': "sched_ok k'"
  shows "wake_ok k'"
proof -
  note d = sched_okD [OF ok(1)] and w = waitD [OF core_okD(3) [OF sched_okD(1) [OF ok(1)]]]
  let ?r = "running k"
  have top: "frames k ?r = Sema_retry s b # fs \<and> c = Sema_retry s b \<or> (\<forall>s' b' gs. frames k ?r \<noteq> Sema_retry s' b' # gs) \<and> c = Sema_down s"
    using a c by (auto simp: at_call_def)
  from y show ?thesis
  proof (cases rule: sema_retry_effect)
    case (wait x)
    have "same_objs (set_status ?r THREAD_BLOCKED (push_calls [Sema_retry s b]
        (set_sema s (\<lambda>x. x\<lparr>s_waiters := s_waiters x @ [?r]\<rparr>) ((pop_call k)\<lparr>intr_on := v\<rparr>)))) k'"
      using thread_block_effect [OF wait(3)] schedule_effect by auto
    then have sm: "semas k' = (semas k)(s \<mapsto> x\<lparr>s_waiters := s_waiters x @ [?r]\<rparr>)" and fr: "frames k' = (frames k)(?r := Sema_retry s b # fs)"
      using wait(1) fun_cong [OF at_call_frames [OF a], of ?r] by (simp_all add: same_objs_def)
    show ?thesis
      by (rule wake_keep [OF ok(2) ok']) (use top wait(2) in \<open>auto simp: sm fr split: if_splits\<close>)
  next
    case (pass x)
    then have x: "semas k s = Some x" and sm: "semas k' = (semas k)(s \<mapsto> x\<lparr>s_value := s_value x - 1\<rparr>)" and fr: "frames k' = (frames k)(?r := fs)"
      using at_call_frames [OF a] by simp_all
    show ?thesis
    proof (rule wake_okI [OF ok(2)])
      fix u z
      assume z: "semas k' u = Some z" "s_waiters z \<noteq> []" "0 < s_value z"
      obtain x' where x': "semas k u = Some x'" "s_waiters z = s_waiters x'" "s_value z = s_value x' - of_bool (u = s)" "u = s \<longrightarrow> x' = x"
        using z x by (cases "u = s") (auto simp: sm)
      have sub: "woken k u x' - {?r} \<subseteq> woken k' u z" and sub': "u \<noteq> s \<or> c = Sema_down s \<Longrightarrow> ?r \<notin> woken k u x'"
        using top x'(2) by (auto simp: woken_def fr)
      have "card (woken k u x') \<le> card (woken k' u z) + of_bool (u = s)"
      proof (cases "?r \<in> woken k u x'")
        case True
        have "card (woken k u x') = card (woken k u x' - {?r}) + 1"
          using True woken_finite [OF ok(1), of u x'] card_Suc_Diff1 [of "woken k u x'" ?r] by simp
        also have "\<dots> \<le> card (woken k' u z) + 1"
          using card_mono [OF woken_finite [OF ok'] sub] by simp
        finally show ?thesis
          using True sub' by auto
      next
        case False
        then show ?thesis
          using card_mono [OF woken_finite [OF ok'] sub] by simp
      qed
      then show "\<exists>x. semas k u = Some x \<and> s_waiters x \<noteq> [] \<and> s_value z + card (woken k u x) \<le> s_value x + card (woken k' u z)"
        using x' z pass(2) by (intro exI [of _ x']) (cases "u = s"; simp)
    qed
  qed
qed

lemma sema_up_wake_ok:
  assumes ok: "sched_ok k" "wake_ok k" and a: "at_call k (Sema_up s) fs" and y: "sema_up s (pop_call k) = Some k'" and ok': "sched_ok k'"
  shows "wake_ok k'"
  using y
proof (cases rule: sema_up_semas)
  case (1 x z)
  note w = waitD [OF core_okD(3) [OF sched_okD(1) [OF ok(1)]]]
  have fr: "frames k' = (frames k)(running k := fs)" and x: "semas k s = Some x"
    using 1 at_call_frames [OF a] by simp_all
  have top: "\<forall>s' b gs. frames k (running k) \<noteq> Sema_retry s' b # gs"
    using a by (auto simp: at_call_def)
  show ?thesis
  proof (rule wake_okI [OF ok(2)])
    fix u v
    assume v: "semas k' u = Some v" "s_waiters v \<noteq> []" "0 < s_value v"
    have sub: "woken k u x' \<subseteq> woken k' u v" if "set (s_waiters v) \<subseteq> set (s_waiters x')" for x'
      using that top by (auto simp: woken_def fr)
    show "\<exists>x. semas k u = Some x \<and> s_waiters x \<noteq> [] \<and> s_value v + card (woken k u x) \<le> s_value x + card (woken k' u v)"
    proof (cases "u = s")
      case True
      then have vz: "v = z"
        using v 1(2) by simp
      then obtain t ts where ts: "s_waiters x = t # ts" "s_waiters z = ts"
        using v(2) 1(4) by (cases "s_waiters x") auto
      have "st k t = Some THREAD_BLOCKED" "\<exists>b gs. frames k t = Sema_retry s b # gs" "t \<notin> set ts"
        using w(1,2) [OF x] ts(1) by auto
      then have "t \<in> woken k' s z" "t \<notin> woken k s x"
        using ts sched_okD(2) [OF ok(1)] by (auto simp: woken_def fr)
      moreover have "woken k s x \<subseteq> woken k' s z"
        using sub [of x] ts True vz by auto
      ultimately have "card (woken k s x) + 1 \<le> card (woken k' s z)"
        using card_mono [OF woken_finite [OF ok'], of "insert t (woken k s x)"] woken_finite [OF ok(1)] by auto
      moreover have "s_value z \<le> s_value x + 1"
        using 1(3) by (simp add: szt_def)
      ultimately show ?thesis
        using x ts True vz by (intro exI [of _ x]) simp
    next
      case False
      then show ?thesis
        using v 1(2) card_mono [OF woken_finite [OF ok'] sub [of v]] by (intro exI [of _ v]) simp
    qed
  qed
qed

lemma exec_wake_ok:
  assumes ok: "sched_ok k" "lock_ok k" "wake_ok k" and a: "at_call k c fs" and w: "fresh_ws w k"
    and ex: "exec w c (pop_call k) = Some k'" and ok': "sched_ok k'"
  shows "wake_ok k'"
proof -
  have top: "t \<noteq> running k" if "frames k t = Sema_retry s b # gs" "\<not> is_retry c" for t s b gs
    using a that by (auto simp: at_call_def is_retry_def)
  have keep: "wake_ok k'" if "\<not> is_retry c" "\<And>s y. semas k' s = Some y \<Longrightarrow> s_waiters y = [] \<or> s_value y = 0
      \<or> (\<exists>x. semas k s = Some x \<and> s_waiters y = s_waiters x \<and> s_value y \<le> s_value x)"
    "\<And>t. t \<noteq> running k \<Longrightarrow> frames k t \<noteq> [] \<Longrightarrow> frames k' t = frames k t"
    using that top by (intro wake_keep [OF ok(3) ok']) auto
  show ?thesis
  proof (cases "object_call c")
    case False
    then have "\<not> is_retry c"
      by (auto simp: is_retry_def object_call_def)
    moreover obtain ps where "spares ps (pop_call k) k'"
      using exec_keeping [OF ok(1,2) a ex False] by (auto simp: keeping_def)
    ultimately show ?thesis
      by (intro keep) (auto simp: spares_def)
  next
    case True
    show ?thesis
    proof (cases c)
      case (Sema_init s v)
      then show ?thesis using ex by (intro keep) (auto simp: sema_init_def bind_eq_Some_conv is_retry_def split: if_splits)
    next
      case (Lock_init m)
      then show ?thesis using ex by (intro keep) (auto simp: lock_init_def sema_init_def bind_eq_Some_conv is_retry_def split: if_splits)
    next
      case (Cond_wait v m s)
      then show ?thesis
        using ex by (intro keep) (auto simp: cond_wait_def sema_init_def Let_def bind_eq_Some_conv is_retry_def split: if_splits)
    next
      case (Thread_start s q)
      then show ?thesis
        using ex by (intro keep) (auto simp: thread_start_def sema_init_def Let_def bind_eq_Some_conv is_retry_def
            dest!: create_same split: if_splits)
    next
      case (Sema_down s)
      then show ?thesis
        using sema_down_effect [of s "pop_call k" k'] ex by (intro sema_retry_wake_ok [OF ok(1,3) a _ _ ok', of s]) auto
    next
      case (Sema_retry s b)
      then have "sema_retry s b ((pop_call k)\<lparr>intr_on := intr_on k\<rparr>) = Some k'"
        using ex by (simp add: pop_call_def)
      then show ?thesis
        using Sema_retry by (intro sema_retry_wake_ok [OF ok(1,3) a _ _ ok', of s]) auto
    next
      case (Sema_try_down s)
      then show ?thesis
        using ex by (intro keep) (auto simp: is_retry_def elim!: sema_try_down_effect split: if_splits)
    next
      case (Sema_up s)
      then show ?thesis using sema_up_wake_ok [OF ok(1,3) _ _ ok'] a ex by simp
    next
      case (Lock_acquire l)
      then show ?thesis using ex by (intro keep) (auto simp: lock_acquire_def bind_eq_Some_conv is_retry_def)
    next
      case (Lock_owned l)
      then show ?thesis using ex by (intro keep) (auto simp: lock_owned_def bind_eq_Some_conv is_retry_def)
    next
      case (Lock_try_acquire l)
      then show ?thesis
        using ex by (intro keep) (auto simp: lock_try_acquire_def Let_def bind_eq_Some_conv is_retry_def
            elim!: sema_try_down_effect split: if_splits)
    next
      case (Lock_release l)
      then show ?thesis using ex by (intro keep) (auto simp: lock_release_def bind_eq_Some_conv is_retry_def)
    next
      case (Create_finish p cs)
      then have "thread_create_finish p cs w (pop_call k) = Some k'" "frames k p = []"
        using ex create_finish_stack [OF ok(1), of p cs fs] a by auto
      then show ?thesis
        using Create_finish by (intro keep) (auto simp: with_ws_def is_retry_def elim!: thread_create_finish_effect split: if_splits)
    qed (use True in \<open>simp_all add: object_call_def\<close>)
  qed
qed

lemma kreach_wake_ok: "kreach k \<Longrightarrow> wake_ok k"
proof (induction rule: kreach.induct)
  case (boot p k)
  then have "semas k = [lock_sema tid_lock \<mapsto> \<lparr>s_value = 1, s_waiters = []\<rparr>]"
    by (auto simp: thread_init_def lock_init_def sema_init_def Let_def bind_eq_Some_conv running_thread_def boot_state_def
        elim!: init_thread_effect)
  then show ?case
    by (simp add: wake_ok_def)
next
  case (step k a k')
  note ok = kreach_ok [OF step(1)] kreach_lock_ok [OF step(1)] and ok' = kreach_ok [OF kreach.step [OF step(1,2)]]
  from step(2) ok(1) show ?case
  proof (cases rule: kstep_cases)
    case (exec c fs w)
    then show ?thesis
      using exec_wake_ok [OF ok step(3) _ _ _ ok'] by blast
  next
    case tick
    then obtain ps where ps: "spares ps k k'" "\<And>c. c \<in> set ps \<Longrightarrow> plain_call k c"
      using take_interrupt_keeping [OF _ kreach_ticks [OF step(1)] lock_okD(3) [OF ok(2)]] by (auto simp: keeping_def spares_def)
    have "frames k (running k) \<noteq> Sema_retry s b # gs" for s b gs
      using ok(1) step(2) tick by (auto simp: sched_ok_def is_retry_def elim!: kstep.cases)
    then show ?thesis
      using ps by (intro wake_keep [OF step(3) ok']) (auto simp: spares_def)
  qed
qed

section \<open>The properties\<close>

lemma held_state:
  assumes "lock_state k l" "holder k l = Some h" "h \<noteq> 0"
  shows "(\<exists>x. semas k (lock_sema l) = Some x \<and> s_value x = 0) \<and> (\<forall>t. wsum (owes l) (frames k t) = 0)"
proof -
  obtain x tk where "semas k (lock_sema l) = Some x" "token (owes l) (frames k) tk" "s_value x + of_bool (tk \<noteq> None) + 1 = 1"
    using assms by (auto simp: lock_state_def)
  then show ?thesis
    by (cases tk) (auto simp: token_None)
qed


text \<open>
  C3: no wake-up is lost.  As long as threads wait for a semaphore, its value is at most the
  number of threads that were woken up to take it and are ready or running inside
  \<open>sema_down\<close>.  So a thread waits for a positive semaphore only while another thread is
  about to take it.
\<close>

theorem no_lost_wakeup:
  assumes "kreach k" "semas k s = Some x" "s_waiters x \<noteq> []"
  shows "s_value x \<le> card {t. (st k t = Some THREAD_READY \<or> st k t = Some THREAD_RUNNING) \<and> (\<exists>b fs. frames k t = Sema_retry s b # fs)}"
    (is "_ \<le> card ?T")
proof -
  note ok = kreach_ok [OF assms(1)]
  note c = core_okD [OF sched_okD(1) [OF ok]]
  have "woken k s x = ?T"
  proof (intro set_eqI iffI)
    show "t \<in> ?T" if "t \<in> woken k s x" for t
    proof -
      have "st k t \<noteq> None" "st k t \<noteq> Some THREAD_DYING" "st k t \<noteq> Some THREAD_BLOCKED"
        using that allD [OF c(2), of t] waitD(2) [OF c(3) assms(2), of t] by (auto simp: woken_def)
      then show ?thesis
        using that by (cases "st k t"; cases "the (st k t)") (auto simp: woken_def)
    qed
  qed (use waitD(2) [OF c(3) assms(2)] in \<open>auto simp: woken_def\<close>)
  then show ?thesis
    using kreach_wake_ok [OF assms(1)] assms(2,3) unfolding wake_ok_def by metis
qed

text \<open>
  In the example execution the first thread holds \<open>tid_lock\<close> after three steps; in a longer
  one, two threads wait for a semaphore when the first thread ups it.
\<close>

definition wake_steps :: "(label \<times> nat) list" where
  "wake_steps = [(Call (Thread_create 0xc0024000 [119, 0] PRI_DEFAULT []), 0xc0030100), (Run, 0xc0030100), (Run, 0xc0030100),
     (Run, 0xc0030100), (Run, 0xc0030100), (Run, 0xc0030100), (Run, 0xc0030100), (Run, 0xc0030100),
     (Call (Sema_init 0xc0040000 0), 0xc0030200), (Call Thread_yield, 0xc0030200),
     (Run, 0xc0030200), (Call (Sema_down 0xc0040000), 0xc0030200), (Run, 0xc0030200), (Call (Sema_down 0xc0040000), 0xc0030200),
     (Run, 0xc0030200), (Call (Sema_up 0xc0040000), 0xc0030200)]"

lemma demo_lock_evaluates:
  "map_option (\<lambda>k. (holder k tid_lock, Option.is_none (next_state Run 0xc0030000 k)))
     (do { k \<leftarrow> demo_start; run_state (take 3 demo_steps) k }) = Some (Some 0xc000e000, False)"
  by (simp add: demo_start_def demo_steps_def machine_eval demo_names)

lemma wake_steps_evaluate:
  "map_option (\<lambda>k. semas k 0xc0040000)
     (do { k \<leftarrow> demo_start; run_state (demo_steps @ wake_steps) k }) = Some (Some \<lparr>s_value = 1, s_waiters = [0xc0024000]\<rparr>)"
  by (simp add: demo_start_def demo_steps_def wake_steps_def machine_eval demo_names)

lemma demo_run:
  assumes "map_option f (do { k \<leftarrow> demo_start; run_state ls k }) = Some v"
  obtains k0 k where "demo_start = Some k0" "run_state ls k0 = Some k" "kreach k" "f k = v"
proof -
  obtain k0 k where k: "demo_start = Some k0" "run_state ls k0 = Some k" "f k = v"
    using assms by (auto simp: bind_eq_Some_conv)
  moreover have "kreach k0"
    using k(1) by (intro kreach.boot [of "0xc000e000"]) (simp_all add: demo_start_def)
  ultimately show ?thesis
    using that run_state_kreach by blast
qed


theorem no_lost_wakeup_witness:
  "\<exists>k0 k t b fs. demo_start = Some k0 \<and> run_state (demo_steps @ wake_steps) k0 = Some k \<and> semas k 0xc0040000 = Some \<lparr>s_value = 1, s_waiters = [0xc0024000]\<rparr>
    \<and> (st k t = Some THREAD_READY \<or> st k t = Some THREAD_RUNNING) \<and> frames k t = Sema_retry 0xc0040000 b # fs"
proof -
  obtain k0 k where k: "demo_start = Some k0" "run_state (demo_steps @ wake_steps) k0 = Some k" "kreach k"
    "semas k 0xc0040000 = Some \<lparr>s_value = 1, s_waiters = [0xc0024000]\<rparr>"
    using demo_run [OF wake_steps_evaluate] .
  have "1 \<le> card {t. (st k t = Some THREAD_READY \<or> st k t = Some THREAD_RUNNING) \<and> (\<exists>b fs. frames k t = Sema_retry 0xc0040000 b # fs)}"
    using no_lost_wakeup [OF k(3,4)] by simp
  then have "{t. (st k t = Some THREAD_READY \<or> st k t = Some THREAD_RUNNING) \<and> (\<exists>b fs. frames k t = Sema_retry 0xc0040000 b # fs)} \<noteq> {}"
    by (intro notI) simp
  then show ?thesis
    using k by blast
qed

end
