(* ===== verification/Bitmaps.thy ===== *)
theory Bitmaps
  imports Prelude
begin

text \<open>
  The bitmap of \<open>lib/kernel/bitmap.c\<close>: an array of 32-bit elements that simulates an
  array of bits, with single-bit operations, operations on runs of bits, and the
  first-fit search that the free map and the page allocator use.  Bit numbers and counts
  are \<open>size_t\<close> values, written as naturals with the wrap-around of \<open>start + cnt\<close>
  explicit.  The file operations of the bitmap are in the file-system theories.
\<close>

section \<open>Data and helpers\<close>

definition ELEM_BITS :: nat where
  "ELEM_BITS = 32"

definition BITMAP_ERROR :: nat where
  "BITMAP_ERROR = 2 ^ 32 - 1"

record bitmap =
  bit_cnt :: nat
  bits :: "u32 list"

definition elem_idx :: "nat \<Rightarrow> nat" where
  "elem_idx bit_idx = bit_idx div ELEM_BITS"

definition bit_mask :: "nat \<Rightarrow> u32" where
  "bit_mask bit_idx = push_bit (bit_idx mod ELEM_BITS) 1"

definition elem_cnt :: "nat \<Rightarrow> nat" where
  "elem_cnt n = DIV_ROUND_UP n ELEM_BITS"

definition byte_cnt :: "nat \<Rightarrow> nat" where
  "byte_cnt n = szt (4 * elem_cnt n)"

definition last_mask :: "bitmap \<Rightarrow> u32" where
  "last_mask b = (let last_bits = bit_cnt b mod ELEM_BITS in
     if last_bits \<noteq> 0 then push_bit last_bits 1 - 1 else - 1)"

definition bitmap_size :: "bitmap \<Rightarrow> nat" where
  "bitmap_size b = bit_cnt b"

definition bitmap_buf_size :: "nat \<Rightarrow> nat" where
  "bitmap_buf_size n = szt (8 + byte_cnt n)"

section \<open>Single bits\<close>

text \<open>The three atomic read-modify-write instructions of the C code.\<close>

definition bitmap_mark :: "bitmap \<Rightarrow> nat \<Rightarrow> bitmap option" where
  "bitmap_mark b bit_idx = (let idx = elem_idx bit_idx; mask = bit_mask bit_idx in
     if idx < length (bits b) then Some (b\<lparr>bits := (bits b)[idx := bits b ! idx OR mask]\<rparr>)
     else None)"

definition bitmap_reset :: "bitmap \<Rightarrow> nat \<Rightarrow> bitmap option" where
  "bitmap_reset b bit_idx = (let idx = elem_idx bit_idx; mask = bit_mask bit_idx in
     if idx < length (bits b) then Some (b\<lparr>bits := (bits b)[idx := bits b ! idx AND NOT mask]\<rparr>)
     else None)"

definition bitmap_flip :: "bitmap \<Rightarrow> nat \<Rightarrow> bitmap option" where
  "bitmap_flip b bit_idx = (let idx = elem_idx bit_idx; mask = bit_mask bit_idx in
     if idx < length (bits b) then Some (b\<lparr>bits := (bits b)[idx := bits b ! idx XOR mask]\<rparr>)
     else None)"

definition bitmap_set :: "bitmap \<Rightarrow> nat \<Rightarrow> bool \<Rightarrow> bitmap option" where
  "bitmap_set b idx value = do {
     kassert (idx < bit_cnt b);
     if value then bitmap_mark b idx else bitmap_reset b idx }"

definition bitmap_test :: "bitmap \<Rightarrow> nat \<Rightarrow> bool option" where
  "bitmap_test b idx = do {
     kassert (idx < bit_cnt b);
     kassert (elem_idx idx < length (bits b));
     Some ((bits b ! elem_idx idx) AND bit_mask idx \<noteq> 0) }"

section \<open>Runs of bits\<close>

definition bitmap_set_multiple :: "bitmap \<Rightarrow> nat \<Rightarrow> nat \<Rightarrow> bool \<Rightarrow> bitmap option" where
  "bitmap_set_multiple b start cnt value = do {
     kassert (start \<le> bit_cnt b);
     kassert (szt (start + cnt) \<le> bit_cnt b);
     mfold (\<lambda>i b. bitmap_set b (szt (start + i)) value) [0..<cnt] b }"

definition bitmap_set_all :: "bitmap \<Rightarrow> bool \<Rightarrow> bitmap option" where
  "bitmap_set_all b value = bitmap_set_multiple b 0 (bitmap_size b) value"

definition bitmap_count :: "bitmap \<Rightarrow> nat \<Rightarrow> nat \<Rightarrow> bool \<Rightarrow> nat option" where
  "bitmap_count b start cnt value = do {
     kassert (start \<le> bit_cnt b);
     kassert (szt (start + cnt) \<le> bit_cnt b);
     mfold (\<lambda>i value_cnt. do {
       t \<leftarrow> bitmap_test b (szt (start + i));
       Some (if t = value then value_cnt + 1 else value_cnt) }) [0..<cnt] 0 }"

text \<open>The loop of \<open>bitmap_contains\<close> from bit \<open>i\<close>, with \<open>n\<close> iterations left.\<close>

fun contains_loop :: "bitmap \<Rightarrow> nat \<Rightarrow> nat \<Rightarrow> bool \<Rightarrow> bool option" where
  "contains_loop b i 0 value = Some False"
| "contains_loop b i (Suc n) value = do {
     t \<leftarrow> bitmap_test b (szt i);
     if t = value then Some True else contains_loop b (i + 1) n value }"

definition bitmap_contains :: "bitmap \<Rightarrow> nat \<Rightarrow> nat \<Rightarrow> bool \<Rightarrow> bool option" where
  "bitmap_contains b start cnt value = do {
     kassert (start \<le> bit_cnt b);
     kassert (szt (start + cnt) \<le> bit_cnt b);
     contains_loop b start cnt value }"

definition bitmap_any :: "bitmap \<Rightarrow> nat \<Rightarrow> nat \<Rightarrow> bool option" where
  "bitmap_any b start cnt = bitmap_contains b start cnt True"

definition bitmap_none :: "bitmap \<Rightarrow> nat \<Rightarrow> nat \<Rightarrow> bool option" where
  "bitmap_none b start cnt = map_option Not (bitmap_contains b start cnt True)"

definition bitmap_all :: "bitmap \<Rightarrow> nat \<Rightarrow> nat \<Rightarrow> bool option" where
  "bitmap_all b start cnt = map_option Not (bitmap_contains b start cnt False)"

text \<open>The search loop of \<open>bitmap_scan\<close> from \<open>i\<close>, with \<open>n\<close> candidates left.\<close>

fun scan_loop :: "bitmap \<Rightarrow> nat \<Rightarrow> nat \<Rightarrow> nat \<Rightarrow> bool \<Rightarrow> nat option" where
  "scan_loop b i 0 cnt value = Some BITMAP_ERROR"
| "scan_loop b i (Suc n) cnt value = do {
     c \<leftarrow> bitmap_contains b i cnt (\<not> value);
     if \<not> c then Some i else scan_loop b (i + 1) n cnt value }"

definition bitmap_scan :: "bitmap \<Rightarrow> nat \<Rightarrow> nat \<Rightarrow> bool \<Rightarrow> nat option" where
  "bitmap_scan b start cnt value = do {
     kassert (start \<le> bit_cnt b);
     if cnt \<le> bit_cnt b
     then (let last = bit_cnt b - cnt in scan_loop b start (last + 1 - start) cnt value)
     else Some BITMAP_ERROR }"

definition bitmap_scan_and_flip :: "bitmap \<Rightarrow> nat \<Rightarrow> nat \<Rightarrow> bool \<Rightarrow> (nat \<times> bitmap) option" where
  "bitmap_scan_and_flip b start cnt value = do {
     idx \<leftarrow> bitmap_scan b start cnt value;
     if idx \<noteq> BITMAP_ERROR
     then do { b' \<leftarrow> bitmap_set_multiple b idx cnt (\<not> value); Some (idx, b') }
     else Some (idx, b) }"

section \<open>Creation\<close>

text \<open>
  The two calls of \<open>malloc\<close> are parameters: whether the descriptor was obtained, and the
  (uninitialised) elements, or \<^term>\<open>None\<close> for a null pointer.
\<close>

definition bitmap_create :: "bool \<Rightarrow> u32 list option \<Rightarrow> nat \<Rightarrow> bitmap option option" where
  "bitmap_create desc_ok mem n =
     (if \<not> desc_ok then Some None
      else case mem of
        Some junk \<Rightarrow> map_option Some (bitmap_set_all \<lparr>bit_cnt = n, bits = junk\<rparr> False)
      | None \<Rightarrow> if n = 0 then map_option Some (bitmap_set_all \<lparr>bit_cnt = n, bits = []\<rparr> False)
                else Some None)"

text \<open>The elements found in the preallocated block are again a parameter.\<close>

definition bitmap_create_in_buf :: "nat \<Rightarrow> u32 list \<Rightarrow> nat \<Rightarrow> bitmap option" where
  "bitmap_create_in_buf n junk block_size = do {
     kassert (block_size \<ge> bitmap_buf_size n);
     bitmap_set_all \<lparr>bit_cnt = n, bits = junk\<rparr> False }"

section \<open>Abstraction: the set of marked bits\<close>

definition marked :: "bitmap \<Rightarrow> nat \<Rightarrow> bool" where
  "marked b i \<longleftrightarrow> bit (bits b ! (i div 32)) (i mod 32)"

definition bm_ok :: "bitmap \<Rightarrow> bool" where
  "bm_ok b \<longleftrightarrow> length (bits b) = elem_cnt (bit_cnt b) \<and> bit_cnt b < 2 ^ 32 - 32"

lemma elem_cnt_exact: "n < 2 ^ 32 - 32 \<Longrightarrow> elem_cnt n = (n + 31) div 32"
  by (simp add: elem_cnt_def DIV_ROUND_UP_def ELEM_BITS_def szt_def)

lemma bm_ok_elem: "bm_ok b \<Longrightarrow> i < bit_cnt b \<Longrightarrow> i div 32 < length (bits b)"
  by (simp add: bm_ok_def elem_cnt_exact)

lemma bit_mask_bit: "bit (bit_mask j) k \<longleftrightarrow> k = j mod 32"
  by (auto simp: bit_mask_def ELEM_BITS_def bit_exp_iff)

lemma and_mask_nonzero: "(w AND bit_mask j \<noteq> 0) \<longleftrightarrow> bit w (j mod 32)"
  by (simp add: bit_mask_def ELEM_BITS_def bit_iff_and_push_bit_not_eq_0)

lemma same_bit_iff: "(i::nat) div 32 = j div 32 \<Longrightarrow> i mod 32 = j mod 32 \<longleftrightarrow> i = j"
  by (metis div_mult_mod_eq)

lemma bitmap_test_marked:
  "bm_ok b \<Longrightarrow> i < bit_cnt b \<Longrightarrow> bitmap_test b i = Some (marked b i)"
  using bm_ok_elem [of b i]
  by (simp add: bitmap_test_def elem_idx_def ELEM_BITS_def and_mask_nonzero marked_def)

text \<open>What one single-bit operation does to the marked bits.\<close>

lemma bitmap_mark_spec:
  assumes "bm_ok b" "i < bit_cnt b"
  shows "\<exists>b'. bitmap_mark b i = Some b' \<and> bm_ok b' \<and> bit_cnt b' = bit_cnt b \<and>
    (\<forall>j < bit_cnt b. marked b' j = (j = i \<or> marked b j))"
  using assms bm_ok_elem [OF assms] same_bit_iff
  by (auto simp: bitmap_mark_def elem_idx_def ELEM_BITS_def Let_def bm_ok_def marked_def
      nth_list_update bit_or_iff bit_mask_bit)

lemma bitmap_reset_spec:
  assumes "bm_ok b" "i < bit_cnt b"
  shows "\<exists>b'. bitmap_reset b i = Some b' \<and> bm_ok b' \<and> bit_cnt b' = bit_cnt b \<and>
    (\<forall>j < bit_cnt b. marked b' j = (j \<noteq> i \<and> marked b j))"
  using assms bm_ok_elem [OF assms] same_bit_iff
  by (auto simp: bitmap_reset_def elem_idx_def ELEM_BITS_def Let_def bm_ok_def marked_def
      nth_list_update bit_and_iff bit_not_iff bit_mask_bit)

lemma bitmap_flip_spec:
  assumes "bm_ok b" "i < bit_cnt b"
  shows "\<exists>b'. bitmap_flip b i = Some b' \<and> bm_ok b' \<and> bit_cnt b' = bit_cnt b \<and>
    (\<forall>j < bit_cnt b. marked b' j = (marked b j \<noteq> (j = i)))"
  using assms bm_ok_elem [OF assms] same_bit_iff
  by (auto simp: bitmap_flip_def elem_idx_def ELEM_BITS_def Let_def bm_ok_def marked_def
      nth_list_update bit_xor_iff bit_mask_bit)

lemma bitmap_set_spec:
  assumes "bm_ok b" "i < bit_cnt b"
  shows "\<exists>b'. bitmap_set b i v = Some b' \<and> bm_ok b' \<and> bit_cnt b' = bit_cnt b \<and>
    (\<forall>j < bit_cnt b. marked b' j = (if j = i then v else marked b j))"
  using bitmap_mark_spec [OF assms] bitmap_reset_spec [OF assms] assms(2)
  by (auto simp: bitmap_set_def)

lemma bitmap_set_multiple_spec:
  assumes "bm_ok b" "start + cnt \<le> bit_cnt b"
  shows "\<exists>b'. bitmap_set_multiple b start cnt v = Some b' \<and> bm_ok b' \<and> bit_cnt b' = bit_cnt b \<and>
    (\<forall>j < bit_cnt b. marked b' j = (if start \<le> j \<and> j < start + cnt then v else marked b j))"
proof -
  let ?I = "\<lambda>i b'. bm_ok b' \<and> bit_cnt b' = bit_cnt b \<and>
    (\<forall>j < bit_cnt b. marked b' j = (if start \<le> j \<and> j < start + i then v else marked b j))"
  have small: "bit_cnt b < 2 ^ 32" using assms(1) by (simp add: bm_ok_def)
  have "\<exists>b'. mfold (\<lambda>i b. bitmap_set b (szt (start + i)) v) [0..<cnt] b = Some b' \<and> ?I cnt b'"
  proof (rule mfold_range [where I = ?I])
    fix i b'
    assume i: "i < cnt" and inv: "?I i b'"
    have "start + i < bit_cnt b'" and "szt (start + i) = start + i"
      using i inv assms(2) small by auto
    then show "\<exists>b''. bitmap_set b' (szt (start + i)) v = Some b'' \<and> ?I (Suc i) b''"
      using bitmap_set_spec [of b' "start + i" v] inv by fastforce
  qed (use assms in auto)
  then show ?thesis
    using assms small by (auto simp: bitmap_set_multiple_def)
qed

lemma bex_range_first:
  "i < (m::nat) \<Longrightarrow> (\<exists>k \<in> {i..<m}. P k) \<longleftrightarrow> P i \<or> (\<exists>k \<in> {Suc i..<m}. P k)"
  by (metis atLeastLessThan_iff le_eq_less_or_eq less_eq_Suc_le not_less_eq_eq order_refl)

lemma contains_loop_spec:
  assumes "bm_ok b"
  shows "i + n \<le> bit_cnt b \<Longrightarrow> contains_loop b i n v = Some (\<exists>j \<in> {i..<i + n}. marked b j = v)"
proof (induction n arbitrary: i)
  case 0
  then show ?case by simp
next
  case (Suc n)
  from assms Suc.prems have "szt i = i" by (simp add: bm_ok_def szt_def)
  with Suc.prems assms have "bitmap_test b (szt i) = Some (marked b i)"
    by (simp add: bitmap_test_marked)
  then show ?case
    using Suc.IH [of "i + 1"] Suc.prems
    by (simp add: bex_range_first del: atLeastLessThan_iff bex_simps)
qed

lemma bitmap_contains_spec:
  assumes "bm_ok b" "start + cnt \<le> bit_cnt b"
  shows "bitmap_contains b start cnt v = Some (\<exists>j \<in> {start..<start + cnt}. marked b j = v)"
proof -
  have "szt (start + cnt) = start + cnt" using assms by (simp add: bm_ok_def szt_def)
  with assms show ?thesis by (simp add: bitmap_contains_def contains_loop_spec)
qed

lemma bitmap_all_spec:
  assumes "bm_ok b" "start + cnt \<le> bit_cnt b"
  shows "bitmap_all b start cnt = Some (\<forall>j \<in> {start..<start + cnt}. marked b j)"
  using bitmap_contains_spec [OF assms] by (auto simp: bitmap_all_def)

text \<open>A run of \<open>cnt\<close> bits, all equal to a value, that fits in the bitmap.\<close>

definition run_of :: "bitmap \<Rightarrow> nat \<Rightarrow> nat \<Rightarrow> bool \<Rightarrow> bool" where
  "run_of b i cnt v \<longleftrightarrow> i + cnt \<le> bit_cnt b \<and> (\<forall>j \<in> {i..<i + cnt}. marked b j = v)"

text \<open>The result of a first-fit search among the candidates below \<open>lim\<close>.\<close>

definition first_fit :: "bitmap \<Rightarrow> nat \<Rightarrow> nat \<Rightarrow> nat \<Rightarrow> bool \<Rightarrow> nat \<Rightarrow> bool" where
  "first_fit b i lim cnt v r \<longleftrightarrow>
     (if \<exists>k \<in> {i..<lim}. run_of b k cnt v
      then i \<le> r \<and> r < lim \<and> run_of b r cnt v \<and> (\<forall>k \<in> {i..<r}. \<not> run_of b k cnt v)
      else r = BITMAP_ERROR)"

lemma first_fit_here: "run_of b i cnt v \<Longrightarrow> i < lim \<Longrightarrow> first_fit b i lim cnt v i"
  by (auto simp: first_fit_def)

lemma first_fit_next:
  assumes "\<not> run_of b i cnt v" "i < lim" "first_fit b (Suc i) lim cnt v r"
  shows "first_fit b i lim cnt v r"
proof (cases "\<exists>k \<in> {Suc i..<lim}. run_of b k cnt v")
  case True
  then have r: "Suc i \<le> r" "r < lim" "run_of b r cnt v" "\<forall>k \<in> {Suc i..<r}. \<not> run_of b k cnt v"
    using assms(3) by (simp_all add: first_fit_def)
  have "\<not> (\<exists>k \<in> {i..<r}. run_of b k cnt v)"
    using r(1,4) assms(1) bex_range_first [of i r "\<lambda>k. run_of b k cnt v"] by simp
  with r(1-3) show ?thesis by (auto simp: first_fit_def)
next
  case False
  then have "\<not> (\<exists>k \<in> {i..<lim}. run_of b k cnt v)"
    using assms(1,2) bex_range_first [of i lim "\<lambda>k. run_of b k cnt v"] by blast
  with False assms(3) show ?thesis by (simp add: first_fit_def)
qed

lemma run_of_fits: "run_of b i cnt v \<Longrightarrow> i + cnt \<le> bit_cnt b"
  by (simp add: run_of_def)

lemma first_fit_limit:
  assumes "\<And>k. run_of b k cnt v \<Longrightarrow> k < lim" "lim \<le> lim'" "first_fit b i lim cnt v r"
  shows "first_fit b i lim' cnt v r"
proof (cases "\<exists>k \<in> {i..<lim}. run_of b k cnt v")
  case True
  then have "\<exists>k \<in> {i..<lim'}. run_of b k cnt v" using assms(2) by auto
  with True assms(2,3) show ?thesis by (simp add: first_fit_def)
next
  case False
  then have "\<not> (\<exists>k \<in> {i..<lim'}. run_of b k cnt v)" using assms(1) by auto
  with False assms(3) show ?thesis by (simp add: first_fit_def)
qed

lemma scan_loop_spec:
  assumes "bm_ok b" "cnt \<le> bit_cnt b"
  shows "i + n + cnt \<le> Suc (bit_cnt b) \<Longrightarrow>
    \<exists>r. scan_loop b i n cnt v = Some r \<and> first_fit b i (i + n) cnt v r"
proof (induction n arbitrary: i)
  case 0
  then show ?case by (simp add: first_fit_def)
next
  case (Suc n)
  have fit: "i + cnt \<le> bit_cnt b" using Suc.prems assms(2) by simp
  have here: "bitmap_contains b i cnt (\<not> v) = Some (\<not> run_of b i cnt v)"
    using fit by (auto simp: bitmap_contains_spec [OF assms(1) fit] run_of_def)
  obtain r where r: "scan_loop b (Suc i) n cnt v = Some r" "first_fit b (Suc i) (Suc i + n) cnt v r"
    using Suc.IH [of "Suc i"] Suc.prems by auto
  show ?case
  proof (cases "run_of b i cnt v")
    case True
    with here show ?thesis using first_fit_here [of b i cnt v "i + Suc n"] by simp
  next
    case False
    with here r(1) have "scan_loop b i (Suc n) cnt v = Some r" by simp
    with first_fit_next [OF False, of "i + Suc n" r] r(2) show ?thesis by simp
  qed
qed

lemma bitmap_scan_spec:
  assumes "bm_ok b" "start \<le> bit_cnt b"
  shows "\<exists>r. bitmap_scan b start cnt v = Some r \<and> first_fit b start (Suc (bit_cnt b)) cnt v r"
proof (cases "start + cnt \<le> bit_cnt b")
  case True
  let ?n = "bit_cnt b - cnt + 1 - start"
  obtain r where r: "scan_loop b start ?n cnt v = Some r" "first_fit b start (start + ?n) cnt v r"
    using scan_loop_spec [OF assms(1), of cnt start ?n v] True by auto
  have "k < start + ?n" if "run_of b k cnt v" for k
    using True run_of_fits [OF that] by linarith
  moreover have "start + ?n \<le> Suc (bit_cnt b)"
    using True by linarith
  ultimately have "first_fit b start (Suc (bit_cnt b)) cnt v r"
    using r(2) by (rule first_fit_limit)
  with r(1) True assms(2) show ?thesis by (auto simp: bitmap_scan_def Let_def)
next
  case False
  then have "bitmap_scan b start cnt v = Some BITMAP_ERROR"
    using assms(2) by (auto simp: bitmap_scan_def Let_def)
  moreover have "first_fit b start (Suc (bit_cnt b)) cnt v BITMAP_ERROR"
    using False by (auto simp: first_fit_def run_of_def)
  ultimately show ?thesis by blast
qed


lemma first_fit_cases:
  assumes "first_fit b i (Suc (bit_cnt b)) cnt v r" "bm_ok b"
  shows "(r = BITMAP_ERROR \<and> (\<forall>k \<ge> i. \<not> run_of b k cnt v)) \<or>
    (r \<noteq> BITMAP_ERROR \<and> i \<le> r \<and> run_of b r cnt v \<and> (\<forall>k. i \<le> k \<and> k < r \<longrightarrow> \<not> run_of b k cnt v))"
proof (cases "\<exists>k \<in> {i..<Suc (bit_cnt b)}. run_of b k cnt v")
  case True
  then have "i \<le> r" "r < Suc (bit_cnt b)" "run_of b r cnt v" "\<forall>k \<in> {i..<r}. \<not> run_of b k cnt v"
    using assms(1) by (simp_all add: first_fit_def)
  moreover have "r \<noteq> BITMAP_ERROR"
    using \<open>r < Suc (bit_cnt b)\<close> assms(2) by (simp add: bm_ok_def BITMAP_ERROR_def)
  ultimately show ?thesis by auto
next
  case False
  then have "r = BITMAP_ERROR" using assms(1) by (simp add: first_fit_def)
  moreover have "\<not> run_of b k cnt v" if "i \<le> k" for k
  proof
    assume "run_of b k cnt v"
    with run_of_fits [OF this] that False show False by auto
  qed
  ultimately show ?thesis by blast
qed

text \<open>
  The whole of \<open>bitmap_scan_and_flip\<close>: either no run exists and nothing changes, or
  the first run is flipped and every other bit keeps its value.
\<close>

definition flips_run :: "bitmap \<Rightarrow> nat \<Rightarrow> nat \<Rightarrow> bool \<Rightarrow> nat \<Rightarrow> bitmap \<Rightarrow> bool" where
  "flips_run b start cnt v r b' \<longleftrightarrow>
     bm_ok b' \<and> bit_cnt b' = bit_cnt b \<and>
     (if r = BITMAP_ERROR then b' = b \<and> (\<forall>k \<ge> start. \<not> run_of b k cnt v)
      else start \<le> r \<and> run_of b r cnt v \<and> (\<forall>k. start \<le> k \<and> k < r \<longrightarrow> \<not> run_of b k cnt v) \<and>
        (\<forall>j < bit_cnt b. marked b' j = (if r \<le> j \<and> j < r + cnt then \<not> v else marked b j)))"

lemma bitmap_scan_and_flip_ok:
  assumes "bm_ok b" "start \<le> bit_cnt b"
  shows "\<exists>r b'. bitmap_scan_and_flip b start cnt v = Some (r, b') \<and> flips_run b start cnt v r b'"
proof -
  obtain r where scan: "bitmap_scan b start cnt v = Some r"
    and fit: "first_fit b start (Suc (bit_cnt b)) cnt v r"
    using bitmap_scan_spec [OF assms] by blast
  show ?thesis
  proof (cases "r = BITMAP_ERROR")
    case True
    with first_fit_cases [OF fit assms(1)] scan assms(1) show ?thesis
      by (auto simp: bitmap_scan_and_flip_def flips_run_def)
  next
    case False
    with first_fit_cases [OF fit assms(1)]
    have r: "start \<le> r" "run_of b r cnt v" "\<forall>k. start \<le> k \<and> k < r \<longrightarrow> \<not> run_of b k cnt v"
      by auto
    obtain b' where "bitmap_set_multiple b r cnt (\<not> v) = Some b'" "bm_ok b'" "bit_cnt b' = bit_cnt b"
      "\<forall>j < bit_cnt b. marked b' j = (if r \<le> j \<and> j < r + cnt then \<not> v else marked b j)"
      using bitmap_set_multiple_spec [OF assms(1) run_of_fits [OF r(2)]] by blast
    with False r scan show ?thesis
      by (auto simp: bitmap_scan_and_flip_def flips_run_def)
  qed
qed

lemma bitmap_count_spec:
  assumes "bm_ok b" "start + cnt \<le> bit_cnt b"
  shows "bitmap_count b start cnt v = Some (card {j \<in> {start..<start + cnt}. marked b j = v})"
proof -
  let ?f = "\<lambda>i n. do { t \<leftarrow> bitmap_test b (szt (start + i)); Some (if t = v then n + 1 else n) }"
  let ?I = "\<lambda>i n. n = card {j \<in> {start..<start + i}. marked b j = v}"
  have small: "bit_cnt b < 2 ^ 32" using assms(1) by (simp add: bm_ok_def)
  have "\<exists>n. mfold ?f [0..<cnt] 0 = Some n \<and> ?I cnt n"
  proof (rule mfold_range [where I = ?I])
    fix i n
    assume i: "i < cnt" and inv: "?I i n"
    have "szt (start + i) = start + i" "start + i < bit_cnt b"
      using i assms(2) small by auto
    moreover have "{j \<in> {start..<start + Suc i}. marked b j = v} =
        (if marked b (start + i) = v then insert (start + i) {j \<in> {start..<start + i}. marked b j = v}
         else {j \<in> {start..<start + i}. marked b j = v})"
      by (auto simp: less_Suc_eq)
    ultimately show "\<exists>n'. ?f i n = Some n' \<and> ?I (Suc i) n'"
      using inv by (simp add: bitmap_test_marked [OF assms(1)])
  qed simp_all
  moreover have "szt (start + cnt) = start + cnt" using assms(2) small by simp
  ultimately show ?thesis using assms(2) by (simp add: bitmap_count_def)
qed

lemma bitmap_create_in_buf_empty:
  assumes "n < 2 ^ 32 - 32" "length junk = elem_cnt n" "bitmap_buf_size n \<le> sz"
  shows "\<exists>b. bitmap_create_in_buf n junk sz = Some b \<and> bm_ok b \<and> bit_cnt b = n \<and>
    (\<forall>j < n. \<not> marked b j)"
  using bitmap_set_multiple_spec [of "\<lparr>bit_cnt = n, bits = junk\<rparr>" 0 n False] assms
  by (auto simp: bitmap_create_in_buf_def bitmap_set_all_def bitmap_size_def bm_ok_def)

section \<open>Claims\<close>



end
