(* ===== verification/Blocks.thy ===== *)
theory Blocks
  imports Prelude
begin

text \<open>
  Block devices, \<open>devices/block.c\<close>: the registry of devices, the roles assigned to
  them, and sector reads and writes with their bounds check and statistics.  The driver
  behind \<open>ops\<close> and \<open>aux\<close> (an IDE disk or a partition of one) is the field
  \<open>disk\<close>, the sectors that the driver stores: reading returns what was last written, the
  contract of \<open>struct block_operations\<close>.  A \<open>struct block *\<close> is a natural number, with
  0 for the null pointer.
\<close>

section \<open>Data\<close>

definition BLOCK_SECTOR_SIZE :: nat where
  "BLOCK_SECTOR_SIZE = 512"

datatype block_type =
    BLOCK_KERNEL | BLOCK_FILESYS | BLOCK_SCRATCH | BLOCK_SWAP
  | BLOCK_RAW | BLOCK_FOREIGN

record block =
  bname :: string
  btype :: block_type
  bsize :: u32
  disk :: "u32 \<Rightarrow> byte list"
  read_cnt :: u64
  write_cnt :: u64

record block_registry =
  all_blocks :: "nat list"
  block_at :: "nat \<Rightarrow> block"
  block_by_role :: "block_type \<Rightarrow> nat"

section \<open>Types, roles and the registry\<close>

fun block_type_name :: "block_type \<Rightarrow> string" where
  "block_type_name BLOCK_KERNEL = ''kernel''"
| "block_type_name BLOCK_FILESYS = ''filesys''"
| "block_type_name BLOCK_SCRATCH = ''scratch''"
| "block_type_name BLOCK_SWAP = ''swap''"
| "block_type_name BLOCK_RAW = ''raw''"
| "block_type_name BLOCK_FOREIGN = ''foreign''"

text \<open>The types below \<open>BLOCK_ROLE_CNT\<close>.\<close>

definition is_role :: "block_type \<Rightarrow> bool" where
  "is_role t \<longleftrightarrow> t \<in> {BLOCK_KERNEL, BLOCK_FILESYS, BLOCK_SCRATCH, BLOCK_SWAP}"

definition block_get_role :: "block_registry \<Rightarrow> block_type \<Rightarrow> nat option" where
  "block_get_role g role = do { kassert (is_role role); Some (block_by_role g role) }"

definition block_set_role :: "block_type \<Rightarrow> nat \<Rightarrow> block_registry \<Rightarrow> block_registry option" where
  "block_set_role role b g = do {
     kassert (is_role role);
     Some (g\<lparr>block_by_role := (block_by_role g)(role := b)\<rparr>) }"

definition block_first :: "block_registry \<Rightarrow> nat" where
  "block_first g = (case all_blocks g of [] \<Rightarrow> 0 | b # _ \<Rightarrow> b)"

text \<open>The device after \<open>b\<close> in probe order, null at the end of the list.\<close>

fun elem_after :: "nat \<Rightarrow> nat list \<Rightarrow> nat" where
  "elem_after b [] = 0"
| "elem_after b [x] = 0"
| "elem_after b (x # y # ys) = (if x = b then y else elem_after b (y # ys))"

definition block_next :: "block_registry \<Rightarrow> nat \<Rightarrow> nat" where
  "block_next g b = elem_after b (all_blocks g)"

definition block_get_by_name :: "block_registry \<Rightarrow> string \<Rightarrow> nat" where
  "block_get_by_name g name =
     (case find (\<lambda>b. name = bname (block_at g b)) (all_blocks g) of None \<Rightarrow> 0 | Some b \<Rightarrow> b)"

text \<open>
  Registering a device: the result of \<open>malloc\<close> and the sectors behind the driver are
  parameters; \<open>strlcpy\<close> keeps 15 characters of the name.
\<close>

definition block_register ::
    "nat \<Rightarrow> string \<Rightarrow> block_type \<Rightarrow> u32 \<Rightarrow> (u32 \<Rightarrow> byte list) \<Rightarrow> block_registry
     \<Rightarrow> (nat \<times> block_registry) option" where
  "block_register p name ty sectors driver g = do {
     kassert (p \<noteq> 0);
     Some (p, g\<lparr>all_blocks := all_blocks g @ [p],
                block_at := (block_at g)(p := \<lparr>bname = take 15 name, btype = ty, bsize = sectors,
                  disk = driver, read_cnt = 0, write_cnt = 0\<rparr>)\<rparr>) }"

section \<open>Sector input and output\<close>

definition check_sector :: "block \<Rightarrow> u32 \<Rightarrow> unit option" where
  "check_sector b sector = (if sector \<ge> bsize b then None else Some ())"

definition block_read :: "block \<Rightarrow> u32 \<Rightarrow> (byte list \<times> block) option" where
  "block_read b sector = do {
     check_sector b sector;
     Some (disk b sector, b\<lparr>read_cnt := read_cnt b + 1\<rparr>) }"

definition block_write :: "block \<Rightarrow> u32 \<Rightarrow> byte list \<Rightarrow> block option" where
  "block_write b sector buffer = do {
     check_sector b sector;
     kassert (btype b \<noteq> BLOCK_FOREIGN);
     Some (b\<lparr>disk := (disk b)(sector := buffer), write_cnt := write_cnt b + 1\<rparr>) }"

definition block_size :: "block \<Rightarrow> u32" where
  "block_size b = bsize b"

definition get_fs_device_read_cnt :: "block \<Rightarrow> u64" where
  "get_fs_device_read_cnt b = read_cnt b"

definition get_fs_device_write_cnt :: "block \<Rightarrow> u64" where
  "get_fs_device_write_cnt b = write_cnt b"

section \<open>Properties\<close>

definition dev_ok :: "block \<Rightarrow> bool" where
  "dev_ok b \<longleftrightarrow> btype b \<noteq> BLOCK_FOREIGN \<and> (\<forall>sec. length (disk b sec) = BLOCK_SECTOR_SIZE)"

lemma block_read_ok:
  "sec < bsize b \<Longrightarrow> block_read b sec = Some (disk b sec, b\<lparr>read_cnt := read_cnt b + 1\<rparr>)"
  by (simp add: block_read_def check_sector_def)

lemma block_write_ok:
  "sec < bsize b \<Longrightarrow> btype b \<noteq> BLOCK_FOREIGN \<Longrightarrow>
   block_write b sec d = Some (b\<lparr>disk := (disk b)(sec := d), write_cnt := write_cnt b + 1\<rparr>)"
  by (simp add: block_write_def check_sector_def)

lemma elem_after_split: "distinct (xs @ b # c # ys) \<Longrightarrow> elem_after b (xs @ b # c # ys) = c"
proof (induction xs)
  case Nil
  then show ?case by simp
next
  case (Cons x xs)
  then show ?case by (cases xs) auto
qed

lemma elem_after_last: "distinct (xs @ [b]) \<Longrightarrow> elem_after b (xs @ [b]) = 0"
proof (induction xs)
  case Nil
  then show ?case by simp
next
  case (Cons x xs)
  then show ?case by (cases xs) auto
qed

end
