(* ===== verification/Buffer.thy ===== *)
theory Buffer
  imports Blocks
begin

text \<open>
  The buffer cache, \<open>filesys/buffer.c\<close>: 64 cached sectors kept in least-recently-used
  order, written back on eviction and on \<open>buffer_update_disk\<close>.  Every public operation
  holds \<open>list_revise_lock\<close> for its whole body, so one call is one step of the model.
  The list \<open>open_sectors\<close> is a HOL list, head first; the 512 bytes that an entry's
  \<open>sector_location\<close> points to belong to that entry alone and are kept in it.
\<close>

section \<open>Data\<close>

record sector_cache =
  sector_id :: u32
  block_id :: nat
  sector_location :: "byte list"
  valid :: bool
  dirty :: bool

record bufstate =
  devs :: "nat \<Rightarrow> block"
  open_sectors :: "sector_cache list"
  num_access :: u32
  num_hits :: u32

section \<open>Initialisation\<close>

text \<open>
  The state is changed only once both calls of \<open>calloc\<close> have succeeded, apart from the
  emptied list; \<open>mem1\<close> and \<open>mem2\<close> say whether they do.
\<close>

definition buffer_init :: "bool \<Rightarrow> bool \<Rightarrow> bufstate \<Rightarrow> bool \<times> bufstate" where
  "buffer_init mem1 mem2 s =
     (let s = s\<lparr>open_sectors := []\<rparr> in
      if \<not> mem1 then (False, s)
      else if \<not> mem2 then (False, s)
      else
        let zeroed = \<lparr>sector_id = 0, block_id = 0,
                      sector_location = replicate BLOCK_SECTOR_SIZE 0,
                      valid = False, dirty = False\<rparr>;
            l = fold (\<lambda>i l. zeroed\<lparr>valid := False, dirty := False\<rparr> # l) [0..<64::nat] []
        in (True, s\<lparr>open_sectors := l, num_access := 0, num_hits := 0\<rparr>))"

section \<open>The search\<close>

text \<open>
  The loop shared by \<open>buffer_read\<close> and \<open>buffer_write\<close>: the position where it stops and
  the flag \<open>finished\<close>.  It stops at a match, at the first invalid entry, or at the end.
\<close>

fun scan_sectors :: "nat \<Rightarrow> u32 \<Rightarrow> sector_cache list \<Rightarrow> nat \<times> bool" where
  "scan_sectors block sector [] = (0, False)"
| "scan_sectors block sector (c # cs) =
     (if valid c then
        if sector_id c = sector \<and> block_id c = block then (0, True)
        else (let (e, finished) = scan_sectors block sector cs in (Suc e, finished))
      else (0, False))"

text \<open>\<open>list_remove\<close> at a position, and the victim of a miss.\<close>

definition remove_at :: "nat \<Rightarrow> 'a list \<Rightarrow> 'a list" where
  "remove_at i xs = take i xs @ drop (Suc i) xs"

definition take_victim :: "nat \<Rightarrow> sector_cache list \<Rightarrow> (sector_cache \<times> sector_cache list) option" where
  "take_victim e xs =
     (if e = length xs then do { kassert (xs \<noteq> []); Some (last xs, butlast xs) }
      else Some (xs ! e, remove_at e xs))"

definition write_back :: "sector_cache \<Rightarrow> (nat \<Rightarrow> block) \<Rightarrow> (nat \<Rightarrow> block) option" where
  "write_back c ds =
     (if dirty c \<and> valid c
      then do { b \<leftarrow> block_write (ds (block_id c)) (sector_id c) (sector_location c);
                Some (ds(block_id c := b)) }
      else Some ds)"

text \<open>The two \<open>memcpy\<close> calls; a copy that leaves the sector is undefined behaviour.\<close>

definition copy_out :: "sector_cache \<Rightarrow> nat \<Rightarrow> nat \<Rightarrow> byte list option" where
  "copy_out c offset n = do {
     kassert (offset + n \<le> length (sector_location c));
     Some (buf_get offset n (sector_location c)) }"

definition copy_in :: "sector_cache \<Rightarrow> nat \<Rightarrow> byte list \<Rightarrow> sector_cache option" where
  "copy_in c offset bs = do {
     kassert (offset + length bs \<le> length (sector_location c));
     Some (c\<lparr>sector_location := buf_put offset bs (sector_location c)\<rparr>) }"

section \<open>Reading and writing\<close>

definition buffer_read ::
    "nat \<Rightarrow> u32 \<Rightarrow> nat \<Rightarrow> nat \<Rightarrow> bufstate \<Rightarrow> (byte list \<times> bufstate) option" where
  "buffer_read block sector offset n s =
     (let s = s\<lparr>num_access := num_access s + 1\<rparr>;
          (e, finished) = scan_sectors block sector (open_sectors s)
      in if finished then do {
           let c = open_sectors s ! e;
           out \<leftarrow> copy_out c offset n;
           Some (out, s\<lparr>open_sectors := c # remove_at e (open_sectors s),
                        num_hits := num_hits s + 1\<rparr>) }
         else do {
           (c, rest) \<leftarrow> take_victim e (open_sectors s);
           ds \<leftarrow> write_back c (devs s);
           (data, b) \<leftarrow> block_read (ds block) sector;
           let c = c\<lparr>sector_location := data, valid := True, dirty := False,
                     block_id := block, sector_id := sector\<rparr>;
           out \<leftarrow> copy_out c offset n;
           Some (out, s\<lparr>devs := ds(block := b), open_sectors := c # rest\<rparr>) })"

definition buffer_write ::
    "nat \<Rightarrow> u32 \<Rightarrow> byte list \<Rightarrow> nat \<Rightarrow> bufstate \<Rightarrow> bufstate option" where
  "buffer_write block sector bs offset s =
     (let s = s\<lparr>num_access := num_access s + 1\<rparr>;
          (e, finished) = scan_sectors block sector (open_sectors s)
      in if finished then do {
           c \<leftarrow> copy_in (open_sectors s ! e) offset bs;
           let c = c\<lparr>valid := True, dirty := True\<rparr>;
           Some (s\<lparr>open_sectors := c # remove_at e (open_sectors s),
                   num_hits := num_hits s + 1\<rparr>) }
         else do {
           (c, rest) \<leftarrow> take_victim e (open_sectors s);
           ds \<leftarrow> write_back c (devs s);
           c \<leftarrow> copy_in c offset bs;
           let c = c\<lparr>valid := True, dirty := True, block_id := block, sector_id := sector\<rparr>;
           Some (s\<lparr>devs := ds, open_sectors := c # rest\<rparr>) })"

section \<open>Flushing and statistics\<close>

fun flush_loop :: "sector_cache list \<Rightarrow> (nat \<Rightarrow> block) \<Rightarrow> (sector_cache list \<times> (nat \<Rightarrow> block)) option" where
  "flush_loop [] ds = Some ([], ds)"
| "flush_loop (c # cs) ds = do {
     (c, ds) \<leftarrow>
       (if valid c \<and> dirty c
        then do { b \<leftarrow> block_write (ds (block_id c)) (sector_id c) (sector_location c);
                  Some (c\<lparr>dirty := False\<rparr>, ds(block_id c := b)) }
        else Some (c, ds));
     (cs, ds) \<leftarrow> flush_loop cs ds;
     Some (c # cs, ds) }"

definition buffer_update_disk :: "bufstate \<Rightarrow> bufstate option" where
  "buffer_update_disk s = do {
     (cs, ds) \<leftarrow> flush_loop (open_sectors s) (devs s);
     Some (s\<lparr>open_sectors := cs, devs := ds\<rparr>) }"

definition buffer_performance :: "bufstate \<Rightarrow> u32 \<times> u32 \<times> bufstate" where
  "buffer_performance s = (num_access s, num_hits s, s\<lparr>num_access := 0, num_hits := 0\<rparr>)"

definition buffer_clean :: "bufstate \<Rightarrow> bufstate option" where
  "buffer_clean s = do {
     s \<leftarrow> buffer_update_disk s;
     Some (s\<lparr>open_sectors := map (\<lambda>c. c\<lparr>valid := False\<rparr>) (open_sectors s),
             num_access := 0, num_hits := 0\<rparr>) }"

section \<open>Abstraction and invariant\<close>

definition key :: "sector_cache \<Rightarrow> nat \<times> u32" where
  "key c = (block_id c, sector_id c)"

text \<open>The cached contents, and the contents of the store seen through the cache.\<close>

definition cached :: "sector_cache list \<Rightarrow> (nat \<times> u32) \<rightharpoonup> byte list" where
  "cached cs = map_of (map (\<lambda>c. (key c, sector_location c)) (filter valid cs))"

definition resident :: "bufstate \<Rightarrow> nat \<Rightarrow> u32 \<Rightarrow> bool" where
  "resident s blk sec \<longleftrightarrow> cached (open_sectors s) (blk, sec) \<noteq> None"

definition view :: "bufstate \<Rightarrow> nat \<Rightarrow> u32 \<Rightarrow> byte list" where
  "view s blk sec = (case cached (open_sectors s) (blk, sec) of
     Some d \<Rightarrow> d | None \<Rightarrow> disk (devs s blk) sec)"

definition sector_ok :: "bufstate \<Rightarrow> nat \<Rightarrow> u32 \<Rightarrow> bool" where
  "sector_ok s blk sec \<longleftrightarrow> dev_ok (devs s blk) \<and> sec < bsize (devs s blk)"

text \<open>No valid entry follows an invalid one: what lets the search stop at the first one.\<close>

definition packed :: "sector_cache list \<Rightarrow> bool" where
  "packed cs \<longleftrightarrow> (\<forall>c \<in> set (dropWhile valid cs). \<not> valid c)"

definition entry_ok :: "bufstate \<Rightarrow> sector_cache \<Rightarrow> bool" where
  "entry_ok s c \<longleftrightarrow> length (sector_location c) = BLOCK_SECTOR_SIZE \<and>
     (valid c \<longrightarrow> sector_ok s (block_id c) (sector_id c) \<and>
        (dirty c \<or> sector_location c = disk (devs s (block_id c)) (sector_id c)))"

definition buf_ok :: "bufstate \<Rightarrow> bool" where
  "buf_ok s \<longleftrightarrow> length (open_sectors s) = 64 \<and> packed (open_sectors s) \<and>
     distinct (map key (filter valid (open_sectors s))) \<and>
     (\<forall>c \<in> set (open_sectors s). entry_ok s c)"

text \<open>Two states with the same devices up to their contents and counters.\<close>

definition same_devs :: "bufstate \<Rightarrow> bufstate \<Rightarrow> bool" where
  "same_devs s s' \<longleftrightarrow> (\<forall>blk. bsize (devs s' blk) = bsize (devs s blk) \<and>
     dev_ok (devs s' blk) = dev_ok (devs s blk))"

lemma same_devs_refl [simp]: "same_devs s s"
  by (simp add: same_devs_def)

lemma same_devs_trans: "same_devs s s' \<Longrightarrow> same_devs s' s'' \<Longrightarrow> same_devs s s''"
  by (simp add: same_devs_def)

lemma same_devs_sector_ok: "same_devs s s' \<Longrightarrow> sector_ok s' = sector_ok s"
  by (simp add: same_devs_def sector_ok_def fun_eq_iff)

lemma cached_Nil [simp]: "cached [] = Map.empty"
  by (simp add: cached_def)

lemma cached_Cons [simp]:
  "cached (c # cs) = (if valid c then (cached cs)(key c \<mapsto> sector_location c) else cached cs)"
  by (simp add: cached_def)

lemma cached_append [simp]: "cached (xs @ ys) = cached ys ++ cached xs"
  by (simp add: cached_def)

lemma dom_cached: "dom (cached cs) = key ` set (filter valid cs)"
  by (simp add: cached_def dom_map_of_conv_image_fst image_image)

lemma cached_None: "cached cs k = None \<longleftrightarrow> k \<notin> key ` set (filter valid cs)"
  unfolding dom_cached [symmetric] by (simp add: domIff)

lemma cached_invalid [simp]: "\<forall>c \<in> set cs. \<not> valid c \<Longrightarrow> cached cs = Map.empty"
  by (simp add: cached_def filter_empty_conv)

lemma cached_member:
  "distinct (map key (filter valid cs)) \<Longrightarrow> c \<in> set cs \<Longrightarrow> valid c \<Longrightarrow>
   cached cs (key c) = Some (sector_location c)"
  by (auto simp: cached_def comp_def intro!: map_of_is_SomeI)

lemma cached_move_front:
  "valid c \<Longrightarrow> key c \<notin> key ` set (filter valid xs) \<Longrightarrow>
   cached (xs @ c # ys) = (cached (xs @ ys))(key c \<mapsto> sector_location c)"
  using dom_cached [of xs] by (simp add: map_add_upd_left)

lemma packed_Cons [simp]:
  "packed (c # cs) \<longleftrightarrow> (if valid c then packed cs else \<forall>x \<in> set cs. \<not> valid x)"
  by (simp add: packed_def)

lemma packed_append [simp]: "\<forall>x \<in> set xs. valid x \<Longrightarrow> packed (xs @ ys) \<longleftrightarrow> packed ys"
  by (simp add: packed_def dropWhile_append2)

lemma packed_valid: "\<forall>x \<in> set xs. valid x \<Longrightarrow> packed xs"
  using packed_append [of xs "[]"] by (simp add: packed_def)

lemma packed_invalid: "\<forall>x \<in> set xs. \<not> valid x \<Longrightarrow> packed xs"
  by (auto simp: packed_def dest: set_dropWhileD)

lemma remove_at_split [simp]: "remove_at (length xs) (xs @ c # ys) = xs @ ys"
  by (simp add: remove_at_def)

section \<open>What the search finds\<close>

lemma scan_sectors_cases:
  obtains (hit) xs c ys where "cs = xs @ c # ys" "scan_sectors blk sec cs = (length xs, True)"
      "valid c" "key c = (blk, sec)" "\<forall>x \<in> set xs. valid x \<and> key x \<noteq> (blk, sec)"
    | (free) xs c ys where "cs = xs @ c # ys" "scan_sectors blk sec cs = (length xs, False)"
      "\<not> valid c" "\<forall>x \<in> set xs. valid x \<and> key x \<noteq> (blk, sec)"
    | (full) "scan_sectors blk sec cs = (length cs, False)"
      "\<forall>x \<in> set cs. valid x \<and> key x \<noteq> (blk, sec)"
proof (induction cs arbitrary: thesis)
  case Nil
  then show ?case by simp
next
  case (Cons a cs)
  show ?case
  proof (cases "valid a \<and> key a \<noteq> (blk, sec)")
    case False
    then show ?thesis
      using Cons.prems(1) [of "[]" a cs] Cons.prems(2) [of "[]" a cs] by (auto simp: key_def)
  next
    case True
    then have scan: "scan_sectors blk sec (a # cs) =
        (let (e, f) = scan_sectors blk sec cs in (Suc e, f))"
      by (auto simp: key_def)
    show ?thesis
    proof (rule Cons.IH)
      fix xs c ys
      assume "cs = xs @ c # ys" "scan_sectors blk sec cs = (length xs, True)"
        "valid c" "key c = (blk, sec)" "\<forall>x \<in> set xs. valid x \<and> key x \<noteq> (blk, sec)"
      then show ?thesis using scan True by (intro Cons.prems(1) [of "a # xs" c ys]) auto
    next
      fix xs c ys
      assume "cs = xs @ c # ys" "scan_sectors blk sec cs = (length xs, False)"
        "\<not> valid c" "\<forall>x \<in> set xs. valid x \<and> key x \<noteq> (blk, sec)"
      then show ?thesis using scan True by (intro Cons.prems(2) [of "a # xs" c ys]) auto
    next
      assume "scan_sectors blk sec cs = (length cs, False)"
        "\<forall>x \<in> set cs. valid x \<and> key x \<noteq> (blk, sec)"
      then show ?thesis using scan True by (intro Cons.prems(3)) auto
    qed
  qed
qed

text \<open>A hit moves an entry to the front and changes nothing else.\<close>

lemma scan_hit:
  assumes ok: "buf_ok s" and scan: "scan_sectors blk sec (open_sectors s) = (e, True)"
  obtains xs c ys where "open_sectors s = xs @ c # ys" "e = length xs" "valid c"
    "key c = (blk, sec)" "packed (c # xs @ ys)" "distinct (map key (filter valid (c # xs @ ys)))"
    "cached (open_sectors s) = cached (c # xs @ ys)"
proof (cases rule: scan_sectors_cases [of "open_sectors s" blk sec])
  case (hit xs c ys)
  have "key c \<notin> key ` set (filter valid xs)" using hit by auto
  then have "cached (open_sectors s) = cached (c # xs @ ys)"
    using cached_move_front [OF hit(3), of xs ys] hit(1,3) by simp
  moreover have "packed (c # xs @ ys)" "distinct (map key (filter valid (c # xs @ ys)))"
    using ok hit by (auto simp: buf_ok_def)
  moreover have "e = length xs" using hit(2) scan by simp
  ultimately show ?thesis by (intro that [of xs c ys] hit(1,3,4))
qed (use scan in auto)

text \<open>A miss takes an invalid entry, or the last one when all are valid.\<close>

lemma scan_miss:
  assumes ok: "buf_ok s" and scan: "scan_sectors blk sec (open_sectors s) = (e, False)"
  obtains c rest where "take_victim e (open_sectors s) = Some (c, rest)" "length rest = 63"
    "packed rest" "distinct (map key (filter valid (c # rest)))"
    "set (open_sectors s) = insert c (set rest)"
    "cached (open_sectors s) = cached (c # rest)" "cached (open_sectors s) (blk, sec) = None"
    "\<forall>i < 63. valid (open_sectors s ! i) \<longrightarrow> rest ! i = open_sectors s ! i"
proof (cases rule: scan_sectors_cases [of "open_sectors s" blk sec])
  case (free xs c ys)
  have inv: "\<forall>y \<in> set ys. \<not> valid y" using ok free by (simp add: buf_ok_def)
  have "e = length xs" using free(2) scan by simp
  then have "take_victim e (open_sectors s) = Some (c, xs @ ys)"
    unfolding free(1) by (simp add: take_victim_def)
  moreover have "rest_i": "(xs @ ys) ! i = open_sectors s ! i"
    if "valid (open_sectors s ! i)" "i < 63" for i
  proof -
    have "i < length xs"
    proof (rule ccontr)
      assume "\<not> i < length xs"
      then have nth: "(xs @ c # ys) ! i = (c # ys) ! (i - length xs)" by (simp add: nth_append)
      have "(c # ys) ! (i - length xs) \<in> set (c # ys)"
        using ok free that(2) by (intro nth_mem) (auto simp: buf_ok_def)
      with that(1) free(1,3) inv nth show False by auto
    qed
    then show ?thesis using free by (simp add: nth_append)
  qed
  moreover have "(blk, sec) \<notin> key ` set (filter valid xs)" using free(4) by force
  then have "cached xs (blk, sec) = None" by (simp add: cached_None)
  ultimately show ?thesis
    using that [of c "xs @ ys"] ok free inv by (auto simp: buf_ok_def packed_invalid)
next
  case full
  then have ne: "open_sectors s \<noteq> []" using ok by (auto simp: buf_ok_def)
  let ?c = "last (open_sectors s)" and ?r = "butlast (open_sectors s)"
  have split: "open_sectors s = ?r @ [?c]" using ne by simp
  have dist: "distinct (map key (filter valid (?r @ [?c])))" using ok split by (simp add: buf_ok_def)
  have vc: "valid ?c" using full ne by simp
  have "key ?c \<notin> key ` set (filter valid ?r)" using dist vc by auto
  then have "cached (?r @ [?c]) = cached (?c # ?r)"
    using cached_move_front [OF vc, of ?r "[]"] vc by simp
  moreover have "(blk, sec) \<notin> key ` set (filter valid (open_sectors s))" using full(2) by force
  moreover have "set (open_sectors s) = insert ?c (set ?r)" using split by (metis set_append list.set sup_commute insert_is_Un)
  moreover have "packed ?r" using full by (auto intro: packed_valid dest: in_set_butlastD)
  moreover have "distinct (map key (filter valid (?c # ?r)))" using dist vc by auto
  ultimately show ?thesis
    using that [of ?c ?r] ok full scan ne split
    by (auto simp: take_victim_def cached_None nth_butlast buf_ok_def)
next
  case (hit xs c ys)
  with scan show ?thesis by simp
qed

lemma write_back_ok:
  assumes "entry_ok s c"
  obtains ds where "write_back c (devs s) = Some ds" "same_devs s (s\<lparr>devs := ds\<rparr>)"
    "\<And>b x. disk (ds b) x =
       (if dirty c \<and> valid c \<and> (b, x) = key c then sector_location c else disk (devs s b) x)"
proof (cases "dirty c \<and> valid c")
  case True
  then show ?thesis
    using assms that
    by (auto simp: write_back_def entry_ok_def sector_ok_def dev_ok_def block_write_ok
        same_devs_def key_def)
next
  case False
  then show ?thesis using that [of "devs s"] by (auto simp: write_back_def)
qed

section \<open>One access\<close>

text \<open>The position of a sector in the list, most recently used first.\<close>

definition at_rank :: "bufstate \<Rightarrow> nat \<times> u32 \<Rightarrow> nat \<Rightarrow> bool" where
  "at_rank s k i \<longleftrightarrow> i < length (open_sectors s) \<and> valid (open_sectors s ! i) \<and>
     key (open_sectors s ! i) = k"

text \<open>An access lets every other sector sink by at most one position.\<close>

definition sinks :: "bufstate \<Rightarrow> bufstate \<Rightarrow> bool" where
  "sinks s s' \<longleftrightarrow> (\<forall>k i. i < 63 \<longrightarrow> at_rank s k i \<longrightarrow> (\<exists>j \<le> Suc i. at_rank s' k j))"

text \<open>No sector leaves the cache.\<close>

definition keeps :: "bufstate \<Rightarrow> bufstate \<Rightarrow> bool" where
  "keeps s s' \<longleftrightarrow> (\<forall>b x. resident s b x \<longrightarrow> resident s' b x)"

lemma resident_at_rank: "resident s blk sec \<longleftrightarrow> (\<exists>i. at_rank s (blk, sec) i)"
  by (auto simp: resident_def at_rank_def cached_None image_iff in_set_conv_nth)

text \<open>The update of a state's contents at one sector.\<close>

definition upd :: "(nat \<Rightarrow> u32 \<Rightarrow> byte list) \<Rightarrow> nat \<Rightarrow> u32 \<Rightarrow> byte list \<Rightarrow> nat \<Rightarrow> u32 \<Rightarrow> byte list" where
  "upd v blk sec d = v(blk := (v blk)(sec := d))"

lemma upd_apply: "upd v blk sec d b x = (if (b, x) = (blk, sec) then d else v b x)"
  by (simp add: upd_def)

lemma upd_same [simp]: "upd v blk sec (v blk sec) = v"
  by (auto simp: upd_apply fun_eq_iff)

text \<open>A hit: the entry found comes to the front, possibly with new contents.\<close>

lemma install_hit:
  assumes ok: "buf_ok s" and split: "open_sectors s = xs @ c # ys"
    and c: "valid c" "key c = (blk, sec)" "packed (c # xs @ ys)"
      "distinct (map key (filter valid (c # xs @ ys)))"
      "cached (open_sectors s) = cached (c # xs @ ys)"
    and c': "valid c'" "key c' = key c" "entry_ok s c'"
    and s': "devs s' = devs s" "open_sectors s' = c' # xs @ ys"
  shows "buf_ok s' \<and> view s' = upd (view s) blk sec (sector_location c') \<and>
    at_rank s' (blk, sec) 0 \<and> sinks s s' \<and> keeps s s'"
proof -
  have eo: "entry_ok s' = entry_ok s" using s' by (simp add: entry_ok_def sector_ok_def fun_eq_iff)
  have "buf_ok s'" using ok split c c' s' eo by (auto simp: buf_ok_def)
  moreover have "view s' = upd (view s) blk sec (sector_location c')"
    using c(1,2,5) c'(1,2) s' by (auto simp: view_def upd_apply fun_eq_iff split: option.splits)
  moreover have "at_rank s' (blk, sec) 0" using c(2) c'(1,2) s' by (simp add: at_rank_def)
  moreover have "\<exists>j \<le> Suc i. at_rank s' k j" if "at_rank s k i" for k i
  proof -
    consider "i < length xs" | "i = length xs" | "length xs < i" by linarith
    then show ?thesis
    proof cases
      case 1
      then show ?thesis using that split s' by (auto simp: at_rank_def nth_append intro!: exI [of _ "Suc i"])
    next
      case 2
      then show ?thesis using that split s' c' by (auto simp: at_rank_def intro!: exI [of _ 0])
    next
      case 3
      then obtain m where "i = Suc (length xs + m)" using less_iff_Suc_add by blast
      then show ?thesis using that split s'
        by (auto simp: at_rank_def nth_append intro!: exI [of _ "Suc (length xs + m)"])
    qed
  qed
  moreover have "keeps s s'"
    using c(1,2,5) c'(1,2) s' by (auto simp: keeps_def resident_def split: if_splits)
  ultimately show ?thesis by (simp add: sinks_def)
qed

text \<open>A miss: the victim is written back and a new entry put in front of the others.\<close>

lemma install_miss:
  assumes ok: "buf_ok s" and sok: "sector_ok s blk sec"
    and v: "length rest = 63" "packed rest" "distinct (map key (filter valid (c # rest)))"
      "set (open_sectors s) = insert c (set rest)"
      "cached (open_sectors s) = cached (c # rest)" "cached (open_sectors s) (blk, sec) = None"
      "\<forall>i < 63. valid (open_sectors s ! i) \<longrightarrow> rest ! i = open_sectors s ! i"
    and wb: "\<And>b x. disk (ds b) x =
       (if dirty c \<and> valid c \<and> (b, x) = key c then sector_location c else disk (devs s b) x)"
    and sd: "same_devs s s'" and s': "open_sectors s' = c' # rest" "\<And>b. disk (devs s' b) = disk (ds b)"
    and c': "valid c'" "key c' = (blk, sec)" "length (sector_location c') = BLOCK_SECTOR_SIZE"
      "dirty c' \<or> sector_location c' = disk (ds blk) sec"
  shows "buf_ok s' \<and> view s' = upd (view s) blk sec (sector_location c') \<and>
    at_rank s' (blk, sec) 0 \<and> sinks s s'"
proof -
  have none: "cached rest (blk, sec) = None" "valid c \<Longrightarrow> key c \<noteq> (blk, sec)"
    using v(5,6) by (auto split: if_splits)
  have other: "key d \<noteq> key c" if "d \<in> set rest" "valid d" "valid c" for d
    using v(3) that by (auto simp: image_iff)
  have "entry_ok s' c'"
    using c' sd sok s'(2) by (auto simp: entry_ok_def key_def same_devs_sector_ok)
  moreover have "entry_ok s' d" if d: "d \<in> set rest" for d
  proof -
    have "entry_ok s d" using ok v(4) d by (auto simp: buf_ok_def)
    then show ?thesis
      using other [OF d] sd s'(2) wb by (auto simp: entry_ok_def same_devs_sector_ok key_def)
  qed
  moreover have "(blk, sec) \<notin> key ` set (filter valid rest)" using none(1) by (simp add: cached_None)
  ultimately have "buf_ok s'" using v(1-3) s'(1) c'(1,2) by (auto simp: buf_ok_def split: if_splits)
  moreover have "view s' b x = upd (view s) blk sec (sector_location c') b x" for b x
  proof (cases "(b, x) = (blk, sec)")
    case True
    then show ?thesis using s'(1) c' by (simp add: view_def upd_apply)
  next
    case False
    have ce: "entry_ok s c" using ok v(4) by (auto simp: buf_ok_def)
    have hid: "valid c \<Longrightarrow> cached rest (key c) = None" using v(3) by (simp add: cached_None image_iff)
    show ?thesis
    proof (cases "valid c \<and> key c = (b, x)")
      case True
      then show ?thesis
        using False hid ce s' c'(1,2) v(5) wb
        by (auto simp: view_def upd_apply entry_ok_def key_def)
    next
      case not_victim: False
      then show ?thesis
        using False s' c'(1,2) v(5) wb by (auto simp: view_def upd_apply split: option.splits)
    qed
  qed
  moreover have "at_rank s' (blk, sec) 0" using s'(1) c'(1,2) by (simp add: at_rank_def)
  moreover have "\<exists>j \<le> Suc i. at_rank s' k j" if "i < 63" "at_rank s k i" for k i
    using that v(1,7) s'(1) by (intro exI [of _ "Suc i"]) (simp add: at_rank_def)
  ultimately show ?thesis by (simp add: fun_eq_iff sinks_def)
qed

text \<open>The bytes that the entry reused by a miss still holds.\<close>

definition stale_bytes :: "bufstate \<Rightarrow> nat \<Rightarrow> u32 \<Rightarrow> byte list" where
  "stale_bytes s blk sec =
     (case take_victim (fst (scan_sectors blk sec (open_sectors s))) (open_sectors s) of
        Some (c, rest) \<Rightarrow> sector_location c | None \<Rightarrow> [])"

lemma view_resident: "cached (open_sectors s) (blk, sec) = Some d \<Longrightarrow> view s blk sec = d"
  by (simp add: view_def)

lemma buffer_read_ok:
  assumes ok: "buf_ok s" and sok: "sector_ok s blk sec" and rng: "ofs + n \<le> BLOCK_SECTOR_SIZE"
  obtains s' where "buffer_read blk sec ofs n s = Some (buf_get ofs n (view s blk sec), s')"
    "buf_ok s'" "same_devs s s'" "view s' = view s" "at_rank s' (blk, sec) 0" "sinks s s'"
    "resident s blk sec \<longrightarrow> keeps s s'"
proof -
  obtain e f where scan: "scan_sectors blk sec (open_sectors s) = (e, f)" by fastforce
  show ?thesis
  proof (cases f)
    case True
    then have hit: "scan_sectors blk sec (open_sectors s) = (e, True)" using scan by simp
    obtain xs c ys where h: "open_sectors s = xs @ c # ys" "e = length xs" "valid c"
      "key c = (blk, sec)" "packed (c # xs @ ys)" "distinct (map key (filter valid (c # xs @ ys)))"
      "cached (open_sectors s) = cached (c # xs @ ys)"
      using scan_hit [OF ok hit] .
    define s' where "s' = s\<lparr>num_access := num_access s + 1, open_sectors := c # xs @ ys,
      num_hits := num_hits s + 1\<rparr>"
    have loc: "view s blk sec = sector_location c"
      by (rule view_resident) (use h in simp)
    have ent: "entry_ok s c" using ok h(1) by (simp add: buf_ok_def)
    then have "buffer_read blk sec ofs n s = Some (buf_get ofs n (view s blk sec), s')"
      using scan True h(1,2) rng loc
      by (simp add: buffer_read_def s'_def copy_out_def entry_ok_def)
    moreover have "buf_ok s' \<and> view s' = upd (view s) blk sec (sector_location c) \<and>
        at_rank s' (blk, sec) 0 \<and> sinks s s' \<and> keeps s s'"
      by (rule install_hit [OF ok h(1,3-7) h(3) refl ent]) (simp_all add: s'_def)
    moreover have "same_devs s s'" by (simp add: s'_def same_devs_def)
    ultimately show ?thesis using that [of s'] by (simp flip: loc)
  next
    case False
    then have miss: "scan_sectors blk sec (open_sectors s) = (e, False)" using scan by simp
    obtain c rest where m: "take_victim e (open_sectors s) = Some (c, rest)"
      "length rest = 63" "packed rest" "distinct (map key (filter valid (c # rest)))"
      "set (open_sectors s) = insert c (set rest)"
      "cached (open_sectors s) = cached (c # rest)" "cached (open_sectors s) (blk, sec) = None"
      "\<forall>i < 63. valid (open_sectors s ! i) \<longrightarrow> rest ! i = open_sectors s ! i"
      using scan_miss [OF ok miss] .
    have ent: "entry_ok s c" using ok m(5) by (simp add: buf_ok_def)
    obtain ds where ds: "write_back c (devs s) = Some ds" "same_devs s (s\<lparr>devs := ds\<rparr>)"
      "\<And>b x. disk (ds b) x =
       (if dirty c \<and> valid c \<and> (b, x) = key c then sector_location c else disk (devs s b) x)"
      using write_back_ok [OF ent] by metis
    define c' where "c' = c\<lparr>sector_location := disk (ds blk) sec, valid := True, dirty := False,
      block_id := blk, sector_id := sec\<rparr>"
    define s' where "s' = s\<lparr>num_access := num_access s + 1,
      devs := ds(blk := (ds blk)\<lparr>read_cnt := read_cnt (ds blk) + 1\<rparr>), open_sectors := c' # rest\<rparr>"
    have "valid c \<Longrightarrow> key c \<noteq> (blk, sec)" using m(6,7) by (auto split: if_splits)
    then have loc: "view s blk sec = disk (ds blk) sec" using ds(3) m(7) by (auto simp: view_def)
    have dok: "dev_ok (ds blk)" "sec < bsize (ds blk)"
      using ds(2) sok by (auto simp: same_devs_def sector_ok_def)
    then have len: "length (disk (ds blk) sec) = BLOCK_SECTOR_SIZE" by (simp add: dev_ok_def)
    have "buffer_read blk sec ofs n s = Some (buf_get ofs n (view s blk sec), s')"
      using scan False m(1) ds(1) rng loc len dok(2)
      by (simp add: buffer_read_def s'_def c'_def copy_out_def block_read_ok)
    moreover have sd: "same_devs s s'"
      using ds(2) by (auto simp: s'_def same_devs_def dev_ok_def)
    moreover have "buf_ok s' \<and> view s' = upd (view s) blk sec (sector_location c') \<and>
        at_rank s' (blk, sec) 0 \<and> sinks s s'"
      by (rule install_miss [OF ok sok m(2-8) ds(3) sd]) (use len in \<open>simp_all add: s'_def c'_def key_def\<close>)
    moreover have "sector_location c' = view s blk sec" using loc by (simp add: c'_def)
    moreover have "\<not> resident s blk sec" using m(7) by (simp add: resident_def)
    ultimately show ?thesis using that [of s'] by simp
  qed
qed

lemma buffer_write_ok:
  assumes ok: "buf_ok s" and sok: "sector_ok s blk sec"
    and rng: "ofs + length bs \<le> BLOCK_SECTOR_SIZE"
  obtains s' where "buffer_write blk sec bs ofs s = Some s'" "buf_ok s'" "same_devs s s'"
    "view s' = upd (view s) blk sec (buf_put ofs bs
       (if resident s blk sec then view s blk sec else stale_bytes s blk sec))"
    "at_rank s' (blk, sec) 0" "sinks s s'" "resident s blk sec \<longrightarrow> keeps s s'"
proof -
  obtain e f where scan: "scan_sectors blk sec (open_sectors s) = (e, f)" by fastforce
  show ?thesis
  proof (cases f)
    case True
    then have hit: "scan_sectors blk sec (open_sectors s) = (e, True)" using scan by simp
    obtain xs c ys where h: "open_sectors s = xs @ c # ys" "e = length xs" "valid c"
      "key c = (blk, sec)" "packed (c # xs @ ys)" "distinct (map key (filter valid (c # xs @ ys)))"
      "cached (open_sectors s) = cached (c # xs @ ys)"
      using scan_hit [OF ok hit] .
    define c' where "c' = c\<lparr>sector_location := buf_put ofs bs (sector_location c),
      valid := True, dirty := True\<rparr>"
    define s' where "s' = s\<lparr>num_access := num_access s + 1, open_sectors := c' # xs @ ys,
      num_hits := num_hits s + 1\<rparr>"
    have loc: "resident s blk sec" "view s blk sec = sector_location c"
      using h by (simp_all add: resident_def view_def)
    have ent: "entry_ok s c" using ok h(1) by (simp add: buf_ok_def)
    then have c': "valid c'" "key c' = key c" "entry_ok s c'"
      using h(3) rng by (auto simp: c'_def key_def entry_ok_def)
    have "buffer_write blk sec bs ofs s = Some s'"
      using scan True h(1,2) rng ent
      by (simp add: buffer_write_def s'_def c'_def copy_in_def entry_ok_def)
    moreover have "buf_ok s' \<and> view s' = upd (view s) blk sec (sector_location c') \<and>
        at_rank s' (blk, sec) 0 \<and> sinks s s' \<and> keeps s s'"
      by (rule install_hit [OF ok h(1,3-7) c']) (simp_all add: s'_def)
    moreover have "same_devs s s'" by (simp add: s'_def same_devs_def)
    moreover have "sector_location c' = buf_put ofs bs (view s blk sec)"
      using loc(2) by (simp add: c'_def)
    ultimately show ?thesis using that [of s'] loc(1) by simp
  next
    case False
    then have miss: "scan_sectors blk sec (open_sectors s) = (e, False)" using scan by simp
    obtain c rest where m: "take_victim e (open_sectors s) = Some (c, rest)"
      "length rest = 63" "packed rest" "distinct (map key (filter valid (c # rest)))"
      "set (open_sectors s) = insert c (set rest)"
      "cached (open_sectors s) = cached (c # rest)" "cached (open_sectors s) (blk, sec) = None"
      "\<forall>i < 63. valid (open_sectors s ! i) \<longrightarrow> rest ! i = open_sectors s ! i"
      using scan_miss [OF ok miss] .
    have ent: "entry_ok s c" using ok m(5) by (simp add: buf_ok_def)
    obtain ds where ds: "write_back c (devs s) = Some ds" "same_devs s (s\<lparr>devs := ds\<rparr>)"
      "\<And>b x. disk (ds b) x =
       (if dirty c \<and> valid c \<and> (b, x) = key c then sector_location c else disk (devs s b) x)"
      using write_back_ok [OF ent] by metis
    define c' where "c' = c\<lparr>sector_location := buf_put ofs bs (sector_location c),
      valid := True, dirty := True, block_id := blk, sector_id := sec\<rparr>"
    define s' where "s' = s\<lparr>num_access := num_access s + 1, devs := ds, open_sectors := c' # rest\<rparr>"
    have loc: "\<not> resident s blk sec" "stale_bytes s blk sec = sector_location c"
      using m(1,7) scan by (simp_all add: resident_def stale_bytes_def)
    have len: "length (sector_location c) = BLOCK_SECTOR_SIZE" using ent by (simp add: entry_ok_def)
    have "buffer_write blk sec bs ofs s = Some s'"
      using scan False m(1) ds(1) rng len
      by (simp add: buffer_write_def s'_def c'_def copy_in_def)
    moreover have sd: "same_devs s s'"
      using ds(2) by (auto simp: s'_def same_devs_def dev_ok_def)
    moreover have "buf_ok s' \<and> view s' = upd (view s) blk sec (sector_location c') \<and>
        at_rank s' (blk, sec) 0 \<and> sinks s s'"
      by (rule install_miss [OF ok sok m(2-8) ds(3) sd])
        (use len rng in \<open>simp_all add: s'_def c'_def key_def\<close>)
    moreover have "sector_location c' = buf_put ofs bs (stale_bytes s blk sec)"
      using loc by (simp add: c'_def)
    ultimately show ?thesis using that [of s'] loc(1) by simp
  qed
qed

section \<open>Flushing\<close>

lemma cached_filter_dirty_None:
  "key c \<notin> key ` set (filter valid cs) \<Longrightarrow> cached (filter dirty cs) (key c) = None"
  by (auto simp: cached_None)

lemma flush_loop_ok:
  assumes "\<forall>c \<in> set cs. valid c \<longrightarrow> dev_ok (ds (block_id c)) \<and> sector_id c < bsize (ds (block_id c))"
    and "\<forall>c \<in> set cs. length (sector_location c) = BLOCK_SECTOR_SIZE"
    and "distinct (map key (filter valid cs))"
  shows "\<exists>ds'. flush_loop cs ds = Some (map (\<lambda>c. if valid c then c\<lparr>dirty := False\<rparr> else c) cs, ds') \<and>
    (\<forall>b. bsize (ds' b) = bsize (ds b) \<and> dev_ok (ds' b) = dev_ok (ds b)) \<and>
    (\<forall>b x. disk (ds' b) x =
       (case cached (filter dirty cs) (b, x) of Some d \<Rightarrow> d | None \<Rightarrow> disk (ds b) x))"
  using assms
proof (induction cs arbitrary: ds)
  case Nil
  then show ?case by simp
next
  case (Cons c cs)
  show ?case
  proof (cases "valid c \<and> dirty c")
    case True
    define b' where "b' = (ds (block_id c))\<lparr>
      disk := (disk (ds (block_id c)))(sector_id c := sector_location c),
      write_cnt := write_cnt (ds (block_id c)) + 1\<rparr>"
    let ?ds = "ds(block_id c := b')"
    have bw: "block_write (ds (block_id c)) (sector_id c) (sector_location c) = Some b'"
      using Cons.prems(1) True by (simp add: block_write_ok dev_ok_def b'_def)
    have dev: "bsize (?ds b) = bsize (ds b)" "dev_ok (?ds b) = dev_ok (ds b)" for b
      using Cons.prems(1,2) True by (auto simp: b'_def dev_ok_def)
    have dsk: "disk (?ds b) x = (if (b, x) = key c then sector_location c else disk (ds b) x)" for b x
      by (simp add: b'_def key_def)
    have prems: "\<forall>c \<in> set cs. valid c \<longrightarrow> dev_ok (?ds (block_id c)) \<and> sector_id c < bsize (?ds (block_id c))"
      "\<forall>c \<in> set cs. length (sector_location c) = BLOCK_SECTOR_SIZE" "distinct (map key (filter valid cs))"
      using Cons.prems dev by (simp_all del: fun_upd_apply split: if_splits)
    obtain ds' where ds': "flush_loop cs ?ds =
        Some (map (\<lambda>c. if valid c then c\<lparr>dirty := False\<rparr> else c) cs, ds')"
      "\<forall>b. bsize (ds' b) = bsize (?ds b) \<and> dev_ok (ds' b) = dev_ok (?ds b)"
      "\<forall>b x. disk (ds' b) x =
         (case cached (filter dirty cs) (b, x) of Some d \<Rightarrow> d | None \<Rightarrow> disk (?ds b) x)"
      using Cons.IH [of ?ds] prems by blast
    have "key c \<notin> key ` set (filter valid cs)" using Cons.prems(3) True by auto
    then have "cached (filter dirty cs) (key c) = None" by (rule cached_filter_dirty_None)
    then have "\<forall>b x. disk (ds' b) x = (case cached (filter dirty (c # cs)) (b, x) of
        Some d \<Rightarrow> d | None \<Rightarrow> disk (ds b) x)"
      using ds'(3) dsk True by (auto split: option.splits)
    moreover have "flush_loop (c # cs) ds =
        Some (map (\<lambda>c. if valid c then c\<lparr>dirty := False\<rparr> else c) (c # cs), ds')"
      using ds'(1) bw True by simp
    moreover have "\<forall>b. bsize (ds' b) = bsize (ds b) \<and> dev_ok (ds' b) = dev_ok (ds b)"
      using ds'(2) dev by metis
    ultimately show ?thesis by blast
  next
    case False
    then have "(if valid c then c\<lparr>dirty := False\<rparr> else c) = c" by (cases c) auto
    with False Cons show ?thesis by force
  qed
qed

lemma cached_map_clean:
  "cached (map (\<lambda>c. if valid c then c\<lparr>dirty := False\<rparr> else c) cs) = cached cs"
  by (induction cs) (auto simp: key_def)

lemma filter_map_clean:
  "map key (filter valid (map (\<lambda>c. if valid c then c\<lparr>dirty := False\<rparr> else c) cs)) =
   map key (filter valid cs)"
  by (induction cs) (auto simp: key_def)

lemma packed_map: "(\<And>c. valid (f c) = valid c) \<Longrightarrow> packed (map f cs) = packed cs"
  by (induction cs) (simp_all add: packed_def [of "[]"])

lemma packed_map_clean:
  "packed (map (\<lambda>c. if valid c then c\<lparr>dirty := False\<rparr> else c) cs) = packed cs"
  by (rule packed_map) simp

text \<open>What is cached and clean is on the disk, what is cached and dirty will be.\<close>

lemma flushed_disk:
  assumes "buf_ok s"
  shows "(case cached (filter dirty (open_sectors s)) (b, x) of
     Some d \<Rightarrow> d | None \<Rightarrow> disk (devs s b) x) = view s b x"
proof -
  let ?cs = "open_sectors s"
  have dist: "distinct (map key (filter valid ?cs))" using assms by (simp add: buf_ok_def)
  have dist': "distinct (map key (filter valid (filter dirty ?cs)))"
    using distinct_map_filter [OF dist, of dirty] by (simp add: filter_filter conj_commute)
  show ?thesis
  proof (cases "cached ?cs (b, x)")
    case None
    then have "cached (filter dirty ?cs) (b, x) = None" by (auto simp: cached_None)
    with None show ?thesis by (simp add: view_def)
  next
    case (Some d)
    then obtain c where c: "c \<in> set ?cs" "valid c" "key c = (b, x)"
      using cached_None [of ?cs "(b, x)"] by auto
    have d: "d = sector_location c" using cached_member [OF dist c(1,2)] c(3) Some by simp
    have ent: "entry_ok s c" using assms c(1) by (simp add: buf_ok_def)
    show ?thesis
    proof (cases "dirty c")
      case True
      then show ?thesis
        using cached_member [OF dist', of c] c d Some by (simp add: view_def)
    next
      case False
      have "cached (filter dirty ?cs) (b, x) = None"
      proof (rule ccontr)
        assume "\<not> ?thesis"
        then obtain c' where "c' \<in> set ?cs" "dirty c'" "valid c'" "key c' = (b, x)"
          using cached_None [of "filter dirty ?cs" "(b, x)"] by auto
        with dist c False show False by (auto simp: distinct_map inj_on_def)
      qed
      with ent False c d Some show ?thesis by (auto simp: entry_ok_def view_def key_def)
    qed
  qed
qed

lemma buffer_update_disk_ok:
  assumes ok: "buf_ok s"
  obtains s' where "buffer_update_disk s = Some s'" "buf_ok s'" "same_devs s s'" "view s' = view s"
    "\<And>b x. disk (devs s' b) x = view s b x" "\<forall>c \<in> set (open_sectors s'). valid c \<longrightarrow> \<not> dirty c"
proof -
  let ?cl = "\<lambda>c. if valid c then c\<lparr>dirty := False\<rparr> else c"
  let ?cs = "open_sectors s"
  obtain ds' where fl: "flush_loop ?cs (devs s) = Some (map ?cl ?cs, ds')"
    and sd: "\<forall>b. bsize (ds' b) = bsize (devs s b) \<and> dev_ok (ds' b) = dev_ok (devs s b)"
    and dk: "\<forall>b x. disk (ds' b) x =
       (case cached (filter dirty ?cs) (b, x) of Some d \<Rightarrow> d | None \<Rightarrow> disk (devs s b) x)"
    using flush_loop_ok [of ?cs "devs s"] ok by (auto simp: buf_ok_def entry_ok_def sector_ok_def)
  define s' where "s' = s\<lparr>open_sectors := map ?cl ?cs, devs := ds'\<rparr>"
  have disk: "disk (devs s' b) x = view s b x" for b x
    using dk flushed_disk [OF ok] by (simp add: s'_def)
  have vw: "view s' = view s"
    using disk by (auto simp: fun_eq_iff view_def s'_def cached_map_clean split: option.splits)
  have "entry_ok s' (?cl c)" if "c \<in> set ?cs" for c
  proof -
    have "entry_ok s c" using ok that by (simp add: buf_ok_def)
    moreover have "valid c \<Longrightarrow> view s (block_id c) (sector_id c) = sector_location c"
      using cached_member [of ?cs c] ok that by (simp add: view_def buf_ok_def key_def)
    ultimately show ?thesis
      using disk sd by (auto simp: entry_ok_def sector_ok_def s'_def)
  qed
  then have "\<forall>c \<in> set (map ?cl ?cs). entry_ok s' c" unfolding set_map by blast
  moreover have os: "open_sectors s' = map ?cl ?cs" by (simp add: s'_def)
  ultimately have "buf_ok s'"
    using ok by (simp only: buf_ok_def os filter_map_clean packed_map_clean length_map simp_thms)
  moreover have "buffer_update_disk s = Some s'" using fl by (simp add: buffer_update_disk_def s'_def)
  moreover have "same_devs s s'" using sd by (simp add: same_devs_def s'_def)
  moreover have "\<forall>c \<in> set (open_sectors s'). valid c \<longrightarrow> \<not> dirty c" by (auto simp: s'_def)
  ultimately show ?thesis using that [of s'] vw disk by blast
qed

lemma buffer_clean_ok:
  assumes ok: "buf_ok s"
  obtains s' where "buffer_clean s = Some s'" "buf_ok s'" "same_devs s s'" "view s' = view s"
    "\<And>b x. \<not> resident s' b x"
proof -
  obtain t where t: "buffer_update_disk s = Some t" "buf_ok t" "same_devs s t" "view t = view s"
    "\<And>b x. disk (devs t b) x = view s b x"
    using buffer_update_disk_ok [OF ok] by metis
  define s' where "s' = t\<lparr>open_sectors := map (\<lambda>c. c\<lparr>valid := False\<rparr>) (open_sectors t),
    num_access := 0, num_hits := 0\<rparr>"
  have inv: "\<forall>c \<in> set (open_sectors s'). \<not> valid c" by (auto simp: s'_def)
  then have emp: "cached (open_sectors s') = Map.empty" by simp
  have "filter valid (open_sectors s') = []" using inv by (simp add: filter_empty_conv)
  moreover have "\<forall>c \<in> set (open_sectors s'). length (sector_location c) = BLOCK_SECTOR_SIZE"
    using t(2) by (auto simp: s'_def buf_ok_def entry_ok_def)
  moreover have "length (open_sectors s') = 64" using t(2) by (simp add: s'_def buf_ok_def)
  ultimately have "buf_ok s'"
    using inv by (simp add: buf_ok_def packed_invalid entry_ok_def)
  moreover have "view s' = view s" using emp t(5) by (simp add: view_def fun_eq_iff s'_def)
  moreover have "same_devs s s'" using t(3) by (simp add: same_devs_def s'_def)
  ultimately show ?thesis
    using that [of s'] t(1) emp by (simp add: buffer_clean_def s'_def resident_def)
qed

lemma buffer_init_ok:
  obtains s' where "buffer_init True True s = (True, s')" "buf_ok s'" "devs s' = devs s"
    "\<And>b x. view s' b x = disk (devs s b) x"
proof -
  define z where "z = \<lparr>sector_id = 0, block_id = 0,
      sector_location = replicate BLOCK_SECTOR_SIZE 0, valid = False, dirty = False\<rparr>"
  define s' where "s' = s\<lparr>open_sectors := replicate 64 z, num_access := 0, num_hits := 0\<rparr>"
  have f: "fold (\<lambda>i l. z # l) [0..<n] [] = replicate n z" for n :: nat
    by (induction n) (simp_all add: fold_append replicate_append_same [symmetric])
  have z: "z\<lparr>valid := False, dirty := False\<rparr> = z" by (simp add: z_def)
  have "buffer_init True True s = (True, s')"
    using f [of 64] z by (simp add: buffer_init_def s'_def z_def Let_def del: upt_rec_numeral)
  moreover have "\<forall>c \<in> set (open_sectors s'). \<not> valid c" by (simp add: s'_def z_def)
  ultimately show ?thesis
    using that [of s']
    by (simp add: buf_ok_def s'_def packed_invalid entry_ok_def z_def view_def filter_empty_conv)
qed

section \<open>The interface the file system relies on\<close>

text \<open>
  A store of sectors: what a read returns, what a write changes, and when a write that
  covers a part of a sector keeps the rest of it.  \<open>hot\<close> is the set of sectors for which
  it does, and an access to a hot sector leaves the others hot; \<open>addr_ok\<close> the addressable
  sectors.
\<close>

locale sector_store =
  fixes ok :: "'s \<Rightarrow> bool"
    and addr_ok :: "'s \<Rightarrow> nat \<Rightarrow> u32 \<Rightarrow> bool"
    and contents :: "'s \<Rightarrow> nat \<Rightarrow> u32 \<Rightarrow> byte list"
    and hot :: "'s \<Rightarrow> nat \<Rightarrow> u32 \<Rightarrow> bool"
    and rd :: "nat \<Rightarrow> u32 \<Rightarrow> nat \<Rightarrow> nat \<Rightarrow> 's \<Rightarrow> (byte list \<times> 's) option"
    and wr :: "nat \<Rightarrow> u32 \<Rightarrow> byte list \<Rightarrow> nat \<Rightarrow> 's \<Rightarrow> 's option"
  assumes rd_law: "ok s \<Longrightarrow> addr_ok s b x \<Longrightarrow> ofs + n \<le> BLOCK_SECTOR_SIZE \<Longrightarrow>
      \<exists>s'. rd b x ofs n s = Some (buf_get ofs n (contents s b x), s') \<and> ok s' \<and>
        contents s' = contents s \<and> addr_ok s' = addr_ok s \<and> hot s' b x \<and>
        (hot s b x \<longrightarrow> (\<forall>b' x'. hot s b' x' \<longrightarrow> hot s' b' x'))"
    and wr_law: "ok s \<Longrightarrow> addr_ok s b x \<Longrightarrow> ofs + length bs \<le> BLOCK_SECTOR_SIZE \<Longrightarrow>
      \<exists>s' d. wr b x bs ofs s = Some s' \<and> ok s' \<and> addr_ok s' = addr_ok s \<and> hot s' b x \<and>
        (hot s b x \<longrightarrow> (\<forall>b' x'. hot s b' x' \<longrightarrow> hot s' b' x')) \<and>
        length d = BLOCK_SECTOR_SIZE \<and> (hot s b x \<longrightarrow> d = contents s b x) \<and>
        contents s' = upd (contents s) b x (buf_put ofs bs d)"
    and length_contents: "ok s \<Longrightarrow> addr_ok s b x \<Longrightarrow> length (contents s b x) = BLOCK_SECTOR_SIZE"
begin

lemma rd_full:
  assumes "ok s" "addr_ok s b x"
  obtains s' where "rd b x 0 BLOCK_SECTOR_SIZE s = Some (contents s b x, s')" "ok s'"
    "contents s' = contents s" "addr_ok s' = addr_ok s" "hot s' b x"
  using rd_law [OF assms, of 0 BLOCK_SECTOR_SIZE] length_contents [OF assms]
  by (auto simp: buf_get_full)

text \<open>A write of a whole sector needs no earlier access to it.\<close>

lemma wr_full:
  assumes "ok s" "addr_ok s b x" "length bs = BLOCK_SECTOR_SIZE"
  obtains s' where "wr b x bs 0 s = Some s'" "ok s'" "addr_ok s' = addr_ok s" "hot s' b x"
    "contents s' = upd (contents s) b x bs"
  using wr_law [OF assms(1,2), of 0 bs] assms(3) by (auto simp: buf_put_full)

lemma wr_hot:
  assumes "ok s" "addr_ok s b x" "ofs + length bs \<le> BLOCK_SECTOR_SIZE" "hot s b x"
  obtains s' where "wr b x bs ofs s = Some s'" "ok s'" "addr_ok s' = addr_ok s" "hot s' b x"
    "contents s' = upd (contents s) b x (buf_put ofs bs (contents s b x))"
  using wr_law [OF assms(1-3)] assms(4) by auto

text \<open>What has just been written is what is read, whatever was there before.\<close>

lemma wr_rd:
  assumes "ok s" "addr_ok s b x" "ofs + length bs \<le> BLOCK_SECTOR_SIZE"
  obtains s' s'' where "wr b x bs ofs s = Some s'" "rd b x ofs (length bs) s' = Some (bs, s'')"
    "ok s''"
proof -
  obtain s' d where w: "wr b x bs ofs s = Some s'" "ok s'" "addr_ok s' = addr_ok s"
    "length d = BLOCK_SECTOR_SIZE" "contents s' = upd (contents s) b x (buf_put ofs bs d)"
    using wr_law [OF assms] by blast
  then obtain s'' where "rd b x ofs (length bs) s' =
      Some (buf_get ofs (length bs) (contents s' b x), s'')" "ok s''"
    using rd_law [of s' b x ofs "length bs"] assms by auto
  with w assms(3) that show ?thesis by (simp add: upd_apply)
qed

text \<open>A read-modify-write of a part of a sector changes that part only.\<close>

lemma rd_wr_frame:
  assumes "ok s" "addr_ok s b x" "ofs + length bs \<le> BLOCK_SECTOR_SIZE" "o' + n' \<le> BLOCK_SECTOR_SIZE"
  obtains s' s'' out where "rd b x o' n' s = Some (out, s')" "wr b x bs ofs s' = Some s''" "ok s''"
    "contents s'' = upd (contents s) b x (buf_put ofs bs (contents s b x))"
proof -
  obtain s' where r: "rd b x o' n' s = Some (buf_get o' n' (contents s b x), s')" "ok s'"
    "contents s' = contents s" "addr_ok s' = addr_ok s" "hot s' b x"
    using rd_law [OF assms(1,2,4)] by blast
  with assms(2,3) obtain s'' where "wr b x bs ofs s' = Some s''" "ok s''"
    "contents s'' = upd (contents s') b x (buf_put ofs bs (contents s' b x))"
    using wr_hot [of s' b x ofs bs] by auto
  with r that show ?thesis by simp
qed

end

text \<open>
  On the addressable sectors of good devices the buffer cache is such a store, with the
  cached sectors as the hot ones.
\<close>

lemma at_rank_resident: "at_rank s (blk, sec) i \<Longrightarrow> resident s blk sec"
  using resident_at_rank by blast

lemma view_length:
  assumes "buf_ok s" "sector_ok s blk sec"
  shows "length (view s blk sec) = BLOCK_SECTOR_SIZE"
proof (cases "cached (open_sectors s) (blk, sec)")
  case None
  then show ?thesis using assms(2) by (simp add: view_def sector_ok_def dev_ok_def)
next
  case (Some d)
  then have "(blk, sec) \<in> key ` set (filter valid (open_sectors s))"
    using cached_None [of "open_sectors s" "(blk, sec)"] by auto
  then obtain c where c: "c \<in> set (open_sectors s)" "valid c" "key c = (blk, sec)" by auto
  then have "cached (open_sectors s) (blk, sec) = Some (sector_location c)"
    using cached_member [of "open_sectors s" c] assms(1) by (simp add: buf_ok_def)
  with Some c(1) assms(1) show ?thesis by (auto simp: view_def buf_ok_def entry_ok_def)
qed

lemma stale_length:
  assumes ok: "buf_ok s" and nr: "\<not> resident s blk sec"
  shows "length (stale_bytes s blk sec) = BLOCK_SECTOR_SIZE"
proof -
  obtain e f where scan: "scan_sectors blk sec (open_sectors s) = (e, f)" by fastforce
  have "\<not> f"
  proof
    assume f
    with scan have hit: "scan_sectors blk sec (open_sectors s) = (e, True)" by simp
    obtain xs c ys where "valid c" "key c = (blk, sec)"
      "cached (open_sectors s) = cached (c # xs @ ys)"
      using scan_hit [OF ok hit] .
    with nr show False by (simp add: resident_def)
  qed
  with scan have miss: "scan_sectors blk sec (open_sectors s) = (e, False)" by simp
  obtain c rest where "take_victim e (open_sectors s) = Some (c, rest)"
    "set (open_sectors s) = insert c (set rest)"
    using scan_miss [OF ok miss] .
  with miss ok show ?thesis by (simp add: stale_bytes_def buf_ok_def entry_ok_def)
qed

interpretation bc: sector_store buf_ok sector_ok view resident buffer_read buffer_write
proof
  fix s b x ofs n
  assume "buf_ok s" "sector_ok s b x" "ofs + n \<le> BLOCK_SECTOR_SIZE"
  then obtain s' where "buffer_read b x ofs n s = Some (buf_get ofs n (view s b x), s')"
    "buf_ok s'" "same_devs s s'" "view s' = view s" "at_rank s' (b, x) 0"
    "resident s b x \<longrightarrow> keeps s s'"
    using buffer_read_ok by metis
  then show "\<exists>s'. buffer_read b x ofs n s = Some (buf_get ofs n (view s b x), s') \<and> buf_ok s' \<and>
      view s' = view s \<and> sector_ok s' = sector_ok s \<and> resident s' b x \<and>
      (resident s b x \<longrightarrow> (\<forall>b' x'. resident s b' x' \<longrightarrow> resident s' b' x'))"
    using same_devs_sector_ok at_rank_resident unfolding keeps_def by blast
next
  fix s b x ofs and bs :: "byte list"
  assume a: "buf_ok s" "sector_ok s b x" "ofs + length bs \<le> BLOCK_SECTOR_SIZE"
  let ?d = "if resident s b x then view s b x else stale_bytes s b x"
  have "length ?d = BLOCK_SECTOR_SIZE" using a view_length stale_length by simp
  moreover obtain s' where "buffer_write b x bs ofs s = Some s'" "buf_ok s'" "same_devs s s'"
    "view s' = upd (view s) b x (buf_put ofs bs ?d)" "at_rank s' (b, x) 0"
    "resident s b x \<longrightarrow> keeps s s'"
    using buffer_write_ok [OF a] by metis
  ultimately show "\<exists>s' d. buffer_write b x bs ofs s = Some s' \<and> buf_ok s' \<and>
      sector_ok s' = sector_ok s \<and> resident s' b x \<and>
      (resident s b x \<longrightarrow> (\<forall>b' x'. resident s b' x' \<longrightarrow> resident s' b' x')) \<and> length d = BLOCK_SECTOR_SIZE \<and>
      (resident s b x \<longrightarrow> d = view s b x) \<and> view s' = upd (view s) b x (buf_put ofs bs d)"
    using same_devs_sector_ok at_rank_resident
    by (intro exI [of _ s'] exI [of _ ?d]) (auto simp: keeps_def)
qed (rule view_length)

section \<open>Sequences of accesses\<close>

datatype access = Rd nat u32 nat nat | Wr nat u32 "byte list" nat

fun access_ok :: "bufstate \<Rightarrow> access \<Rightarrow> bool" where
  "access_ok s (Rd b x ofs n) = (sector_ok s b x \<and> ofs + n \<le> BLOCK_SECTOR_SIZE)"
| "access_ok s (Wr b x bs ofs) = (sector_ok s b x \<and> ofs + length bs \<le> BLOCK_SECTOR_SIZE)"

fun do_access :: "access \<Rightarrow> bufstate \<Rightarrow> bufstate option" where
  "do_access (Rd b x ofs n) s = map_option snd (buffer_read b x ofs n s)"
| "do_access (Wr b x bs ofs) s = buffer_write b x bs ofs s"

lemma access_ok_same_devs: "same_devs s s' \<Longrightarrow> access_ok s' a = access_ok s a"
  by (cases a) (simp_all add: same_devs_sector_ok)

lemma do_access_ok:
  assumes "buf_ok s" "access_ok s a"
  obtains s' where "do_access a s = Some s'" "buf_ok s'" "same_devs s s'" "sinks s s'"
proof (cases a)
  case (Rd b x ofs n)
  then obtain s' where "buffer_read b x ofs n s = Some (buf_get ofs n (view s b x), s')"
    "buf_ok s'" "same_devs s s'" "sinks s s'"
    using buffer_read_ok [OF assms(1)] assms(2) by (metis access_ok.simps(1))
  with Rd that show ?thesis by simp
next
  case (Wr b x bs ofs)
  then obtain s' where "buffer_write b x bs ofs s = Some s'" "buf_ok s'" "same_devs s s'" "sinks s s'"
    using buffer_write_ok [OF assms(1)] assms(2) by (metis access_ok.simps(2))
  with Wr that show ?thesis by simp
qed

lemma accesses_sink:
  assumes "buf_ok s" "\<forall>a \<in> set as. access_ok s a" "at_rank s k i" "i + length as \<le> 63"
  shows "\<exists>s' j. mfold do_access as s = Some s' \<and> buf_ok s' \<and> same_devs s s' \<and> at_rank s' k j"
  using assms
proof (induction as arbitrary: s i)
  case Nil
  then show ?case by auto
next
  case (Cons a as)
  obtain s1 where s1: "do_access a s = Some s1" "buf_ok s1" "same_devs s s1" "sinks s s1"
    using do_access_ok [of s a] Cons.prems by (metis list.set_intros(1))
  obtain j where j: "j \<le> Suc i" "at_rank s1 k j"
    using s1(4) [unfolded sinks_def, rule_format, OF _ Cons.prems(3)] Cons.prems(4) by auto
  have acc: "\<forall>a \<in> set as. access_ok s1 a" and len: "j + length as \<le> 63"
    using Cons.prems(2,4) j(1) access_ok_same_devs [OF s1(3)] by simp_all
  have "\<exists>s' j. mfold do_access as s1 = Some s' \<and> buf_ok s' \<and> same_devs s1 s' \<and> at_rank s' k j"
    using Cons.IH [OF s1(2) acc j(2) len] .
  then show ?case using s1(1,3) same_devs_trans by fastforce
qed

lemma buffer_read_hit:
  assumes ok: "buf_ok s" and res: "resident s blk sec" and rng: "ofs + n \<le> BLOCK_SECTOR_SIZE"
  shows "\<exists>s'. buffer_read blk sec ofs n s = Some (buf_get ofs n (view s blk sec), s') \<and>
    devs s' = devs s \<and> num_access s' = num_access s + 1 \<and> num_hits s' = num_hits s + 1"
proof -
  obtain e f where scan: "scan_sectors blk sec (open_sectors s) = (e, f)" by fastforce
  have f
  proof (rule ccontr)
    assume "\<not> f"
    with scan have miss: "scan_sectors blk sec (open_sectors s) = (e, False)" by simp
    have "cached (open_sectors s) (blk, sec) = None" using scan_miss [OF ok miss] .
    with res show False by (simp add: resident_def)
  qed
  with scan have hit: "scan_sectors blk sec (open_sectors s) = (e, True)" by simp
  obtain xs c ys where h: "open_sectors s = xs @ c # ys" "e = length xs" "valid c"
    "key c = (blk, sec)" "cached (open_sectors s) = cached (c # xs @ ys)"
    using scan_hit [OF ok hit] .
  have "view s blk sec = sector_location c" by (rule view_resident) (use h in simp)
  moreover have "length (sector_location c) = BLOCK_SECTOR_SIZE"
    using ok h(1) by (simp add: buf_ok_def entry_ok_def)
  ultimately show ?thesis
    using hit h(1,2) rng by (simp add: buffer_read_def copy_out_def)
qed

section \<open>A sample cache\<close>

text \<open>A device of 100 sectors full of sevens, and the cache just after \<open>buffer_init\<close>.\<close>

definition sample_dev :: block where
  "sample_dev = \<lparr>bname = ''hda2'', btype = BLOCK_FILESYS, bsize = 100,
     disk = (\<lambda>_. replicate 512 7), read_cnt = 0, write_cnt = 0\<rparr>"

definition sample_buf :: bufstate where
  "sample_buf = snd (buffer_init True True
     \<lparr>devs = (\<lambda>_. sample_dev), open_sectors = [], num_access = 0, num_hits = 0\<rparr>)"

lemma sample_buf_ok: "buf_ok sample_buf" "devs sample_buf = (\<lambda>_. sample_dev)"
  unfolding sample_buf_def
  by (rule buffer_init_ok [of "\<lparr>devs = (\<lambda>_. sample_dev), open_sectors = [], num_access = 0, num_hits = 0\<rparr>"];
      simp)+

lemma sample_sector_ok: "x < 100 \<Longrightarrow> sector_ok sample_buf b x"
  by (simp add: sector_ok_def sample_buf_ok sample_dev_def dev_ok_def BLOCK_SECTOR_SIZE_def)

lemma sample_entries:
  "open_sectors sample_buf = replicate 64 \<lparr>sector_id = 0, block_id = 0,
     sector_location = replicate 512 0, valid = False, dirty = False\<rparr>"
  by (simp add: sample_buf_def buffer_init_def Let_def BLOCK_SECTOR_SIZE_def upt_rec numeral_eq_Suc)

lemma sample_cold: "\<not> resident sample_buf b x" "stale_bytes sample_buf b x = replicate 512 0"
  "view sample_buf b x = replicate 512 7"
proof -
  let ?z = "\<lparr>sector_id = 0, block_id = 0,
     sector_location = replicate 512 0, valid = False, dirty = False\<rparr>"
  have none: "cached (open_sectors sample_buf) = Map.empty" by (simp add: sample_entries)
  then show "\<not> resident sample_buf b x" "view sample_buf b x = replicate 512 7"
    by (simp_all add: resident_def view_def sample_buf_ok sample_dev_def)
  have "open_sectors sample_buf = ?z # replicate 63 ?z"
    by (simp add: sample_entries flip: replicate_Suc)
  then show "stale_bytes sample_buf b x = replicate 512 0"
    by (simp add: stale_bytes_def take_victim_def)
qed

section \<open>Claims\<close>

text \<open>
  C5: reading through the cache returns the current contents of the sector (the cached
  copy if there is one, the device's otherwise), keeps the invariant of the cache and
  changes the contents of no sector, whether the access hits, fills an unused entry, or
  evicts a dirty entry.
\<close>

theorem buffer_read_returns_contents:
  assumes "buf_ok s" "sector_ok s blk sec" "ofs + n \<le> BLOCK_SECTOR_SIZE"
  shows "\<exists>s'. buffer_read blk sec ofs n s = Some (buf_get ofs n (view s blk sec), s') \<and>
    buf_ok s' \<and> view s' = view s"
  using bc.rd_law [OF assms] by blast

theorem buffer_read_returns_contents_witness:
  "\<exists>s'. buffer_read 1 5 10 2 sample_buf = Some (replicate 2 7, s') \<and> buf_ok s'"
  using buffer_read_returns_contents [OF sample_buf_ok(1) sample_sector_ok [of 5 1], of 10 2]
  by (auto simp: sample_cold buf_get_def BLOCK_SECTOR_SIZE_def)

text \<open>
  C6: writing through the cache changes the written bytes of the sector and, if the sector
  is cached or is written whole, nothing else: neither the rest of this sector nor any
  other sector, also when a dirty entry is evicted.
\<close>

theorem buffer_write_updates_contents:
  assumes "buf_ok s" "sector_ok s blk sec" "ofs + length bs \<le> BLOCK_SECTOR_SIZE"
    and "resident s blk sec \<or> length bs = BLOCK_SECTOR_SIZE"
  shows "\<exists>s'. buffer_write blk sec bs ofs s = Some s' \<and> buf_ok s' \<and>
    view s' blk sec = buf_put ofs bs (view s blk sec) \<and>
    (\<forall>b x. (b, x) \<noteq> (blk, sec) \<longrightarrow> view s' b x = view s b x)"
proof -
  obtain s' d where w: "buffer_write blk sec bs ofs s = Some s'" "buf_ok s'"
    "length d = BLOCK_SECTOR_SIZE" "resident s blk sec \<longrightarrow> d = view s blk sec"
    "view s' = upd (view s) blk sec (buf_put ofs bs d)"
    using bc.wr_law [OF assms(1-3)] by blast
  have "buf_put ofs bs d = buf_put ofs bs (view s blk sec)"
  proof (cases "resident s blk sec")
    case False
    then have "ofs = 0" "length bs = BLOCK_SECTOR_SIZE" using assms(3,4) by auto
    then show ?thesis using w(3) view_length [OF assms(1,2)] by (simp add: buf_put_full)
  qed (use w(4) in simp)
  with w show ?thesis by (auto simp: upd_apply)
qed

theorem buffer_write_updates_contents_witness:
  "\<exists>s'. buffer_write 1 5 (replicate 512 9) 0 sample_buf = Some s' \<and>
     view s' 1 5 = replicate 512 9 \<and> view s' 1 6 = replicate 512 7"
  using buffer_write_updates_contents [OF sample_buf_ok(1) sample_sector_ok [of 5 1], of 0 "replicate 512 9"]
  by (auto simp: sample_cold buf_put_full BLOCK_SECTOR_SIZE_def)

text \<open>
  C9: a write of a part of a sector that is not in the cache does not read the sector first.
  The bytes around the written ones become the bytes that the reused entry held, those of
  another sector if the entry was in use, and the sector's own bytes are lost.
\<close>

theorem buffer_write_miss_keeps_stale_bytes:
  assumes "buf_ok s" "sector_ok s blk sec" "ofs + length bs \<le> BLOCK_SECTOR_SIZE"
    and "\<not> resident s blk sec"
  shows "\<exists>s'. buffer_write blk sec bs ofs s = Some s' \<and>
    view s' blk sec = buf_put ofs bs (stale_bytes s blk sec)"
proof -
  obtain s' where "buffer_write blk sec bs ofs s = Some s'"
    "view s' = upd (view s) blk sec (buf_put ofs bs
       (if resident s blk sec then view s blk sec else stale_bytes s blk sec))"
    using buffer_write_ok [OF assms(1-3)] .
  with assms(4) show ?thesis by (simp add: upd_apply)
qed

theorem buffer_write_miss_keeps_stale_bytes_witness:
  "view sample_buf 1 5 = replicate 512 7 \<and>
   (\<exists>s'. buffer_write 1 5 [9] 0 sample_buf = Some s' \<and> view s' 1 5 = 9 # replicate 511 0)"
  using buffer_write_miss_keeps_stale_bytes [OF sample_buf_ok(1) sample_sector_ok [of 5 1], of 0 "[9]"]
  by (auto simp: sample_cold buf_put_def BLOCK_SECTOR_SIZE_def)

text \<open>
  C7: \<open>buffer_update_disk\<close> writes back everything: afterwards every device holds exactly the
  contents that were visible through the cache, no cached sector is dirty, and the visible
  contents have not changed.
\<close>

theorem buffer_update_disk_durable:
  assumes "buf_ok s"
  shows "\<exists>s'. buffer_update_disk s = Some s' \<and> buf_ok s' \<and> view s' = view s \<and>
    (\<forall>b x. disk (devs s' b) x = view s b x) \<and>
    (\<forall>c \<in> set (open_sectors s'). valid c \<longrightarrow> \<not> dirty c)"
  by (rule buffer_update_disk_ok [OF assms]) blast

theorem buffer_update_disk_durable_witness:
  "\<exists>s'. buffer_update_disk sample_buf = Some s' \<and> disk (devs s' 1) 5 = replicate 512 7"
  using buffer_update_disk_durable [OF sample_buf_ok(1)] by (auto simp: sample_cold)

text \<open>
  C8: the replacement policy is least recently used: a sector that has been read stays in
  the cache during the next 63 accesses, whatever they are, so that reading it again then
  needs no device access and counts as a hit.
\<close>

theorem buffer_keeps_recent_sectors:
  assumes "buf_ok s" "sector_ok s blk sec" "ofs + n \<le> BLOCK_SECTOR_SIZE"
    and "\<forall>a \<in> set as. access_ok s a" "length as \<le> 63"
  shows "\<exists>out s1 s2 s3. buffer_read blk sec ofs n s = Some (out, s1) \<and>
    mfold do_access as s1 = Some s2 \<and>
    buffer_read blk sec ofs n s2 = Some (buf_get ofs n (view s2 blk sec), s3) \<and>
    devs s3 = devs s2 \<and> num_hits s3 = num_hits s2 + 1"
proof -
  obtain s1 where s1: "buffer_read blk sec ofs n s = Some (buf_get ofs n (view s blk sec), s1)"
    "buf_ok s1" "same_devs s s1" "at_rank s1 (blk, sec) 0"
    using buffer_read_ok [OF assms(1-3)] by metis
  obtain s2 j where s2: "mfold do_access as s1 = Some s2" "buf_ok s2" "at_rank s2 (blk, sec) j"
    using accesses_sink [OF s1(2) _ s1(4), of as] assms(4,5) access_ok_same_devs [OF s1(3)]
    by (metis add_0)
  with buffer_read_hit [OF s2(2) at_rank_resident [OF s2(3)] assms(3)] s1(1) show ?thesis by auto
qed

theorem buffer_keeps_recent_sectors_witness:
  "\<exists>out s1 s2 s3. buffer_read 1 5 0 4 sample_buf = Some (out, s1) \<and>
     mfold do_access [Wr 1 6 [1, 2] 0, Rd 1 7 0 8] s1 = Some s2 \<and>
     buffer_read 1 5 0 4 s2 = Some (buf_get 0 4 (view s2 1 5), s3) \<and>
     devs s3 = devs s2 \<and> num_hits s3 = num_hits s2 + 1"
  by (rule buffer_keeps_recent_sectors)
    (simp_all add: sample_buf_ok(1) sample_sector_ok BLOCK_SECTOR_SIZE_def)

end
