(* ===== verification/FsState.thy ===== *)
theory FsState
  imports Bitmaps Buffer
begin

text \<open>
  The state of the file system and the layers of \<open>filesys/inode.c\<close> that need no recursion:
  the in-memory and on-disk inodes, the layout of an on-disk inode, access to the file
  system device through the buffer cache, and dynamic memory.

  A pointer to a \<open>struct inode\<close> is a natural number, an address in the store \<open>inodes\<close>;
  0 is the null pointer.  A \<open>struct file\<close> has one owner and is kept by value.  The outcome
  of each call of \<open>malloc\<close> or \<open>calloc\<close> is read from \<open>mem_ok\<close>, one position per call;
  the code does not test most of these results, and a null buffer that is used stops the
  model.  \<open>extend_lock\<close> is true while the lock is held: its holder takes it again when the
  free map's own file has to grow, which the kernel forbids.  \<open>length_lock\<close> is never held
  across a call and is left out.
\<close>

section \<open>Data\<close>

definition INODE_MAGIC :: u32 where
  "INODE_MAGIC = 0x494e4f44"

definition DIR_LEN :: nat where
  "DIR_LEN = 123"

definition MAX_LEN :: int where
  "MAX_LEN = (123 + 2 * 512 div 4 + 512 div 4 * 512 div 4) * 512"

record inode_disk =
  i_length :: int
  magic :: u32
  dir :: "u32 list"
  single_indir :: "u32 list"
  double_indir :: u32

record inode =
  sector :: u32
  open_cnt :: int
  removed :: bool
  deny_write_cnt :: int
  data :: inode_disk
  extend_lock :: bool

record file_s =
  finode :: nat
  pos :: int
  deny_write :: bool

record fsstate =
  bc :: bufstate
  fs_device :: nat
  mem_ok :: "nat \<Rightarrow> bool"
  mem_n :: nat
  next_ptr :: nat
  inodes :: "nat \<rightharpoonup> inode"
  open_inodes :: "nat list"
  free_map :: bitmap
  free_map_file :: "file_s option"

section \<open>The layout of an on-disk inode\<close>

definition inode_disk_bytes :: "inode_disk \<Rightarrow> byte list" where
  "inode_disk_bytes d = u32s_bytes
     (word_of_int (i_length d) # magic d # dir d @ single_indir d @ [double_indir d])"

definition bytes_inode_disk :: "byte list \<Rightarrow> inode_disk" where
  "bytes_inode_disk bs = (let ws = bytes_u32s bs in
     \<lparr>i_length = sint (ws ! 0), magic = ws ! 1, dir = take DIR_LEN (drop 2 ws),
      single_indir = take 2 (drop 125 ws), double_indir = ws ! 127\<rparr>)"

definition di_ok :: "inode_disk \<Rightarrow> bool" where
  "di_ok d \<longleftrightarrow> length (dir d) = DIR_LEN \<and> length (single_indir d) = 2 \<and>
     0 \<le> i_length d \<and> i_length d \<le> MAX_LEN"

lemma MAX_LEN_eq: "MAX_LEN = 8582656"
  by (simp add: MAX_LEN_def)

lemma length_inode_disk_bytes: "di_ok d \<Longrightarrow> length (inode_disk_bytes d) = BLOCK_SECTOR_SIZE"
  by (simp add: di_ok_def inode_disk_bytes_def DIR_LEN_def BLOCK_SECTOR_SIZE_def)

lemma bytes_inode_disk_bytes:
  assumes "di_ok d"
  shows "bytes_inode_disk (inode_disk_bytes d) = d"
proof -
  have "sint (word_of_int (i_length d) :: u32) = i_length d"
    using assms by (intro sint_of_int32) (auto simp: di_ok_def MAX_LEN_eq)
  moreover have "bytes_u32s (inode_disk_bytes d) =
      word_of_int (i_length d) # magic d # dir d @ single_indir d @ [double_indir d]"
    by (simp only: inode_disk_bytes_def bytes_u32s_bytes)
  ultimately show ?thesis
    using assms by (simp add: bytes_inode_disk_def di_ok_def DIR_LEN_def Let_def nth_append)
qed

section \<open>Memory and the file system device\<close>

definition calloc_fs :: "fsstate \<Rightarrow> bool \<times> fsstate" where
  "calloc_fs s = (mem_ok s (mem_n s), s\<lparr>mem_n := Suc (mem_n s)\<rparr>)"

text \<open>A zeroed sector-sized array of sector numbers, or null.\<close>

definition calloc_sect :: "fsstate \<Rightarrow> u32 list option \<times> fsstate" where
  "calloc_sect s = (let (p, s) = calloc_fs s in (if p then Some (replicate 128 0) else None, s))"

definition fs_buffer_read :: "u32 \<Rightarrow> int \<Rightarrow> int \<Rightarrow> fsstate \<Rightarrow> (byte list \<times> fsstate) option" where
  "fs_buffer_read sec ofs n s = do {
     kassert (0 \<le> ofs \<and> 0 \<le> n);
     (bs, b) \<leftarrow> buffer_read (fs_device s) sec (nat ofs) (nat n) (bc s);
     Some (bs, s\<lparr>bc := b\<rparr>) }"

definition fs_buffer_write :: "u32 \<Rightarrow> byte list \<Rightarrow> int \<Rightarrow> fsstate \<Rightarrow> fsstate option" where
  "fs_buffer_write sec bs ofs s = do {
     kassert (0 \<le> ofs);
     b \<leftarrow> buffer_write (fs_device s) sec bs (nat ofs) (bc s);
     Some (s\<lparr>bc := b\<rparr>) }"

text \<open>Whole sectors of sector numbers, as the index blocks are read and written.\<close>

definition read_sect :: "u32 \<Rightarrow> fsstate \<Rightarrow> (u32 list \<times> fsstate) option" where
  "read_sect sec s = do {
     (bs, s) \<leftarrow> fs_buffer_read sec 0 512 s;
     Some (bytes_u32s bs, s) }"

definition write_sect :: "u32 \<Rightarrow> u32 list \<Rightarrow> fsstate \<Rightarrow> fsstate option" where
  "write_sect sec ws s = fs_buffer_write sec (u32s_bytes ws) 0 s"

section \<open>From a byte position to a sector\<close>

definition byte_to_sector_helper :: "nat \<Rightarrow> int \<Rightarrow> int \<Rightarrow> fsstate \<Rightarrow> (u32 \<times> fsstate) option" where
  "byte_to_sector_helper ip p len s = do {
     ino \<leftarrow> inodes s ip;
     if p < len then
       (let index = cdiv p 512 in
        if index < 123 then do {
          x \<leftarrow> arr_get (dir (data ino)) index;
          Some (x, s) }
        else if index < 123 + 512 div 4 then do {
          let (m, s) = calloc_fs s;
          kassert m;
          blk \<leftarrow> arr_get (single_indir (data ino)) 0;
          (tmp_buf, s) \<leftarrow> read_sect blk s;
          res \<leftarrow> arr_get tmp_buf (index - 123);
          Some (res, s) }
        else if index < 123 + 2 * 512 div 4 then do {
          let (m, s) = calloc_fs s;
          kassert m;
          blk \<leftarrow> arr_get (single_indir (data ino)) 1;
          (tmp_buf, s) \<leftarrow> read_sect blk s;
          res \<leftarrow> arr_get tmp_buf (index - 123 - 512 div 4);
          Some (res, s) }
        else do {
          let (m, s) = calloc_fs s;
          kassert m;
          (tmp_buf, s) \<leftarrow> read_sect (double_indir (data ino)) s;
          let index = index - (123 + 2 * 512 div 4);
          id_2level \<leftarrow> arr_get tmp_buf (cdiv index 128);
          (tmp_buf, s) \<leftarrow> read_sect id_2level s;
          res \<leftarrow> arr_get tmp_buf (cmod index 128);
          Some (res, s) })
     else Some (- 1, s) }"

definition inode_length :: "nat \<Rightarrow> fsstate \<Rightarrow> int option" where
  "inode_length ip s = map_option (\<lambda>ino. i_length (data ino)) (inodes s ip)"

definition byte_to_sector :: "nat \<Rightarrow> int \<Rightarrow> fsstate \<Rightarrow> (u32 \<times> fsstate) option" where
  "byte_to_sector ip p s = do {
     len \<leftarrow> inode_length ip s;
     byte_to_sector_helper ip p len s }"

section \<open>Reading\<close>

text \<open>The loop of \<open>inode_read_at\<close>; it returns the bytes put into the buffer.\<close>

function inode_read_loop :: "nat \<Rightarrow> int \<Rightarrow> int \<Rightarrow> int \<Rightarrow> fsstate \<Rightarrow> (byte list \<times> fsstate) option" where
  "inode_read_loop ip inode_len sz ofs s =
     (if sz > 0 then do {
        (sector_idx, s) \<leftarrow> byte_to_sector ip ofs s;
        let sector_ofs = cmod ofs 512;
        let inode_left = i32 (inode_len - ofs);
        let sector_left = 512 - sector_ofs;
        let min_left = (if inode_left < sector_left then inode_left else sector_left);
        let chunk_size = (if sz < min_left then sz else min_left);
        if chunk_size \<le> 0 then Some ([], s)
        else do {
          (bs, s) \<leftarrow> fs_buffer_read sector_idx sector_ofs chunk_size s;
          (rest, s) \<leftarrow> inode_read_loop ip inode_len (sz - chunk_size) (ofs + chunk_size) s;
          Some (bs @ rest, s) } }
      else Some ([], s))"
  by pat_completeness auto
termination by (relation "measure (\<lambda>(ip, len, sz, ofs, s). nat sz)") (auto simp: Let_def split: if_splits)

declare inode_read_loop.simps [simp del]

definition inode_read_at :: "nat \<Rightarrow> int \<Rightarrow> int \<Rightarrow> fsstate \<Rightarrow> (byte list \<times> fsstate) option" where
  "inode_read_at ip sz ofs s = do {
     inode_len \<leftarrow> inode_length ip s;
     inode_read_loop ip inode_len sz ofs s }"

section \<open>What the index and the contents of a file are\<close>

definition fsview :: "fsstate \<Rightarrow> u32 \<Rightarrow> byte list" where
  "fsview s = view (bc s) (fs_device s)"

definition sec_ok :: "fsstate \<Rightarrow> u32 \<Rightarrow> bool" where
  "sec_ok s = sector_ok (bc s) (fs_device s)"

text \<open>The states in which no allocation of memory fails.\<close>

definition fs_ok :: "fsstate \<Rightarrow> bool" where
  "fs_ok s \<longleftrightarrow> buf_ok (bc s) \<and> (\<forall>n. mem_ok s n)"

text \<open>The sector that holds the \<open>i\<close>-th 512 bytes of a file, and the index blocks before it.\<close>

definition index_sector :: "(u32 \<Rightarrow> byte list) \<Rightarrow> inode_disk \<Rightarrow> nat \<Rightarrow> u32" where
  "index_sector v d i =
     (if i < 123 then dir d ! i
      else if i < 251 then bytes_u32s (v (single_indir d ! 0)) ! (i - 123)
      else if i < 379 then bytes_u32s (v (single_indir d ! 1)) ! (i - 251)
      else bytes_u32s (v (bytes_u32s (v (double_indir d)) ! ((i - 379) div 128))) ! ((i - 379) mod 128))"

definition index_blocks :: "(u32 \<Rightarrow> byte list) \<Rightarrow> inode_disk \<Rightarrow> nat \<Rightarrow> u32 list" where
  "index_blocks v d i =
     (if i < 123 then []
      else if i < 251 then [single_indir d ! 0]
      else if i < 379 then [single_indir d ! 1]
      else [double_indir d, bytes_u32s (v (double_indir d)) ! ((i - 379) div 128)])"

definition MAX_SECTORS :: nat where
  "MAX_SECTORS = 16763"

text \<open>The first \<open>n\<close> sectors of a file, with their index blocks, lie on the device.\<close>

definition layout_ok :: "fsstate \<Rightarrow> inode_disk \<Rightarrow> nat \<Rightarrow> bool" where
  "layout_ok s d n \<longleftrightarrow> n \<le> MAX_SECTORS \<and>
     (\<forall>i < n. \<forall>x \<in> set (index_sector (fsview s) d i # index_blocks (fsview s) d i). sec_ok s x)"

definition file_byte :: "(u32 \<Rightarrow> byte list) \<Rightarrow> inode_disk \<Rightarrow> nat \<Rightarrow> byte" where
  "file_byte v d p = v (index_sector v d (p div 512)) ! (p mod 512)"

text \<open>The number of sectors that hold the bytes below a length.\<close>

definition sectors_of :: "int \<Rightarrow> nat" where
  "sectors_of len = nat ((len + 511) div 512)"

text \<open>A step that only reads: nothing but the cache's own bookkeeping changes.\<close>

definition reads :: "fsstate \<Rightarrow> fsstate \<Rightarrow> bool" where
  "reads s s' \<longleftrightarrow> fs_ok s' \<and> fsview s' = fsview s \<and> sec_ok s' = sec_ok s \<and>
     fs_device s' = fs_device s \<and> mem_ok s' = mem_ok s \<and> next_ptr s' = next_ptr s \<and>
     inodes s' = inodes s \<and> open_inodes s' = open_inodes s \<and> free_map s' = free_map s \<and>
     free_map_file s' = free_map_file s"

lemma reads_refl [simp]: "fs_ok s \<Longrightarrow> reads s s"
  by (simp add: reads_def)

lemma reads_trans: "reads s s' \<Longrightarrow> reads s' s'' \<Longrightarrow> reads s s''"
  by (simp add: reads_def)

lemma reads_simps:
  assumes "reads s s'"
  shows "fs_ok s'" "fsview s' = fsview s" "sec_ok s' = sec_ok s" "inodes s' = inodes s"
    "open_inodes s' = open_inodes s" "free_map s' = free_map s"
    "free_map_file s' = free_map_file s" "fs_device s' = fs_device s" "layout_ok s' = layout_ok s"
    "inode_length ip s' = inode_length ip s" "next_ptr s' = next_ptr s" "mem_ok s' = mem_ok s"
  using assms by (simp_all add: reads_def layout_ok_def [abs_def] inode_length_def)

lemma fs_buffer_read_ok:
  assumes "fs_ok s" "sec_ok s x" "0 \<le> ofs" "0 \<le> n" "ofs + n \<le> 512"
  obtains s' where "fs_buffer_read x ofs n s = Some (buf_get (nat ofs) (nat n) (fsview s x), s')"
    "reads s s'" "resident (bc s') (fs_device s') x"
proof -
  have "nat ofs + nat n \<le> BLOCK_SECTOR_SIZE" using assms by (simp add: BLOCK_SECTOR_SIZE_def)
  then obtain b where b: "buffer_read (fs_device s) x (nat ofs) (nat n) (bc s) =
      Some (buf_get (nat ofs) (nat n) (fsview s x), b)" "buf_ok b"
    "view b = view (bc s)" "sector_ok b = sector_ok (bc s)" "resident b (fs_device s) x"
    using bc.rd_law [of "bc s" "fs_device s" x "nat ofs" "nat n"] assms
    by (auto simp: fs_ok_def sec_ok_def fsview_def)
  have "reads s (s\<lparr>bc := b\<rparr>)"
    using assms(1) b by (simp add: reads_def fs_ok_def fsview_def sec_ok_def)
  with b assms that show ?thesis by (simp add: fs_buffer_read_def)
qed

lemma fsview_length: "fs_ok s \<Longrightarrow> sec_ok s x \<Longrightarrow> length (fsview s x) = 512"
  using bc.length_contents by (simp add: fs_ok_def sec_ok_def fsview_def BLOCK_SECTOR_SIZE_def)

lemma read_sect_ok:
  assumes "fs_ok s" "sec_ok s x"
  obtains s' where "read_sect x s = Some (bytes_u32s (fsview s x), s')" "reads s s'"
proof -
  obtain s' where "fs_buffer_read x 0 512 s = Some (buf_get 0 512 (fsview s x), s')" "reads s s'"
    using fs_buffer_read_ok [OF assms, of 0 512] by auto
  with that fsview_length [OF assms] show ?thesis by (simp add: read_sect_def buf_get_full)
qed

lemma calloc_fs_ok:
  assumes "fs_ok s"
  obtains s' where "calloc_fs s = (True, s')" "reads s s'"
proof
  show "calloc_fs s = (True, s\<lparr>mem_n := Suc (mem_n s)\<rparr>)"
    using assms by (simp add: calloc_fs_def fs_ok_def)
  show "reads s (s\<lparr>mem_n := Suc (mem_n s)\<rparr>)"
    using assms by (simp add: reads_def fs_ok_def fsview_def sec_ok_def)
qed

lemma byte_to_sector_helper_ok:
  assumes ok: "fs_ok s" and ino: "inodes s ip = Some ino" "length (dir (data ino)) = DIR_LEN"
      "length (single_indir (data ino)) = 2"
    and lay: "layout_ok s (data ino) n" and p: "p div 512 < n" "int p < len"
  obtains s' where "byte_to_sector_helper ip (int p) len s =
      Some (index_sector (fsview s) (data ino) (p div 512), s')" "reads s s'"
proof -
  let ?v = "fsview s" and ?d = "data ino" and ?i = "p div 512"
  have idx: "cdiv (int p) 512 = int ?i" by (simp add: cdiv_nonneg zdiv_int)
  have i: "?i < 16763" using lay p(1) by (simp add: layout_ok_def MAX_SECTORS_def)
  have sec: "sec_ok s x" if "x \<in> set (index_blocks ?v ?d ?i)" for x
    using lay p(1) that by (auto simp: layout_ok_def)
  obtain s1 where s1: "calloc_fs s = (True, s1)" "reads s s1" using calloc_fs_ok [OF ok] .
  note r1 = reads_simps [OF s1(2)]
  have wlen: "length (bytes_u32s (?v x)) = 128" if "sec_ok s x" for x
    using fsview_length [OF ok that] by simp
  consider "?i < 123" | "123 \<le> ?i" "?i < 251" | "251 \<le> ?i" "?i < 379" | "379 \<le> ?i" by linarith
  then show ?thesis
  proof cases
    case 1
    then show ?thesis
      using that [OF _ reads_refl [OF ok]] ino p(2) idx
      by (simp add: byte_to_sector_helper_def arr_get_ok DIR_LEN_def index_sector_def)
  next
    case 2
    then have x: "sec_ok s (single_indir ?d ! 0)" using sec by (simp add: index_blocks_def)
    obtain s2 where s2: "read_sect (single_indir ?d ! 0) s1 =
        Some (bytes_u32s (?v (single_indir ?d ! 0)), s2)" "reads s1 s2"
      using read_sect_ok [of s1 "single_indir ?d ! 0"] r1 x by metis
    have ar: "arr_get (bytes_u32s (?v (single_indir ?d ! 0))) (int ?i - 123) =
        Some (index_sector ?v ?d ?i)"
      using 2 wlen [OF x] by (auto simp: arr_get_def index_sector_def nat_diff_distrib')
    have "byte_to_sector_helper ip (int p) len s = Some (index_sector ?v ?d ?i, s2)"
      using 2 ino p(2) s1(1) s2(1) ar
      by (simp add: byte_to_sector_helper_def idx arr_get_def [of "single_indir ?d"])
    then show ?thesis using that reads_trans [OF s1(2) s2(2)] by blast
  next
    case 3
    then have x: "sec_ok s (single_indir ?d ! 1)" using sec by (simp add: index_blocks_def)
    obtain s2 where s2: "read_sect (single_indir ?d ! 1) s1 =
        Some (bytes_u32s (?v (single_indir ?d ! 1)), s2)" "reads s1 s2"
      using read_sect_ok [of s1 "single_indir ?d ! 1"] r1 x by metis
    have ar: "arr_get (bytes_u32s (?v (single_indir ?d ! 1))) (int ?i - 251) =
        Some (index_sector ?v ?d ?i)"
      using 3 wlen [OF x] by (auto simp: arr_get_def index_sector_def nat_diff_distrib')
    have "byte_to_sector_helper ip (int p) len s = Some (index_sector ?v ?d ?i, s2)"
      using 3 ino p(2) s1(1) s2(1) ar
      by (simp add: byte_to_sector_helper_def idx arr_get_def [of "single_indir ?d"])
    then show ?thesis using that reads_trans [OF s1(2) s2(2)] by blast
  next
    case 4
    let ?q = "(?i - 379) div 128" and ?r = "(?i - 379) mod 128"
    let ?w = "bytes_u32s (?v (double_indir ?d)) ! ?q"
    have x: "sec_ok s (double_indir ?d)" "sec_ok s ?w" using 4 sec by (simp_all add: index_blocks_def)
    obtain s2 where s2: "read_sect (double_indir ?d) s1 =
        Some (bytes_u32s (?v (double_indir ?d)), s2)" "reads s1 s2"
      using read_sect_ok [of s1 "double_indir ?d"] r1 x by metis
    note r2 = reads_simps [OF s2(2)]
    obtain s3 where s3: "read_sect ?w s2 = Some (bytes_u32s (?v ?w), s3)" "reads s2 s3"
      using read_sect_ok [of s2 ?w] r1 r2 x by metis
    have q: "cdiv (int ?i - 379) 128 = int ?q" "cmod (int ?i - 379) 128 = int ?r"
      using 4 by (simp_all add: cdiv_nonneg cmod_nonneg zdiv_int zmod_int of_nat_diff)
    have "?q < 128" using i by simp
    then have ar: "arr_get (bytes_u32s (?v (double_indir ?d))) (int ?q) = Some ?w"
      "arr_get (bytes_u32s (?v ?w)) (int ?r) = Some (index_sector ?v ?d ?i)"
      using 4 wlen [OF x(1)] wlen [OF x(2)] by (simp_all add: arr_get_ok index_sector_def)
    have "byte_to_sector_helper ip (int p) len s = Some (index_sector ?v ?d ?i, s3)"
      using 4 ino p(2) s1(1) s2(1) s3(1) ar q by (simp add: byte_to_sector_helper_def idx)
    then show ?thesis using that reads_trans [OF reads_trans [OF s1(2) s2(2)] s3(2)] by blast
  qed
qed

lemma chunk_bytes:
  assumes "p mod 512 + c \<le> 512" "length (v (index_sector v d (p div 512))) = 512"
  shows "buf_get (p mod 512) c (v (index_sector v d (p div 512))) = map (file_byte v d) [p..<p + c]"
proof (rule nth_equalityI)
  fix i
  assume "i < length (buf_get (p mod 512) c (v (index_sector v d (p div 512))))"
  then have i: "i < c" using assms by simp
  have "p + i = (p mod 512 + i) + p div 512 * 512"
    by (metis ab_semigroup_add_class.add_ac(1) add.commute mod_div_mult_eq)
  then have "(p + i) div 512 = p div 512" "(p + i) mod 512 = p mod 512 + i"
    using i assms(1) by (simp_all only: div_mult_self3 mod_mult_self1) simp_all
  then show "buf_get (p mod 512) c (v (index_sector v d (p div 512))) ! i =
      map (file_byte v d) [p..<p + c] ! i"
    using i assms by (simp add: file_byte_def)
qed (use assms in simp)

lemma sectors_of_bound: "0 \<le> len \<Longrightarrow> int p < len \<Longrightarrow> p div 512 < sectors_of len"
  by (simp add: sectors_of_def zless_nat_eq_int_zless zdiv_int)

lemma byte_to_sector_end: "inodes s ip = Some ino \<Longrightarrow> i_length (data ino) \<le> p \<Longrightarrow>
   byte_to_sector ip p s = Some (- 1, s)"
  by (simp add: byte_to_sector_def inode_length_def byte_to_sector_helper_def)

lemma inode_read_loop_ok:
  assumes "fs_ok s" "inodes s ip = Some ino" "di_ok (data ino)"
    "layout_ok s (data ino) (sectors_of (i_length (data ino)))" "int p < 2 ^ 31"
  shows "\<exists>s'. inode_read_loop ip (i_length (data ino)) sz (int p) s =
      Some (map (file_byte (fsview s) (data ino)) [p..<min (p + nat sz) (nat (i_length (data ino)))], s') \<and>
    reads s s'"
  using assms
proof (induction "nat sz" arbitrary: sz p s rule: less_induct)
  case less
  let ?d = "data ino" and ?v = "fsview s"
  let ?len = "i_length ?d"
  let ?sl = "512 - cmod (int p) 512"
  let ?ml = "if i32 (?len - int p) < ?sl then i32 (?len - int p) else ?sl"
  let ?c = "if sz < ?ml then sz else ?ml"
  have lim: "0 \<le> ?len" "?len \<le> 8582656" using less.prems(3) by (auto simp: di_ok_def MAX_LEN_eq)
  have wr: "i32 (?len - int p) = ?len - int p" using lim less.prems(5) by (intro i32_id) simp_all
  have sl: "?sl = 512 - int (p mod 512)" by (simp add: cmod_nonneg zmod_int)
  show ?case
  proof (cases "0 < sz \<and> int p < ?len")
    case False
    show ?thesis
    proof (cases "0 < sz")
      case True
      with False have "byte_to_sector ip (int p) s = Some (- 1, s)" "?c \<le> 0"
        using byte_to_sector_end less.prems(2) wr by auto
      then have "inode_read_loop ip ?len sz (int p) s = Some ([], s)"
        using True by (simp add: inode_read_loop.simps Let_def)
      then show ?thesis using True False less.prems(1) by simp
    qed (use less.prems(1) in \<open>simp add: inode_read_loop.simps\<close>)
  next
    case True
    have "p div 512 < sectors_of ?len" using True lim(1) by (intro sectors_of_bound) simp_all
    then obtain s1 where s1: "byte_to_sector ip (int p) s = Some (index_sector ?v ?d (p div 512), s1)"
      "reads s s1"
      using byte_to_sector_helper_ok [OF less.prems(1,2) _ _ less.prems(4)] less.prems(2,3) True
      by (auto simp: byte_to_sector_def inode_length_def di_ok_def)
    have x: "sec_ok s (index_sector ?v ?d (p div 512))"
      using less.prems(4) \<open>p div 512 < sectors_of ?len\<close> by (simp add: layout_ok_def)
    note r1 = reads_simps [OF s1(2)]
    define c where "c = ?c"
    have c: "0 < c" "c \<le> 512 - int (p mod 512)" "c \<le> ?len - int p" "c \<le> sz"
      using True wr sl by (auto simp: c_def)
    have ofs: "cmod (int p) 512 = int (p mod 512)" by (simp add: cmod_nonneg zmod_int)
    obtain s2 where s2: "fs_buffer_read (index_sector ?v ?d (p div 512)) (int (p mod 512)) c s1 =
        Some (buf_get (p mod 512) (nat c) (?v (index_sector ?v ?d (p div 512))), s2)" "reads s1 s2"
      using fs_buffer_read_ok [of s1 "index_sector ?v ?d (p div 512)" "int (p mod 512)" c] r1 x c
      by auto
    note r2 = reads_simps [OF s2(2)]
    have bytes: "buf_get (p mod 512) (nat c) (?v (index_sector ?v ?d (p div 512))) =
        map (file_byte ?v ?d) [p..<p + nat c]"
      using c fsview_length [OF less.prems(1) x] by (intro chunk_bytes) linarith+
    have next_p: "int (p + nat c) = int p + c" using c(1) by simp
    have "\<exists>s'. inode_read_loop ip ?len (sz - c) (int (p + nat c)) s2 =
        Some (map (file_byte (fsview s2) ?d) [p + nat c..<min (p + nat c + nat (sz - c)) (nat ?len)], s') \<and>
        reads s2 s'"
      using less.prems c lim r1 r2 by (intro less.hyps) simp_all
    moreover have "p + nat c + nat (sz - c) = p + nat sz" using c by simp
    ultimately obtain s3 where s3: "inode_read_loop ip ?len (sz - c) (int p + c) s2 =
        Some (map (file_byte ?v ?d) [p + nat c..<min (p + nat sz) (nat ?len)], s3)" "reads s2 s3"
      using r1(2) r2(2) unfolding next_p by auto
    have split: "[p..<min (p + nat sz) (nat ?len)] =
        [p..<p + nat c] @ [p + nat c..<min (p + nat sz) (nat ?len)]"
      using c by (intro upt_split) linarith+
    have "inode_read_loop ip ?len sz (int p) s =
        Some (map (file_byte ?v ?d) [p..<min (p + nat sz) (nat ?len)], s3)"
      unfolding split map_append bytes [symmetric]
      using True c(1) s1(1) s2(1) s3(1)
      by (subst inode_read_loop.simps) (simp add: Let_def ofs c_def [unfolded ofs, symmetric])
    then show ?thesis using reads_trans [OF reads_trans [OF s1(2) s2(2)] s3(2)] by blast
  qed
qed


section \<open>A sample file system\<close>

text \<open>One open inode, with address 3 and two data sectors, on the sample device.\<close>

definition sample_di :: inode_disk where
  "sample_di = \<lparr>i_length = 600, magic = INODE_MAGIC, dir = 10 # 11 # replicate 121 0,
     single_indir = [0, 0], double_indir = 0\<rparr>"

definition sample_inode :: inode where
  "sample_inode = \<lparr>sector = 9, open_cnt = 1, removed = False, deny_write_cnt = 0,
     data = sample_di, extend_lock = False\<rparr>"

definition sample_fs :: fsstate where
  "sample_fs = \<lparr>bc = sample_buf, fs_device = 1, mem_ok = (\<lambda>_. True), mem_n = 0, next_ptr = 4,
     inodes = [3 \<mapsto> sample_inode], open_inodes = [3],
     free_map = \<lparr>bit_cnt = 100, bits = [0xE03, 0, 0, 0]\<rparr>, free_map_file = None\<rparr>"

lemma sample_fs_ok:
  "fs_ok sample_fs" "inodes sample_fs 3 = Some sample_inode" "di_ok (data sample_inode)"
  "data sample_inode = sample_di" "i_length sample_di = 600"
  by (simp_all add: fs_ok_def sample_fs_def sample_buf_ok(1) sample_inode_def di_ok_def
      sample_di_def DIR_LEN_def MAX_LEN_eq)

lemma sample_sec_ok: "x < 100 \<Longrightarrow> sec_ok sample_fs x"
  by (simp add: sec_ok_def sample_fs_def sample_sector_ok)

lemma sample_view: "fsview sample_fs = (\<lambda>_. replicate 512 7)"
  by (simp add: fsview_def sample_fs_def sample_cold(3) fun_eq_iff)

lemma sample_layout: "n \<le> 2 \<Longrightarrow> layout_ok sample_fs sample_di n"
  by (auto simp: layout_ok_def MAX_SECTORS_def index_blocks_def index_sector_def sample_di_def
      nth_Cons intro!: sample_sec_ok split: nat.splits)

section \<open>Claims\<close>



text \<open>
  C12: \<open>inode_read_at\<close> returns exactly the bytes of the file from \<open>offset\<close>, as many as
  were asked for or as there are before the end of the file, each taken from the sector
  that the direct, indirect or doubly indirect index names, and it changes the contents
  of no sector.
\<close>

theorem inode_read_at_returns_file_bytes:
  assumes "fs_ok s" "inodes s ip = Some ino" "di_ok (data ino)"
    "layout_ok s (data ino) (sectors_of (i_length (data ino)))" "0 \<le> ofs" "ofs < 2 ^ 31"
  shows "\<exists>s'. inode_read_at ip sz ofs s =
      Some (map (file_byte (fsview s) (data ino))
              [nat ofs..<min (nat ofs + nat sz) (nat (i_length (data ino)))], s') \<and>
    fsview s' = fsview s"
proof -
  obtain s' where "inode_read_loop ip (i_length (data ino)) sz (int (nat ofs)) s =
      Some (map (file_byte (fsview s) (data ino))
              [nat ofs..<min (nat ofs + nat sz) (nat (i_length (data ino)))], s')" "reads s s'"
    using inode_read_loop_ok [OF assms(1-4), of "nat ofs" sz] assms(5,6) by auto
  with assms(2,5) show ?thesis
    by (auto simp: inode_read_at_def inode_length_def dest: reads_simps(2))
qed


theorem inode_read_at_returns_file_bytes_witness:
  "\<exists>s'. inode_read_at 3 1000 510 sample_fs = Some (replicate 90 7, s')"
proof -
  have "\<exists>s'. inode_read_at 3 1000 510 sample_fs =
      Some (map (file_byte (fsview sample_fs) sample_di) [510..<600], s') \<and>
      fsview s' = fsview sample_fs"
    using inode_read_at_returns_file_bytes [OF sample_fs_ok(1-3), of 510 1000]
    by (simp add: sample_fs_ok sample_layout sectors_of_def)
  moreover have "file_byte (fsview sample_fs) sample_di = (\<lambda>_. 7)"
    by (simp add: file_byte_def sample_view fun_eq_iff)
  then have "map (file_byte (fsview sample_fs) sample_di) [510..<600] = replicate 90 7"
    by (simp add: map_replicate_const del: upt_rec_numeral)
  ultimately show ?thesis by auto
qed

end
