(* ===== verification/Inode.thy ===== *)
theory Inode
  imports FsState
begin

text \<open>
  The operations of \<open>filesys/inode.c\<close> that change the disk, and of \<open>filesys/free-map.c\<close>,
  which call each other: growing a file allocates sectors, allocating sectors writes the
  free map to its own file, and that is again a write to an inode.  The functions below
  the recursion take the function that writes to an inode as a parameter \<open>w\<close>;
  \<open>inode_write_lvl\<close> ties the knot for a number of nested calls, and three are enough: a
  third nested call finds the \<open>extend_lock\<close> of the free map's inode taken.
\<close>

type_synonym writer = "nat \<Rightarrow> byte list \<Rightarrow> int \<Rightarrow> int \<Rightarrow> fsstate \<Rightarrow> (int \<times> fsstate) option"

section \<open>The free map and its file\<close>

definition bitmap_file_size :: "bitmap \<Rightarrow> nat" where
  "bitmap_file_size b = byte_cnt (bit_cnt b)"

definition bitmap_write :: "writer \<Rightarrow> bitmap \<Rightarrow> file_s \<Rightarrow> fsstate \<Rightarrow> (bool \<times> fsstate) option" where
  "bitmap_write w b f s = (let sz = i32 (int (byte_cnt (bit_cnt b))) in do {
     (n, s) \<leftarrow> w (finode f) (u32s_bytes (bits b)) sz 0 s;
     Some (n = sz, s) })"

text \<open>
  Allocation returns the first sector, if any, for the caller to store through
  \<open>sectorp\<close>; on failure the C function leaves \<open>*sectorp\<close> as it was.
\<close>

definition free_map_allocate :: "writer \<Rightarrow> nat \<Rightarrow> fsstate \<Rightarrow> (u32 option \<times> fsstate) option" where
  "free_map_allocate w cnt s = do {
     (sec, fm) \<leftarrow> bitmap_scan_and_flip (free_map s) 0 cnt False;
     let s = s\<lparr>free_map := fm\<rparr>;
     (sec, s) \<leftarrow>
       (if sec \<noteq> BITMAP_ERROR then
          (case free_map_file s of
             None \<Rightarrow> Some (sec, s)
           | Some f \<Rightarrow> do {
               (written, s) \<leftarrow> bitmap_write w (free_map s) f s;
               if \<not> written then do {
                 fm \<leftarrow> bitmap_set_multiple (free_map s) sec cnt False;
                 Some (BITMAP_ERROR, s\<lparr>free_map := fm\<rparr>) }
               else Some (sec, s) })
        else Some (sec, s));
     Some (if sec \<noteq> BITMAP_ERROR then Some (of_nat sec) else None, s) }"

definition free_map_release :: "writer \<Rightarrow> u32 \<Rightarrow> nat \<Rightarrow> fsstate \<Rightarrow> fsstate option" where
  "free_map_release w sec cnt s = do {
     used \<leftarrow> bitmap_all (free_map s) (unat sec) cnt;
     kassert used;
     fm \<leftarrow> bitmap_set_multiple (free_map s) (unat sec) cnt False;
     let s = s\<lparr>free_map := fm\<rparr>;
     f \<leftarrow> free_map_file s;
     (_, s) \<leftarrow> bitmap_write w (free_map s) f s;
     Some s }"

section \<open>Updating in-memory inodes and index arrays\<close>

definition upd_inode :: "nat \<Rightarrow> (inode \<Rightarrow> inode) \<Rightarrow> fsstate \<Rightarrow> fsstate option" where
  "upd_inode ip f s = do {
     ino \<leftarrow> inodes s ip;
     Some (s\<lparr>inodes := (inodes s)(ip \<mapsto> f ino)\<rparr>) }"

definition upd_data :: "nat \<Rightarrow> (inode_disk \<Rightarrow> inode_disk option) \<Rightarrow> fsstate \<Rightarrow> fsstate option" where
  "upd_data ip f s = do {
     ino \<leftarrow> inodes s ip;
     d \<leftarrow> f (data ino);
     Some (s\<lparr>inodes := (inodes s)(ip \<mapsto> ino\<lparr>data := d\<rparr>)\<rparr>) }"

text \<open>
  \<open>free_map_allocate (1, &p)\<close> where \<open>p\<close> is an element of an index array, or a field of
  an on-disk inode that is local or lives in an in-memory inode.
\<close>

definition alloc_arr :: "writer \<Rightarrow> u32 list \<Rightarrow> int \<Rightarrow> fsstate \<Rightarrow> (u32 list \<times> fsstate) option" where
  "alloc_arr w a i s = do {
     (r, s) \<leftarrow> free_map_allocate w 1 s;
     a \<leftarrow> (case r of Some x \<Rightarrow> arr_set a i x | None \<Rightarrow> Some a);
     Some (a, s) }"

definition set_dir :: "int \<Rightarrow> u32 \<Rightarrow> inode_disk \<Rightarrow> inode_disk option" where
  "set_dir i x d = map_option (\<lambda>a. d\<lparr>dir := a\<rparr>) (arr_set (dir d) i x)"

definition set_single :: "int \<Rightarrow> u32 \<Rightarrow> inode_disk \<Rightarrow> inode_disk option" where
  "set_single i x d = map_option (\<lambda>a. d\<lparr>single_indir := a\<rparr>) (arr_set (single_indir d) i x)"

definition set_double :: "u32 \<Rightarrow> inode_disk \<Rightarrow> inode_disk option" where
  "set_double x d = Some (d\<lparr>double_indir := x\<rparr>)"

definition alloc_di ::
    "writer \<Rightarrow> (u32 \<Rightarrow> inode_disk \<Rightarrow> inode_disk option) \<Rightarrow> inode_disk \<Rightarrow> fsstate
     \<Rightarrow> (inode_disk \<times> fsstate) option" where
  "alloc_di w f d s = do {
     (r, s) \<leftarrow> free_map_allocate w 1 s;
     d \<leftarrow> (case r of Some x \<Rightarrow> f x d | None \<Rightarrow> Some d);
     Some (d, s) }"

definition alloc_data ::
    "writer \<Rightarrow> (u32 \<Rightarrow> inode_disk \<Rightarrow> inode_disk option) \<Rightarrow> nat \<Rightarrow> fsstate \<Rightarrow> fsstate option" where
  "alloc_data w f ip s = do {
     (r, s) \<leftarrow> free_map_allocate w 1 s;
     (case r of Some x \<Rightarrow> upd_data ip (f x) s | None \<Rightarrow> Some s) }"

text \<open>A write from a buffer that may be null.\<close>

definition write_buf :: "u32 \<Rightarrow> u32 list option \<Rightarrow> fsstate \<Rightarrow> fsstate option" where
  "write_buf sec a s = do { ws \<leftarrow> a; write_sect sec ws s }"

section \<open>Growing an inode\<close>

text \<open>
  One round of the allocation loop of \<open>inode_extend_length\<close>.  The index arrays in memory are
  \<open>t1\<close> (\<open>tmpsect_1st\<close>), \<open>t2\<close> (\<open>tmpsect_2nd\<close>), \<open>t2l\<close> (\<open>tmpsect_2level_1\<close>) and \<open>cur\<close>
  (\<open>cur_sector\<close>).
\<close>

definition extend_step ::
    "writer \<Rightarrow> nat \<Rightarrow> u32 list option \<Rightarrow> u32 list option \<Rightarrow> int
     \<Rightarrow> u32 list option \<times> u32 list option \<times> u32 list option \<times> fsstate
     \<Rightarrow> (u32 list option \<times> u32 list option \<times> u32 list option \<times> fsstate) option" where
  "extend_step w ip zeros t2l i = (\<lambda>(t1, t2, cur, s).
     if i < 123 then do {
       s \<leftarrow> alloc_data w (set_dir i) ip s;
       ino \<leftarrow> inodes s ip;
       x \<leftarrow> arr_get (dir (data ino)) i;
       s \<leftarrow> write_buf x zeros s;
       Some (t1, t2, cur, s) }
     else if i < 123 + 512 div 4 then do {
       a \<leftarrow> t1;
       (a, s) \<leftarrow> alloc_arr w a (i - 123) s;
       x \<leftarrow> arr_get a (i - 123);
       s \<leftarrow> write_buf x zeros s;
       Some (Some a, t2, cur, s) }
     else if i < 123 + 2 * 512 div 4 then do {
       a \<leftarrow> t2;
       (a, s) \<leftarrow> alloc_arr w a (i - 123 - 512 div 4) s;
       x \<leftarrow> arr_get a (i - 123 - 512 div 4);
       s \<leftarrow> write_buf x zeros s;
       Some (t1, Some a, cur, s) }
     else do {
       let index_1st_level = i - 123 - 2 * 512 div 4;
       let tmp_index = cdiv index_1st_level 128;
       let tmp_index2 = cmod index_1st_level 128;
       a \<leftarrow> cur;
       l \<leftarrow> t2l;
       blk \<leftarrow> arr_get l tmp_index;
       (a, s) \<leftarrow> (if tmp_index2 = 0 then Some (replicate 128 0, s) else read_sect blk s);
       (a, s) \<leftarrow> alloc_arr w a tmp_index2 s;
       x \<leftarrow> arr_get a tmp_index2;
       s \<leftarrow> write_buf x zeros s;
       s \<leftarrow> write_sect blk a s;
       Some (t1, t2, Some a, s) })"

text \<open>The first part: the index blocks that the new length needs.\<close>

definition extend_indirect ::
    "writer \<Rightarrow> nat \<Rightarrow> int \<Rightarrow> int \<Rightarrow> u32 list option \<Rightarrow> fsstate \<Rightarrow> (u32 list option \<times> fsstate) option" where
  "extend_indirect w ip newindex oldindex t2l s = do {
     s \<leftarrow> (if newindex \<ge> 123 \<and> oldindex < 123 then alloc_data w (set_single 0) ip s else Some s);
     s \<leftarrow> (if newindex \<ge> 123 + 512 div 4 \<and> oldindex < 123 + 512 div 4
          then alloc_data w (set_single 1) ip s else Some s);
     if newindex \<ge> 123 + 2 * 512 div 4 then do {
       s \<leftarrow> (if oldindex < 123 + 2 * 512 div 4 then alloc_data w set_double ip s else Some s);
       _ \<leftarrow> t2l;
       ino \<leftarrow> inodes s ip;
       (l, s) \<leftarrow> read_sect (double_indir (data ino)) s;
       let newtmp_index2 = cdiv (newindex - (123 + 2 * 512 div 4)) 128;
       let oldtmp_index = oldindex - (123 + 2 * 512 div 4);
       let oldtmp_index2 = (if oldtmp_index < 0 then - 1 else cdiv oldtmp_index 128);
       (l, s) \<leftarrow> mfold (\<lambda>i (l, s). alloc_arr w l i s) [oldtmp_index2 + 1..newtmp_index2] (l, s);
       ino \<leftarrow> inodes s ip;
       s \<leftarrow> write_sect (double_indir (data ino)) l s;
       Some (Some l, s) }
     else Some (t2l, s) }"

text \<open>Reading an index block of the inode into a buffer, and writing it back.\<close>

definition read_single :: "nat \<Rightarrow> int \<Rightarrow> u32 list option \<Rightarrow> fsstate \<Rightarrow> (u32 list option \<times> fsstate) option" where
  "read_single ip k t s = do {
     ino \<leftarrow> inodes s ip;
     blk \<leftarrow> arr_get (single_indir (data ino)) k;
     _ \<leftarrow> t;
     (a, s) \<leftarrow> read_sect blk s;
     Some (Some a, s) }"

definition write_single :: "nat \<Rightarrow> int \<Rightarrow> u32 list option \<Rightarrow> fsstate \<Rightarrow> fsstate option" where
  "write_single ip k t s = do {
     ino \<leftarrow> inodes s ip;
     blk \<leftarrow> arr_get (single_indir (data ino)) k;
     write_buf blk t s }"

definition extend_body :: "writer \<Rightarrow> nat \<Rightarrow> int \<Rightarrow> int \<Rightarrow> fsstate \<Rightarrow> fsstate option" where
  "extend_body w ip newLen oldLen s = (
     let newindex = cdiv newLen 512;
         oldindex = cdiv oldLen 512;
         (zeros, s) = calloc_sect s;
         (t1, s) = calloc_sect s;
         (t2, s) = calloc_sect s;
         (t2l, s) = calloc_sect s
     in do {
       (t2l, s) \<leftarrow> extend_indirect w ip newindex oldindex t2l s;
       (t1, s) \<leftarrow> (if newindex \<ge> 123 then read_single ip 0 t1 s else Some (t1, s));
       (t2, s) \<leftarrow> (if newindex \<ge> 123 + 512 div 4 then read_single ip 1 t2 s else Some (t2, s));
       let (cur, s) = calloc_sect s;
       (t1, t2, cur, s) \<leftarrow>
         mfold (extend_step w ip zeros t2l) [oldindex + 1..newindex] (t1, t2, cur, s);
       s \<leftarrow> (if newindex \<ge> 123 then write_single ip 0 t1 s else Some s);
       s \<leftarrow> (if newindex \<ge> 123 + 512 div 4 then write_single ip 1 t2 s else Some s);
       ino \<leftarrow> inodes s ip;
       fs_buffer_write (sector ino) (inode_disk_bytes (data ino)) 0 s })"

definition inode_extend_length :: "writer \<Rightarrow> nat \<Rightarrow> int \<Rightarrow> int \<Rightarrow> fsstate \<Rightarrow> fsstate option" where
  "inode_extend_length w ip sz ofs s = do {
     ino \<leftarrow> inodes s ip;
     kassert (\<not> extend_lock ino);
     s \<leftarrow> upd_inode ip (\<lambda>i. i\<lparr>extend_lock := True\<rparr>) s;
     let newLen = i32 (ofs + sz);
     oldLen \<leftarrow> inode_length ip s;
     s \<leftarrow> (if oldLen < newLen then extend_body w ip newLen oldLen s else Some s);
     upd_inode ip (\<lambda>i. i\<lparr>extend_lock := False\<rparr>) s }"

section \<open>Writing\<close>

text \<open>The loop of \<open>inode_write_at\<close>; \<open>bs\<close> is the caller's buffer.\<close>

function inode_write_loop ::
    "nat \<Rightarrow> byte list \<Rightarrow> int \<Rightarrow> int \<Rightarrow> int \<Rightarrow> int \<Rightarrow> fsstate \<Rightarrow> (int \<times> fsstate) option" where
  "inode_write_loop ip bs newLen sz ofs bytes_written s =
     (if sz > 0 then do {
        (sector_idx, s) \<leftarrow> byte_to_sector_helper ip ofs newLen s;
        let sector_ofs = cmod ofs 512;
        let inode_left = i32 (newLen - ofs);
        let sector_left = 512 - sector_ofs;
        let min_left = (if inode_left < sector_left then inode_left else sector_left);
        let chunk_size = (if sz < min_left then sz else min_left);
        if chunk_size \<le> 0 then Some (bytes_written, s)
        else do {
          kassert (nat bytes_written + nat chunk_size \<le> length bs);
          s \<leftarrow> fs_buffer_write sector_idx (buf_get (nat bytes_written) (nat chunk_size) bs) sector_ofs s;
          inode_write_loop ip bs newLen (sz - chunk_size) (ofs + chunk_size)
            (bytes_written + chunk_size) s } }
      else Some (bytes_written, s))"
  by pat_completeness auto
termination
  by (relation "measure (\<lambda>(ip, bs, len, sz, ofs, n, s). nat sz)") (auto simp: Let_def split: if_splits)

declare inode_write_loop.simps [simp del]

definition inode_write_body :: "writer \<Rightarrow> writer" where
  "inode_write_body w ip bs sz ofs s = do {
     ino \<leftarrow> inodes s ip;
     if deny_write_cnt ino \<noteq> 0 then Some (0, s)
     else let newLen = i32 (sz + ofs) in
       if newLen > MAX_LEN then Some (0, s)
       else do {
         s \<leftarrow> inode_extend_length w ip sz ofs s;
         inodeLen \<leftarrow> inode_length ip s;
         let newLen = (if inodeLen > newLen then inodeLen else newLen);
         (bytes_written, s) \<leftarrow> inode_write_loop ip bs newLen sz ofs 0 s;
         s \<leftarrow> upd_data ip (\<lambda>d. Some (d\<lparr>i_length := newLen\<rparr>)) s;
         ino \<leftarrow> inodes s ip;
         s \<leftarrow> fs_buffer_write (sector ino) (inode_disk_bytes (data ino)) 0 s;
         Some (bytes_written, s) } }"

text \<open>\<open>n\<close> nested calls.\<close>

primrec inode_write_lvl :: "nat \<Rightarrow> writer" where
  "inode_write_lvl 0 = (\<lambda>ip bs sz ofs s. None)"
| "inode_write_lvl (Suc n) = inode_write_body (inode_write_lvl n)"

definition inode_write_at :: writer where
  "inode_write_at = inode_write_lvl 3"

section \<open>Creating an inode\<close>

text \<open>
  \<open>success\<close> is assigned at every allocation and set to true at the end, so the results of
  the allocations are lost; the model returns the last value.
\<close>

definition create_step ::
    "writer \<Rightarrow> u32 list option \<Rightarrow> u32 list option \<Rightarrow> int \<Rightarrow> int
     \<Rightarrow> inode_disk \<times> u32 list option \<times> u32 list option \<times> u32 list option \<times> fsstate
     \<Rightarrow> (inode_disk \<times> u32 list option \<times> u32 list option \<times> u32 list option \<times> fsstate) option" where
  "create_step w zeros t2l index i = (\<lambda>(d, t1, t2, cur, s).
     if i < 123 then do {
       (d, s) \<leftarrow> alloc_di w (set_dir i) d s;
       x \<leftarrow> arr_get (dir d) i;
       s \<leftarrow> write_buf x zeros s;
       Some (d, t1, t2, cur, s) }
     else if i < 123 + 512 div 4 then do {
       a \<leftarrow> t1;
       (a, s) \<leftarrow> alloc_arr w a (i - 123) s;
       x \<leftarrow> arr_get a (i - 123);
       s \<leftarrow> write_buf x zeros s;
       Some (d, Some a, t2, cur, s) }
     else if i < 123 + 2 * 512 div 4 then do {
       a \<leftarrow> t2;
       (a, s) \<leftarrow> alloc_arr w a (i - 123 - 512 div 4) s;
       x \<leftarrow> arr_get a (i - 123 - 512 div 4);
       s \<leftarrow> write_buf x zeros s;
       Some (d, t1, Some a, cur, s) }
     else do {
       let index_1st_level = i - 123 - 2 * 512 div 4;
       let tmp_index = cdiv index_1st_level 128;
       let tmp_index2 = cmod index_1st_level 128;
       a \<leftarrow> cur;
       let a = (if tmp_index2 = 0 then replicate 128 0 else a);
       (a, s) \<leftarrow> alloc_arr w a tmp_index2 s;
       x \<leftarrow> arr_get a tmp_index2;
       s \<leftarrow> write_buf x zeros s;
       s \<leftarrow> (if tmp_index2 = 512 div 4 - 1 \<or> i = index then do {
               l \<leftarrow> t2l;
               blk \<leftarrow> arr_get l tmp_index;
               write_sect blk a s }
             else Some s);
       Some (d, t1, t2, Some a, s) })"

text \<open>The index blocks that the length needs, before the data sectors.\<close>

definition create_indirect ::
    "writer \<Rightarrow> int \<Rightarrow> inode_disk \<Rightarrow> fsstate
     \<Rightarrow> (inode_disk \<times> u32 list option \<times> u32 list option \<times> u32 list option \<times> fsstate) option" where
  "create_indirect w index d s = do {
     (d, t1, s) \<leftarrow> (if index \<ge> 123 then do {
         (d, s) \<leftarrow> alloc_di w (set_single 0) d s;
         let (t1, s) = calloc_sect s;
         Some (d, t1, s) } else Some (d, None, s));
     (d, t2, s) \<leftarrow> (if index \<ge> 123 + 512 div 4 then do {
         (d, s) \<leftarrow> alloc_di w (set_single 1) d s;
         let (t2, s) = calloc_sect s;
         Some (d, t2, s) } else Some (d, None, s));
     if index \<ge> 123 + 2 * 512 div 4 then do {
       (d, s) \<leftarrow> alloc_di w set_double d s;
       let (t2l, s) = calloc_sect s;
       let tmp_index2 = cdiv (index - (123 + 2 * 512 div 4)) 128;
       l \<leftarrow> t2l;
       (l, s) \<leftarrow> mfold (\<lambda>i (l, s). alloc_arr w l i s) [0..tmp_index2] (l, s);
       s \<leftarrow> write_sect (double_indir d) l s;
       Some (d, t1, t2, Some l, s) }
     else Some (d, t1, t2, None, s) }"

text \<open>Writing an index block back if it was allocated.\<close>

definition create_finish :: "inode_disk \<Rightarrow> int \<Rightarrow> u32 list option \<Rightarrow> fsstate \<Rightarrow> fsstate option" where
  "create_finish d k t s = (case t of
       Some a \<Rightarrow> do { b \<leftarrow> arr_get (single_indir d) k; write_sect b a s }
     | None \<Rightarrow> Some s)"

definition inode_create :: "writer \<Rightarrow> u32 \<Rightarrow> int \<Rightarrow> fsstate \<Rightarrow> (bool \<times> fsstate) option" where
  "inode_create w sec len s = do {
     kassert (len \<ge> 0);
     if len > MAX_LEN then Some (False, s)
     else let (m, s) = calloc_fs s in
       if \<not> m then Some (False, s)
       else do {
         let d = \<lparr>i_length = len, magic = INODE_MAGIC, dir = replicate DIR_LEN 0,
                  single_indir = [0, 0], double_indir = 0\<rparr>;
         let index = cdiv len 512;
         let (zeros, s) = calloc_sect s;
         (d, t1, t2, t2l, s) \<leftarrow> create_indirect w index d s;
         let (cur, s) = calloc_sect s;
         (d, t1, t2, cur, s) \<leftarrow> mfold (create_step w zeros t2l index) [0..index] (d, t1, t2, cur, s);
         s \<leftarrow> create_finish d 0 t1 s;
         s \<leftarrow> create_finish d 1 t2 s;
         s \<leftarrow> fs_buffer_write sec (inode_disk_bytes d) 0 s;
         Some (True, s) } }"

section \<open>Opening, closing and removing\<close>

definition inode_init :: "fsstate \<Rightarrow> fsstate" where
  "inode_init s = s\<lparr>open_inodes := []\<rparr>"

definition inode_reopen :: "nat \<Rightarrow> fsstate \<Rightarrow> (nat \<times> fsstate) option" where
  "inode_reopen ip s =
     (if ip \<noteq> 0 then do { s \<leftarrow> upd_inode ip (\<lambda>i. i\<lparr>open_cnt := open_cnt i + 1\<rparr>) s; Some (ip, s) }
      else Some (ip, s))"

definition inode_get_inumber :: "nat \<Rightarrow> fsstate \<Rightarrow> u32 option" where
  "inode_get_inumber ip s = map_option sector (inodes s ip)"

text \<open>The search of \<open>inode_open\<close> in the list of open inodes.\<close>

fun find_inode :: "fsstate \<Rightarrow> u32 \<Rightarrow> nat list \<Rightarrow> nat option option" where
  "find_inode s sec [] = Some None"
| "find_inode s sec (p # ps) = do {
     ino \<leftarrow> inodes s p;
     if sector ino = sec then Some (Some p) else find_inode s sec ps }"

definition inode_open :: "u32 \<Rightarrow> fsstate \<Rightarrow> (nat \<times> fsstate) option" where
  "inode_open sec s = do {
     found \<leftarrow> find_inode s sec (open_inodes s);
     case found of
       Some ip \<Rightarrow> inode_reopen ip s
     | None \<Rightarrow>
         let (m, s) = calloc_fs s in
         if \<not> m then Some (0, s)
         else do {
           let ip = next_ptr s;
           let s = s\<lparr>next_ptr := Suc ip, open_inodes := ip # open_inodes s\<rparr>;
           (bs, s) \<leftarrow> fs_buffer_read sec 0 512 s;
           Some (ip, s\<lparr>inodes := (inodes s)(ip \<mapsto> \<lparr>sector = sec, open_cnt = 1, removed = False,
              deny_write_cnt = 0, data = bytes_inode_disk bs, extend_lock = False\<rparr>)\<rparr>) } }"

text \<open>One round of the loop of \<open>inode_close\<close> that releases the data sectors.\<close>

definition close_step ::
    "writer \<Rightarrow> inode_disk \<Rightarrow> u32 list option \<Rightarrow> u32 list option \<Rightarrow> u32 list option \<Rightarrow> int \<Rightarrow> int
     \<Rightarrow> u32 list option \<times> fsstate \<Rightarrow> (u32 list option \<times> fsstate) option" where
  "close_step w d t1 t2 t2l index i = (\<lambda>(cur, s).
     if i < 123 then do {
       x \<leftarrow> arr_get (dir d) i;
       s \<leftarrow> free_map_release w x 1 s;
       Some (cur, s) }
     else if i < 123 + 512 div 4 then do {
       a \<leftarrow> t1;
       x \<leftarrow> arr_get a (i - 123);
       s \<leftarrow> free_map_release w x 1 s;
       Some (cur, s) }
     else if i < 123 + 2 * 512 div 4 then do {
       a \<leftarrow> t2;
       x \<leftarrow> arr_get a (i - 123 - 512 div 4);
       s \<leftarrow> free_map_release w x 1 s;
       Some (cur, s) }
     else do {
       let index_1st_level = i - 123 - 2 * 512 div 4;
       let tmp_index = cdiv index_1st_level 128;
       let tmp_index2 = cmod index_1st_level 128;
       l \<leftarrow> t2l;
       (cur, s) \<leftarrow> (if tmp_index2 = 0 then do {
            blk \<leftarrow> arr_get l tmp_index;
            _ \<leftarrow> cur;
            (a, s) \<leftarrow> read_sect blk s;
            Some (Some a, s) } else Some (cur, s));
       a \<leftarrow> cur;
       x \<leftarrow> arr_get a tmp_index2;
       s \<leftarrow> free_map_release w x 1 s;
       s \<leftarrow> (if tmp_index2 = 512 div 4 - 1 \<or> i = index then do {
               blk \<leftarrow> arr_get l tmp_index;
               free_map_release w blk 1 s }
             else Some s);
       Some (cur, s) })"

text \<open>The release of an index block: read it, then free its sector.\<close>

definition close_index :: "writer \<Rightarrow> u32 \<Rightarrow> fsstate \<Rightarrow> (u32 list option \<times> fsstate) option" where
  "close_index w blk s = (let (t, s) = calloc_sect s in do {
     _ \<leftarrow> t;
     (a, s) \<leftarrow> read_sect blk s;
     s \<leftarrow> free_map_release w blk 1 s;
     Some (Some a, s) })"

definition close_release :: "writer \<Rightarrow> inode \<Rightarrow> fsstate \<Rightarrow> fsstate option" where
  "close_release w ino s = do {
     s \<leftarrow> free_map_release w (sector ino) 1 s;
     let d = data ino;
     let index = cdiv (i_length d) 512;
     (t1, s) \<leftarrow> (if index \<ge> 123 then do {
         b \<leftarrow> arr_get (single_indir d) 0; close_index w b s } else Some (None, s));
     (t2, s) \<leftarrow> (if index \<ge> 123 + 512 div 4 then do {
         b \<leftarrow> arr_get (single_indir d) 1; close_index w b s } else Some (None, s));
     (t2l, s) \<leftarrow> (if index \<ge> 123 + 2 * 512 div 4 then close_index w (double_indir d) s
         else Some (None, s));
     let (cur, s) = calloc_sect s;
     (cur, s) \<leftarrow> mfold (close_step w d t1 t2 t2l index) [0..index] (cur, s);
     Some s }"

definition inode_close :: "writer \<Rightarrow> nat \<Rightarrow> fsstate \<Rightarrow> fsstate option" where
  "inode_close w ip s =
     (if ip = 0 then Some s
      else do {
        s \<leftarrow> upd_inode ip (\<lambda>i. i\<lparr>open_cnt := open_cnt i - 1\<rparr>) s;
        ino \<leftarrow> inodes s ip;
        if open_cnt ino = 0 then do {
          let s = s\<lparr>open_inodes := remove1 ip (open_inodes s)\<rparr>;
          s \<leftarrow> (if removed ino then close_release w ino s else Some s);
          Some (s\<lparr>inodes := (inodes s)(ip := None)\<rparr>) }
        else Some s })"

definition inode_remove :: "nat \<Rightarrow> fsstate \<Rightarrow> fsstate option" where
  "inode_remove ip s = upd_inode ip (\<lambda>i. i\<lparr>removed := True\<rparr>) s"

definition inode_deny_write :: "nat \<Rightarrow> fsstate \<Rightarrow> fsstate option" where
  "inode_deny_write ip s = do {
     s \<leftarrow> upd_inode ip (\<lambda>i. i\<lparr>deny_write_cnt := deny_write_cnt i + 1\<rparr>) s;
     ino \<leftarrow> inodes s ip;
     kassert (deny_write_cnt ino \<le> open_cnt ino);
     Some s }"

definition inode_allow_write :: "nat \<Rightarrow> fsstate \<Rightarrow> fsstate option" where
  "inode_allow_write ip s = do {
     ino \<leftarrow> inodes s ip;
     kassert (deny_write_cnt ino > 0);
     kassert (deny_write_cnt ino \<le> open_cnt ino);
     upd_inode ip (\<lambda>i. i\<lparr>deny_write_cnt := deny_write_cnt i - 1\<rparr>) s }"

end
