(* ===== verification/Inode_Write.thy ===== *)
theory Inode_Write
  imports Inode
begin

text \<open>
  Writing inside the length of a file: the bytes of the file after the loop of
  \<open>inode_write_at\<close>, the sectors it touches, and the write-through of the free map to its
  own file.  The facts on single sectors are those of the interpretation \<open>bc\<close> of the
  sector store on the buffer cache.
\<close>

section \<open>Frames\<close>

text \<open>A step that changes the contents of the sectors in \<open>X\<close> only.\<close>

definition wrote :: "fsstate \<Rightarrow> fsstate \<Rightarrow> u32 set \<Rightarrow> bool" where
  "wrote s s' X \<longleftrightarrow> fs_ok s' \<and> sec_ok s' = sec_ok s \<and> (\<forall>x. x \<notin> X \<longrightarrow> fsview s' x = fsview s x) \<and>
     fs_device s' = fs_device s \<and> mem_ok s' = mem_ok s \<and> next_ptr s' = next_ptr s \<and>
     inodes s' = inodes s \<and> open_inodes s' = open_inodes s \<and> free_map s' = free_map s \<and>
     free_map_file s' = free_map_file s"

lemma reads_wrote: "reads s s' \<Longrightarrow> wrote s s' X"
  by (simp add: reads_def wrote_def)

lemma wrote_trans: "wrote s s' X \<Longrightarrow> wrote s' s'' Y \<Longrightarrow> X \<subseteq> Z \<Longrightarrow> Y \<subseteq> Z \<Longrightarrow> wrote s s'' Z"
  by (simp add: wrote_def) (metis subset_iff)

lemma wrote_fields:
  assumes "wrote s s' X"
  shows "fs_ok s'" "sec_ok s' = sec_ok s" "inodes s' = inodes s" "open_inodes s' = open_inodes s"
    "free_map s' = free_map s" "free_map_file s' = free_map_file s" "fs_device s' = fs_device s"
    "inode_length ip s' = inode_length ip s" "next_ptr s' = next_ptr s" "mem_ok s' = mem_ok s"
  using assms by (simp_all add: wrote_def inode_length_def)

text \<open>The cached sectors of the file system device.\<close>

definition hot :: "fsstate \<Rightarrow> u32 \<Rightarrow> bool" where
  "hot s x \<longleftrightarrow> resident (bc s) (fs_device s) x"

lemma fs_buffer_write_ok:
  assumes "fs_ok s" "sec_ok s x" "ofs + length bs \<le> 512"
  obtains s' d where "fs_buffer_write x bs (int ofs) s = Some s'" "wrote s s' {x}"
    "fsview s' x = buf_put ofs bs d" "length d = 512" "hot s x \<longrightarrow> d = fsview s x" "hot s' x"
    "hot s x \<longrightarrow> (\<forall>y. hot s y \<longrightarrow> hot s' y)"
proof -
  obtain b d where b: "buffer_write (fs_device s) x bs ofs (bc s) = Some b" "buf_ok b"
    "sector_ok b = sector_ok (bc s)" "resident b (fs_device s) x"
    "resident (bc s) (fs_device s) x \<longrightarrow> (\<forall>b' x'. resident (bc s) b' x' \<longrightarrow> resident b b' x')"
    "length d = BLOCK_SECTOR_SIZE" "resident (bc s) (fs_device s) x \<longrightarrow> d = view (bc s) (fs_device s) x"
    "view b = upd (view (bc s)) (fs_device s) x (buf_put ofs bs d)"
    using bc.wr_law [of "bc s" "fs_device s" x ofs bs] assms
    by (auto simp: fs_ok_def sec_ok_def BLOCK_SECTOR_SIZE_def)
  have "wrote s (s\<lparr>bc := b\<rparr>) {x}"
    using assms(1) b by (auto simp: wrote_def fs_ok_def fsview_def sec_ok_def upd_apply)
  with b that [of "s\<lparr>bc := b\<rparr>" d] show ?thesis
    by (simp add: fs_buffer_write_def hot_def fsview_def upd_apply BLOCK_SECTOR_SIZE_def)
qed

section \<open>Stability of the index\<close>

text \<open>
  The data sectors of a file are pairwise different and none of them is an index block.
\<close>

definition sep :: "(u32 \<Rightarrow> byte list) \<Rightarrow> inode_disk \<Rightarrow> nat \<Rightarrow> bool" where
  "sep v d n \<longleftrightarrow> inj_on (index_sector v d) {..<n} \<and>
     (\<forall>i < n. \<forall>j < n. index_sector v d i \<notin> set (index_blocks v d j))"

definition data_sectors :: "(u32 \<Rightarrow> byte list) \<Rightarrow> inode_disk \<Rightarrow> nat \<Rightarrow> u32 set" where
  "data_sectors v d n = index_sector v d ` {..<n}"

lemma index_stable:
  assumes "\<forall>x \<in> set (index_blocks v d i). v' x = v x"
  shows "index_sector v' d i = index_sector v d i" "index_blocks v' d i = index_blocks v d i"
  using assms by (auto simp: index_blocks_def index_sector_def split: if_splits)

lemma wrote_index:
  assumes "wrote s s' X" "X \<subseteq> data_sectors (fsview s) d n" "sep (fsview s) d n" "i < n"
  shows "index_sector (fsview s') d i = index_sector (fsview s) d i"
    "index_blocks (fsview s') d i = index_blocks (fsview s) d i"
proof -
  have "\<forall>x \<in> set (index_blocks (fsview s) d i). fsview s' x = fsview s x"
    using assms by (auto simp: wrote_def sep_def data_sectors_def)
  then show "index_sector (fsview s') d i = index_sector (fsview s) d i"
    "index_blocks (fsview s') d i = index_blocks (fsview s) d i"
    using index_stable by blast+
qed

lemma wrote_layout:
  assumes "wrote s s' X" "X \<subseteq> data_sectors (fsview s) d n" "sep (fsview s) d n" "layout_ok s d n"
  shows "layout_ok s' d n" "sep (fsview s') d n"
    "data_sectors (fsview s') d n = data_sectors (fsview s) d n"
proof -
  note eq = wrote_index [OF assms(1-3)]
  show "layout_ok s' d n" using assms(4) eq wrote_fields(2) [OF assms(1)] by (simp add: layout_ok_def)
  show ds: "data_sectors (fsview s') d n = data_sectors (fsview s) d n"
    using eq by (simp add: data_sectors_def)
  show "sep (fsview s') d n"
    using assms(3) eq by (auto simp: sep_def inj_on_def)
qed

section \<open>One chunk\<close>

text \<open>
  A chunk may be written without loss if its sector is cached, or if it starts the sector
  and reaches the sector's end or the end of the file.
\<close>

definition chunk_safe :: "fsstate \<Rightarrow> u32 \<Rightarrow> nat \<Rightarrow> nat \<Rightarrow> nat \<Rightarrow> bool" where
  "chunk_safe s x p c len \<longleftrightarrow> hot s x \<or> (p mod 512 = 0 \<and> (c = 512 \<or> p + c = len))"

lemma same_sector:
  assumes "q div 512 = p div (512::nat)"
  shows "p \<le> q \<and> q < p + c \<longleftrightarrow> p mod 512 \<le> q mod 512 \<and> q mod 512 < p mod 512 + c"
    "p \<le> q \<Longrightarrow> q - p = q mod 512 - p mod 512"
proof -
  have "p = 512 * (p div 512) + p mod 512" "q = 512 * (p div 512) + q mod 512"
    using assms by (metis mult_div_mod_eq)+
  then show "p \<le> q \<and> q < p + c \<longleftrightarrow> p mod 512 \<le> q mod 512 \<and> q mod 512 < p mod 512 + c"
    "p \<le> q \<Longrightarrow> q - p = q mod 512 - p mod 512" by linarith+
qed

lemma write_chunk:
  assumes ok: "fs_ok s" "layout_ok s d n" "sep (fsview s) d n" and i: "p div 512 < n"
    and c: "p mod 512 + length bs \<le> 512"
    and safe: "chunk_safe s (index_sector (fsview s) d (p div 512)) p (length bs) len"
  obtains s' where "fs_buffer_write (index_sector (fsview s) d (p div 512)) bs (int (p mod 512)) s = Some s'"
    "wrote s s' {index_sector (fsview s) d (p div 512)}"
    "\<And>q. q div 512 < n \<Longrightarrow> q < len \<Longrightarrow> file_byte (fsview s') d q =
       (if p \<le> q \<and> q < p + length bs then bs ! (q - p) else file_byte (fsview s) d q)"
    "hot s (index_sector (fsview s) d (p div 512)) \<longrightarrow> (\<forall>y. hot s y \<longrightarrow> hot s' y)"
proof -
  let ?v = "fsview s" and ?x = "index_sector (fsview s) d (p div 512)"
  have x: "sec_ok s ?x" using ok(2) i by (simp add: layout_ok_def)
  obtain s' dd where w: "fs_buffer_write ?x bs (int (p mod 512)) s = Some s'" "wrote s s' {?x}"
    "fsview s' ?x = buf_put (p mod 512) bs dd" "length dd = 512" "hot s ?x \<longrightarrow> dd = ?v ?x"
    "hot s ?x \<longrightarrow> (\<forall>y. hot s y \<longrightarrow> hot s' y)"
    using fs_buffer_write_ok [OF ok(1) x c] .
  have sub: "{?x} \<subseteq> data_sectors ?v d n" using i by (auto simp: data_sectors_def)
  note idx = wrote_index [OF w(2) sub ok(3)]
  have "file_byte (fsview s') d q =
      (if p \<le> q \<and> q < p + length bs then bs ! (q - p) else file_byte ?v d q)"
    if q: "q div 512 < n" "q < len" for q
  proof (cases "q div 512 = p div 512")
    case False
    then have "index_sector ?v d (q div 512) \<noteq> ?x"
      using ok(3) q(1) i by (auto simp: sep_def inj_on_def)
    then have "file_byte (fsview s') d q = file_byte ?v d q"
      using idx(1) [OF q(1)] w(2) by (simp add: file_byte_def wrote_def)
    moreover have "\<not> (p \<le> q \<and> q < p + length bs)"
    proof
      assume a: "p \<le> q \<and> q < p + length bs"
      have "p div 512 \<le> q div 512" using a by (simp add: div_le_mono)
      moreover have "q < 512 * (p div 512) + 512" using a c mult_div_mod_eq [of 512 p] by linarith
      ultimately show False using False by linarith
    qed
    ultimately show ?thesis by auto
  next
    case True
    have len: "length (?v ?x) = 512" using fsview_length [OF ok(1) x] .
    have put: "fsview s' ?x ! (q mod 512) = (if p mod 512 \<le> q mod 512 \<and> q mod 512 < p mod 512 + length bs
        then bs ! (q mod 512 - p mod 512) else dd ! (q mod 512))"
      using c w(3,4) by (simp add: nth_buf_put)
    have rest: "dd ! (q mod 512) = ?v ?x ! (q mod 512)" if "\<not> (p \<le> q \<and> q < p + length bs)"
    proof (cases "hot s ?x")
      case False
      then have al: "p mod 512 = 0" "length bs = 512 \<or> p + length bs = len"
        using safe by (auto simp: chunk_safe_def)
      have "p \<le> q" using al(1) True by (metis div_mult_mod_eq add.right_neutral div_times_less_eq_dividend)
      moreover have "q < p + 512"
        using al(1) True mult_div_mod_eq [of 512 q] mult_div_mod_eq [of 512 p] by linarith
      ultimately show ?thesis using that al(2) q(2) by auto
    qed (use w(5) in simp)
    have fb: "file_byte (fsview s') d q = fsview s' ?x ! (q mod 512)"
      using idx(1) [OF q(1)] True by (simp add: file_byte_def)
    show ?thesis
    proof (cases "p \<le> q \<and> q < p + length bs")
      case in_chunk: True
      then have "q - p = q mod 512 - p mod 512"
        "p mod 512 \<le> q mod 512 \<and> q mod 512 < p mod 512 + length bs"
        using same_sector [OF True] by blast+
      with in_chunk show ?thesis using fb put by simp
    next
      case out: False
      then have "\<not> (p mod 512 \<le> q mod 512 \<and> q mod 512 < p mod 512 + length bs)"
        using same_sector(1) [OF True] by blast
      then have "fsview s' ?x ! (q mod 512) = dd ! (q mod 512)" using put by auto
      then show ?thesis using fb rest [OF out] out True by (auto simp: file_byte_def)
    qed
  qed
  with w that show ?thesis by blast
qed

section \<open>The loop\<close>

lemma byte_to_sector_direct:
  assumes "inodes s ip = Some ino" "length (dir (data ino)) = DIR_LEN" "p div 512 < 123" "int p < len"
  shows "byte_to_sector_helper ip (int p) len s =
    Some (index_sector (fsview s) (data ino) (p div 512), s)"
proof -
  have "cdiv (int p) 512 = int (p div 512)" by (simp add: cdiv_nonneg zdiv_int)
  with assms show ?thesis
    by (simp add: byte_to_sector_helper_def arr_get_ok DIR_LEN_def index_sector_def)
qed

text \<open>
  The writes that lose nothing: all sectors touched are cached and direct, or the write
  starts at a sector boundary and ends at one or at the end of the file.
\<close>

definition hot_range :: "fsstate \<Rightarrow> inode_disk \<Rightarrow> nat \<Rightarrow> nat \<Rightarrow> bool" where
  "hot_range s d p q \<longleftrightarrow> (\<forall>i. p div 512 \<le> i \<and> 512 * i < q \<longrightarrow> hot s (index_sector (fsview s) d i))"

definition write_safe :: "fsstate \<Rightarrow> inode_disk \<Rightarrow> nat \<Rightarrow> nat \<Rightarrow> nat \<Rightarrow> bool" where
  "write_safe s d p sz len \<longleftrightarrow> sz = 0 \<or> (len \<le> 512 * 123 \<and> hot_range s d p (p + sz)) \<or>
     (p mod 512 = 0 \<and> ((p + sz) mod 512 = 0 \<or> p + sz = len))"

lemma inode_write_loop_ok:
  assumes "fs_ok s" "inodes s ip = Some ino" "length (dir (data ino)) = DIR_LEN"
    "length (single_indir (data ino)) = 2" "layout_ok s (data ino) n" "sep (fsview s) (data ino) n"
    "\<forall>q < len. q div 512 < n" "p + sz \<le> len" "len \<le> 8582656" "k + sz \<le> length bs"
    "write_safe s (data ino) p sz len"
  shows "\<exists>s'. inode_write_loop ip bs (int len) (int sz) (int p) (int k) s = Some (int (k + sz), s') \<and>
    wrote s s' (data_sectors (fsview s) (data ino) n) \<and>
    (\<forall>q < len. file_byte (fsview s') (data ino) q =
       (if p \<le> q \<and> q < p + sz then bs ! (k + (q - p)) else file_byte (fsview s) (data ino) q))"
  using assms
proof (induction sz arbitrary: p k s rule: less_induct)
  case (less sz)
  let ?d = "data ino" and ?v = "fsview s"
  let ?x = "index_sector ?v ?d (p div 512)"
  show ?case
  proof (cases "sz = 0")
    case True
    then show ?thesis
      using less.prems(1) by (auto simp: inode_write_loop.simps intro: reads_wrote)
  next
    case False
    define c where "c = min sz (512 - p mod 512)"
    have c: "0 < c" "c \<le> sz" "p mod 512 + c \<le> 512" "p < len" "p + c \<le> len"
      using False less.prems(8) by (auto simp: c_def min_def)
    have i: "p div 512 < n" using less.prems(7) c(4) by simp
    obtain s1 where s1: "byte_to_sector_helper ip (int p) (int len) s = Some (?x, s1)" "reads s s1"
      "len \<le> 512 * 123 \<longrightarrow> s1 = s"
    proof (cases "len \<le> 512 * 123")
      case True
      then have "p div 512 < 123" using c(4) by (simp add: less_mult_imp_div_less)
      then show ?thesis
        using that [of s] byte_to_sector_direct [OF less.prems(2,3)] c(4) reads_refl [OF less.prems(1)]
        by simp
    next
      case False
      then show ?thesis
        using byte_to_sector_helper_ok [OF less.prems(1-5) i, of "int len"] c(4) that by auto
    qed
    note r1 = reads_simps [OF s1(2)]
    let ?bs = "buf_get k c bs"
    have lb: "length ?bs = c" using less.prems(10) c(2) by simp
    have safe: "chunk_safe s1 ?x p c len"
    proof (cases "len \<le> 512 * 123 \<and> hot_range s ?d p (p + sz)")
      case True
      have "512 * (p div 512) < p + sz" using c(1,2) by (meson div_times_less_eq_dividend
        le_less_trans less_add_same_cancel1 less_le_trans mult.commute times_div_less_eq_dividend)
      then show ?thesis using True s1(3) by (auto simp: chunk_safe_def hot_range_def)
    next
      case notb: False
      then have a: "p mod 512 = 0" "(p + sz) mod 512 = 0 \<or> p + sz = len"
        using less.prems(11) False by (auto simp: write_safe_def)
      have "c = 512 \<or> p + c = len"
      proof (cases "sz < 512")
        case True
        then have "(p + sz) mod 512 = sz" using a(1) by (metis mod_add_left_eq add_0 mod_less)
        with a(2) False True c_def a(1) show ?thesis by auto
      qed (use a(1) in \<open>simp add: c_def\<close>)
      then show ?thesis using a(1) by (simp add: chunk_safe_def)
    qed
    obtain s2 where s2: "fs_buffer_write ?x ?bs (int (p mod 512)) s1 = Some s2" "wrote s1 s2 {?x}"
      "\<And>q. q div 512 < n \<Longrightarrow> q < len \<Longrightarrow> file_byte (fsview s2) ?d q =
         (if p \<le> q \<and> q < p + c then ?bs ! (q - p) else file_byte ?v ?d q)"
      "hot s1 ?x \<longrightarrow> (\<forall>y. hot s1 y \<longrightarrow> hot s2 y)"
      using write_chunk [OF r1(1), of ?d n p ?bs len, unfolded r1(2,9) lb,
          OF less.prems(5,6) i c(3) safe] by metis
    have w2: "wrote s s2 {?x}" using wrote_trans [OF reads_wrote [OF s1(2)] s2(2)] by blast
    note f2 = wrote_fields [OF w2]
    have sub: "{?x} \<subseteq> data_sectors ?v ?d n" using i by (auto simp: data_sectors_def)
    note lay2 = wrote_layout [OF w2 sub less.prems(6,5)]
    have safe2: "write_safe s2 ?d (p + c) (sz - c) len"
    proof (cases "len \<le> 512 * 123 \<and> hot_range s ?d p (p + sz)")
      case True
      then have "hot s ?x" using c(1,2)
        by (auto simp: hot_range_def intro!: less_le_trans [OF _ add_left_mono] le_less_trans [OF times_div_less_eq_dividend])
      then have keep: "\<forall>y. hot s y \<longrightarrow> hot s2 y" using s1(3) s2(4) True by simp
      have "hot s2 (index_sector (fsview s2) ?d j)" if j: "(p + c) div 512 \<le> j" "512 * j < p + sz" for j
      proof -
        have "j < n" using j(2) less.prems(7) [rule_format, of "512 * j"] less.prems(8) by simp
        moreover have "p div 512 \<le> j" using j(1) by (meson div_le_mono le_add1 le_trans)
        ultimately show ?thesis
          using True j(2) keep wrote_index(1) [OF w2 sub less.prems(6)] by (auto simp: hot_range_def)
      qed
      then show ?thesis using True c(2) by (simp add: write_safe_def hot_range_def)
    next
      case notb: False
      then have a: "p mod 512 = 0" "(p + sz) mod 512 = 0 \<or> p + sz = len"
        using less.prems(11) False by (auto simp: write_safe_def)
      have "sz - c = 0 \<or> (p + c) mod 512 = 0"
        using a(1) by (auto simp: c_def min_def mod_add_eq)
      then show ?thesis using a(2) c(2) by (auto simp: write_safe_def)
    qed
    obtain s3 where s3: "inode_write_loop ip bs (int len) (int (sz - c)) (int (p + c)) (int (k + c)) s2 =
        Some (int (k + c + (sz - c)), s3)" "wrote s2 s3 (data_sectors (fsview s2) ?d n)"
      "\<forall>q < len. file_byte (fsview s3) ?d q = (if p + c \<le> q \<and> q < p + c + (sz - c)
         then bs ! (k + c + (q - (p + c))) else file_byte (fsview s2) ?d q)"
      using less.IH [of "sz - c" s2 "p + c" "k + c"] safe2 lay2 f2 c less.prems by auto
    have "inode_write_loop ip bs (int len) (int sz) (int p) (int k) s = Some (int (k + sz), s3)"
    proof -
      have ofs: "cmod (int p) 512 = int (p mod 512)" by (simp add: cmod_nonneg zmod_int)
      have wrp: "i32 (int len - int p) = int (len - p)"
        using less.prems(9) c(4) by (subst i32_id) (auto simp: of_nat_diff)
      have ch: "(if int sz < (if int (len - p) < 512 - int (p mod 512) then int (len - p)
          else 512 - int (p mod 512)) then int sz else
          (if int (len - p) < 512 - int (p mod 512) then int (len - p)
          else 512 - int (p mod 512))) = int c"
        using less.prems(8) c by (auto simp: c_def min_def)
      have "nat (int k) + nat (int c) \<le> length bs" using less.prems(10) c(2) by simp
      then show ?thesis
        using False s1(1) s2(1) s3(1) c(1,2)
        by (subst inode_write_loop.simps)
          (simp add: Let_def ofs wrp ch [unfolded of_nat_less_iff] of_nat_diff)
    qed
    moreover have "wrote s s3 (data_sectors ?v ?d n)"
      using wrote_trans [OF w2 s3(2) sub] lay2(3) by simp
    moreover have "file_byte (fsview s3) ?d q =
       (if p \<le> q \<and> q < p + sz then bs ! (k + (q - p)) else file_byte ?v ?d q)" if "q < len" for q
    proof -
      have "q div 512 < n" using less.prems(7) that by blast
      then show ?thesis using s3(3) s2(3) [of q] that c(2) less.prems(10)
        by (auto simp: nth_buf_get)
    qed
    ultimately show ?thesis by blast
  qed
qed

section \<open>A write inside the file\<close>

text \<open>
  What a write below the end of the file needs: a well-formed inode whose sector is
  apart from the file's own sectors, and a write that loses nothing.
\<close>

definition inode_ok :: "fsstate \<Rightarrow> inode \<Rightarrow> bool" where
  "inode_ok s ino \<longleftrightarrow> di_ok (data ino) \<and> sec_ok s (sector ino) \<and>
     layout_ok s (data ino) (sectors_of (i_length (data ino))) \<and>
     sep (fsview s) (data ino) (sectors_of (i_length (data ino))) \<and>
     (\<forall>i < sectors_of (i_length (data ino)).
        sector ino \<notin> set (index_sector (fsview s) (data ino) i # index_blocks (fsview s) (data ino) i))"

text \<open>The bytes of a file, as a list.\<close>

definition fbytes :: "(u32 \<Rightarrow> byte list) \<Rightarrow> inode_disk \<Rightarrow> byte list" where
  "fbytes v d = map (file_byte v d) [0..<nat (i_length d)]"

lemma length_fbytes [simp]: "length (fbytes v d) = nat (i_length d)"
  by (simp add: fbytes_def)

lemma extend_noop:
  assumes "inodes s ip = Some ino" "\<not> extend_lock ino" "0 \<le> ofs" "0 \<le> sz"
    "ofs + sz \<le> i_length (data ino)" "i_length (data ino) < 2 ^ 31"
  shows "inode_extend_length w ip sz ofs s = Some s"
proof -
  have "i32 (ofs + sz) = ofs + sz" using assms(3-6) by (intro i32_id) auto
  moreover have "ino\<lparr>extend_lock := False\<rparr> = ino" using assms(2) by simp
  ultimately show ?thesis
    using assms by (simp add: inode_extend_length_def upd_inode_def inode_length_def fun_upd_idem)
qed

text \<open>After the write the length is written back to the inode and to its sector.\<close>

lemma write_inside:
  assumes ok: "fs_ok s" "inodes s ip = Some ino" "inode_ok s ino" "deny_write_cnt ino = 0"
      "\<not> extend_lock ino"
    and rng: "p + length bs \<le> nat (i_length (data ino))"
    and safe: "write_safe s (data ino) p (length bs) (nat (i_length (data ino)))"
  obtains s' where "inode_write_body w ip bs (int (length bs)) (int p) s = Some (int (length bs), s')"
    "wrote s s' (insert (sector ino) (data_sectors (fsview s) (data ino) (sectors_of (i_length (data ino)))))"
    "fbytes (fsview s') (data ino) = buf_put p bs (fbytes (fsview s) (data ino))"
    "fsview s' (sector ino) = inode_disk_bytes (data ino)"
proof -
  let ?d = "data ino" and ?v = "fsview s"
  define len where "len = nat (i_length ?d)"
  define n where "n = sectors_of (i_length ?d)"
  have di: "di_ok ?d" using ok(3) by (simp add: inode_ok_def)
  then have len: "i_length ?d = int len" "len \<le> 8582656"
    by (auto simp: di_ok_def len_def MAX_LEN_eq)
  have n: "\<forall>q < len. q div 512 < n"
    using sectors_of_bound [of "i_length ?d"] len(1) by (simp add: n_def)
  have lay: "layout_ok s ?d n" "sep ?v ?d n" using ok(3) by (simp_all add: inode_ok_def n_def)
  have dl: "length (dir ?d) = DIR_LEN" "length (single_indir ?d) = 2"
    using di by (simp_all add: di_ok_def)
  have rng': "p + length bs \<le> len" and safe': "write_safe s ?d p (length bs) len"
    using rng safe by (simp_all add: len_def)
  have "\<exists>s'. inode_write_loop ip bs (int len) (int (length bs)) (int p) (int 0) s =
      Some (int (0 + length bs), s') \<and> wrote s s' (data_sectors ?v ?d n) \<and>
    (\<forall>q < len. file_byte (fsview s') ?d q =
       (if p \<le> q \<and> q < p + length bs then bs ! (0 + (q - p)) else file_byte ?v ?d q))"
    by (rule inode_write_loop_ok [OF ok(1,2) dl lay n rng' len(2) _ safe']) simp
  then obtain s1 where s1: "inode_write_loop ip bs (int len) (int (length bs)) (int p) 0 s =
      Some (int (length bs), s1)" "wrote s s1 (data_sectors ?v ?d n)"
    "\<forall>q < len. file_byte (fsview s1) ?d q =
       (if p \<le> q \<and> q < p + length bs then bs ! (q - p) else file_byte ?v ?d q)"
    by auto
  note f1 = wrote_fields [OF s1(2)]
  note idx = wrote_index [OF s1(2) subset_refl lay(2)]
  have sx: "sec_ok s1 (sector ino)" using ok(3) f1(2) by (simp add: inode_ok_def)
  obtain s2 dd where s2: "fs_buffer_write (sector ino) (inode_disk_bytes ?d) (int 0) s1 = Some s2"
    "wrote s1 s2 {sector ino}" "fsview s2 (sector ino) = buf_put 0 (inode_disk_bytes ?d) dd"
    "length dd = 512"
    using fs_buffer_write_ok [OF f1(1) sx, of 0 "inode_disk_bytes ?d"] length_inode_disk_bytes [OF di]
    by (metis BLOCK_SECTOR_SIZE_def add_0 order_refl)
  have "inode_write_body w ip bs (int (length bs)) (int p) s = Some (int (length bs), s2)"
  proof -
    have ext: "inode_extend_length w ip (int (length bs)) (int p) s = Some s"
    proof (rule extend_noop [OF ok(2,5)])
      show "int p + int (length bs) \<le> i_length ?d" using rng' len(1) by linarith
      show "i_length ?d < 2 ^ 31" using len by simp
    qed simp_all
    have nl: "i32 (int (length bs) + int p) = int (length bs) + int p"
      using rng' len by (intro i32_id) simp_all
    have le: "int (length bs) + int p \<le> int len" using rng' by simp
    have upd: "upd_data ip (\<lambda>d. Some (d\<lparr>i_length := int len\<rparr>)) s1 = Some s1"
      using ok(2) f1(3) len(1) by (simp add: upd_data_def fun_upd_idem)
    show ?thesis
      using ok(2,4) ext nl le len s1(1) upd s2(1) f1(3)
      by (simp add: inode_write_body_def Let_def inode_length_def MAX_LEN_eq)
  qed
  moreover have "wrote s s2 (insert (sector ino) (data_sectors ?v ?d n))"
    using wrote_trans [OF s1(2) s2(2)] by blast
  moreover have "fsview s2 (sector ino) = inode_disk_bytes ?d"
    using s2(3,4) length_inode_disk_bytes [OF di] by (simp add: buf_put_full BLOCK_SECTOR_SIZE_def)
  moreover have "fbytes (fsview s2) ?d = buf_put p bs (fbytes ?v ?d)"
  proof (rule nth_equalityI)
    fix q
    assume "q < length (fbytes (fsview s2) ?d)"
    then have q: "q < len" "q div 512 < n" using n by (simp_all add: len_def)
    have na: "sector ino \<notin> set (index_sector ?v ?d (q div 512) # index_blocks ?v ?d (q div 512))"
      using ok(3) q(2) by (simp add: inode_ok_def n_def)
    have v2: "fsview s2 x = fsview s1 x" if "x \<noteq> sector ino" for x
      using s2(2) that by (simp add: wrote_def)
    have "\<forall>x \<in> set (index_blocks (fsview s1) ?d (q div 512)). fsview s2 x = fsview s1 x"
      using v2 na idx(2) [OF q(2)] by (metis list.set_intros(2))
    then have "index_sector (fsview s2) ?d (q div 512) = index_sector (fsview s1) ?d (q div 512)"
      by (rule index_stable)
    moreover have "index_sector ?v ?d (q div 512) \<noteq> sector ino" using na by auto
    ultimately have "file_byte (fsview s2) ?d q = file_byte (fsview s1) ?d q"
      using idx(1) [OF q(2)] v2 by (simp add: file_byte_def)
    then show "fbytes (fsview s2) ?d ! q = buf_put p bs (fbytes ?v ?d) ! q"
      using s1(3) q(1) rng' by (simp add: fbytes_def nth_buf_put len(1))
  qed (use rng in simp)
  ultimately show ?thesis using that by (simp add: n_def)
qed

lemma inode_ok_wrote:
  assumes "inode_ok s ino"
    and w: "wrote s s' (insert (sector ino)
      (data_sectors (fsview s) (data ino) (sectors_of (i_length (data ino)))))"
  shows "inode_ok s' ino"
proof -
  let ?d = "data ino" and ?v = "fsview s"
  let ?n = "sectors_of (i_length ?d)"
  have blk: "\<forall>x \<in> set (index_blocks ?v ?d i). fsview s' x = ?v x" if "i < ?n" for i
  proof
    fix x
    assume x: "x \<in> set (index_blocks ?v ?d i)"
    have "x \<noteq> sector ino" "x \<notin> data_sectors ?v ?d ?n"
      using assms(1) that x by (auto simp: inode_ok_def sep_def data_sectors_def)
    then show "fsview s' x = ?v x" using w by (simp add: wrote_def)
  qed
  have "index_sector (fsview s') ?d i = index_sector ?v ?d i"
    "index_blocks (fsview s') ?d i = index_blocks ?v ?d i" if "i < ?n" for i
    using index_stable [OF blk [OF that]] by simp_all
  then show ?thesis
    using assms(1) wrote_fields(2) [OF w]
    by (auto simp: inode_ok_def layout_ok_def sep_def inj_on_def)
qed

lemma inode_write_at_body: "inode_write_at = inode_write_body (inode_write_lvl 2)"
  by (simp add: inode_write_at_def numeral_3_eq_3 numeral_2_eq_2)

lemma inode_read_at_fbytes:
  assumes "fs_ok s" "inodes s ip = Some ino" "inode_ok s ino" "p + n \<le> nat (i_length (data ino))"
  shows "\<exists>s'. inode_read_at ip (int n) (int p) s = Some (buf_get p n (fbytes (fsview s) (data ino)), s') \<and>
    reads s s'"
proof -
  have di: "di_ok (data ino)" and lay: "layout_ok s (data ino) (sectors_of (i_length (data ino)))"
    using assms(3) by (simp_all add: inode_ok_def)
  have lim: "int p < 2 ^ 31"
    using assms(4) di unfolding di_ok_def MAX_LEN_eq by simp linarith
  have "buf_get p n (fbytes (fsview s) (data ino)) = map (file_byte (fsview s) (data ino)) [p..<p + n]"
    using assms(4) by (simp add: buf_get_def fbytes_def drop_map take_map)
  then show ?thesis
    using inode_read_loop_ok [OF assms(1,2) di lay lim, of "int n"] assms(2,4)
    by (simp add: inode_read_at_def inode_length_def min_def)
qed

section \<open>The sample file\<close>

lemma sample_inode_ok: "inode_ok sample_fs sample_inode"
proof -
  have two: "i = 0 \<or> i = 1" if "i < 2" for i :: nat using that by auto
  have n: "sectors_of 600 = 2" by (simp add: sectors_of_def)
  have idx: "index_sector v sample_di 0 = 10" "index_sector v sample_di 1 = 11"
    "i < 2 \<Longrightarrow> index_blocks v sample_di i = []" for v i
    by (simp_all add: index_sector_def index_blocks_def sample_di_def)
  have "sep (fsview sample_fs) sample_di 2"
    using idx by (auto simp: sep_def inj_on_def dest!: two)
  then show ?thesis
    using sample_fs_ok idx sample_layout [of 2]
    by (auto simp: inode_ok_def n sample_inode_def sample_sec_ok dest!: two)
qed

lemma sample_write_ok:
  "fs_ok sample_fs" "inodes sample_fs 3 = Some sample_inode" "inode_ok sample_fs sample_inode"
  "deny_write_cnt sample_inode = 0" "\<not> extend_lock sample_inode"
  "0 + length (replicate 600 (1::byte)) \<le> nat (i_length (data sample_inode))"
  "write_safe sample_fs (data sample_inode) 0 (length (replicate 600 (1::byte)))
     (nat (i_length (data sample_inode)))"
  using sample_fs_ok sample_inode_ok by (simp_all add: sample_inode_def write_safe_def)

section \<open>Claims\<close>





text \<open>
  While writes to an inode are denied (the file of a running program), a write
  reports that nothing was written and changes nothing at all.
\<close>

theorem inode_write_at_denied:
  assumes "inodes s ip = Some ino" "deny_write_cnt ino \<noteq> 0"
  shows "inode_write_at ip bs sz ofs s = Some (0, s)"
  using assms by (simp add: inode_write_at_body inode_write_body_def)

theorem inode_write_at_denied_witness:
  "inode_write_at 3 [1, 2] 2 0 (sample_fs\<lparr>inodes := [3 \<mapsto> sample_inode\<lparr>deny_write_cnt := 1\<rparr>]\<rparr>) =
   Some (0, sample_fs\<lparr>inodes := [3 \<mapsto> sample_inode\<lparr>deny_write_cnt := 1\<rparr>]\<rparr>)"
  by (rule inode_write_at_denied [of _ _ "sample_inode\<lparr>deny_write_cnt := 1\<rparr>"]) simp_all

end
