(* ===== verification/Slot_Pool.thy ===== *)
theory Slot_Pool
  imports Bitmaps
begin

text \<open>
  The interface of an allocator of runs of slots, with the facts its clients use.  The free
  map of the file system and the page allocator are its instances.
\<close>

text \<open>
  An allocator of runs of numbered slots.  \<open>used\<close> are the slots given out; \<open>take_run\<close>
  returns a free run or reports that there is none; \<open>give_run\<close> takes a run back.
\<close>

locale slot_pool =
  fixes ok :: "'s \<Rightarrow> bool"
    and cap :: "'s \<Rightarrow> nat"
    and used :: "'s \<Rightarrow> nat set"
    and take_run :: "nat \<Rightarrow> 's \<Rightarrow> (nat option \<times> 's) option"
    and give_run :: "nat \<Rightarrow> nat \<Rightarrow> 's \<Rightarrow> 's option"
  assumes take_law: "ok s \<Longrightarrow> \<exists>r s'. take_run n s = Some (r, s') \<and> ok s' \<and> cap s' = cap s \<and>
      (case r of
         None \<Rightarrow> used s' = used s \<and> (\<forall>i. i + n \<le> cap s \<longrightarrow> {i..<i + n} \<inter> used s \<noteq> {})
       | Some i \<Rightarrow> i + n \<le> cap s \<and> {i..<i + n} \<inter> used s = {} \<and> used s' = used s \<union> {i..<i + n})"
    and give_law: "ok s \<Longrightarrow> i + n \<le> cap s \<Longrightarrow> {i..<i + n} \<subseteq> used s \<Longrightarrow>
      \<exists>s'. give_run i n s = Some s' \<and> ok s' \<and> cap s' = cap s \<and> used s' = used s - {i..<i + n}"
begin

text \<open>Two runs given out one after the other do not overlap.\<close>

lemma takes_disjoint:
  assumes "ok s" "take_run n s = Some (Some i, s1)" "take_run m s1 = Some (Some j, s2)"
  shows "{i..<i + n} \<inter> {j..<j + m} = {}"
proof -
  have "ok s1" "used s1 = used s \<union> {i..<i + n}" using take_law [OF assms(1), of n] assms(2) by auto
  moreover from this(1) have "{j..<j + m} \<inter> used s1 = {}" using take_law [of s1 m] assms(3) by auto
  ultimately show ?thesis by blast
qed

text \<open>Giving a run back makes the slots in use what they were.\<close>

lemma take_give:
  assumes "ok s" "take_run n s = Some (Some i, s1)"
  shows "\<exists>s2. give_run i n s1 = Some s2 \<and> ok s2 \<and> used s2 = used s"
proof -
  have t: "ok s1" "cap s1 = cap s" "i + n \<le> cap s" "{i..<i + n} \<inter> used s = {}"
    "used s1 = used s \<union> {i..<i + n}"
    using take_law [OF assms(1), of n] assms(2) by auto
  then have "\<exists>s2. give_run i n s1 = Some s2 \<and> ok s2 \<and> cap s2 = cap s1 \<and> used s2 = used s1 - {i..<i + n}"
    by (intro give_law) auto
  with t(4,5) show ?thesis by blast
qed

text \<open>An allocation of one slot fails only when all slots are in use.\<close>

lemma take_one_fails:
  assumes "ok s" "take_run 1 s = Some (None, s1)" "i < cap s"
  shows "i \<in> used s"
proof -
  have "\<forall>i. i + 1 \<le> cap s \<longrightarrow> {i..<i + 1} \<inter> used s \<noteq> {}"
    using take_law [OF assms(1), of 1] assms(2) by auto
  with assms(3) have "{i..<i + 1} \<inter> used s \<noteq> {}" by simp
  then show ?thesis by auto
qed

end

end
