(* ===== verification/FreeMap.thy ===== *)
theory FreeMap
  imports Inode_Write Slot_Pool
begin

text \<open>
  The free map as an allocator of sectors: what allocating and releasing change in memory
  and on disk, that it is an allocator of runs in the sense of \<open>Slot_Pool\<close>, and the depth
  of the recursion between the free map and the inodes.
\<close>

section \<open>The free map file\<close>

lemma byte_cnt_exact:
  assumes "bm_ok b"
  shows "byte_cnt (bit_cnt b) = 4 * length (bits b)"
proof -
  have "elem_cnt (bit_cnt b) \<le> 2 ^ 27"
    using assms by (simp add: bm_ok_def elem_cnt_exact less_mult_imp_div_less Suc_leI less_imp_le)
  then show ?thesis using assms by (simp add: byte_cnt_def bm_ok_def)
qed

text \<open>
  The free map is well formed and its file is open, writable, and as long as the bitmap.
\<close>

definition fm_ok :: "fsstate \<Rightarrow> file_s \<Rightarrow> inode \<Rightarrow> bool" where
  "fm_ok s f ino \<longleftrightarrow> fs_ok s \<and> bm_ok (free_map s) \<and> free_map_file s = Some f \<and>
     inodes s (finode f) = Some ino \<and> inode_ok s ino \<and> deny_write_cnt ino = 0 \<and>
     \<not> extend_lock ino \<and> i_length (data ino) = int (byte_cnt (bit_cnt (free_map s)))"

text \<open>The file holds the bitmap.\<close>

definition fm_saved :: "fsstate \<Rightarrow> inode \<Rightarrow> bool" where
  "fm_saved s ino \<longleftrightarrow> fbytes (fsview s) (data ino) = u32s_bytes (bits (free_map s))"

definition fm_sectors :: "fsstate \<Rightarrow> inode \<Rightarrow> u32 set" where
  "fm_sectors s ino = insert (sector ino)
     (data_sectors (fsview s) (data ino) (sectors_of (i_length (data ino))))"

lemma free_map_update [simp]:
  "fs_ok (s\<lparr>free_map := m\<rparr>) = fs_ok s" "fsview (s\<lparr>free_map := m\<rparr>) = fsview s"
  "sec_ok (s\<lparr>free_map := m\<rparr>) = sec_ok s" "inode_ok (s\<lparr>free_map := m\<rparr>) = inode_ok s"
  "fm_sectors (s\<lparr>free_map := m\<rparr>) = fm_sectors s"
  by (simp_all add: fs_ok_def fsview_def sec_ok_def inode_ok_def [abs_def] layout_ok_def
      fm_sectors_def [abs_def])

lemma bitmap_write_ok:
  assumes fm: "fm_ok s f ino"
  obtains s' where "bitmap_write inode_write_at (free_map s) f s = Some (True, s')"
    "fm_ok s' f ino" "fm_saved s' ino" "free_map s' = free_map s" "wrote s s' (fm_sectors s ino)"
    "fm_sectors s' ino = fm_sectors s ino"
proof -
  let ?bs = "u32s_bytes (bits (free_map s))"
  have ok: "fs_ok s" "inodes s (finode f) = Some ino" "inode_ok s ino" "deny_write_cnt ino = 0"
      "\<not> extend_lock ino" and bm: "bm_ok (free_map s)"
    and len: "i_length (data ino) = int (length ?bs)"
    using fm byte_cnt_exact [of "free_map s"] by (auto simp: fm_ok_def)
  have rng: "0 + length ?bs \<le> nat (i_length (data ino))"
    and safe: "write_safe s (data ino) 0 (length ?bs) (nat (i_length (data ino)))"
    using len by (simp_all add: write_safe_def flip: of_nat_mult)
  obtain s' where s': "inode_write_at (finode f) ?bs (int (length ?bs)) (int 0) s =
      Some (int (length ?bs), s')"
    "fbytes (fsview s') (data ino) = buf_put 0 ?bs (fbytes (fsview s) (data ino))"
    and w: "wrote s s' (fm_sectors s ino)"
    using write_inside [OF ok rng safe] unfolding inode_write_at_body fm_sectors_def by metis
  have iok: "inode_ok s' ino" using inode_ok_wrote [OF ok(3) w [unfolded fm_sectors_def]] .
  have "byte_cnt (bit_cnt (free_map s)) = length ?bs" "int (length ?bs) \<le> MAX_LEN"
    using byte_cnt_exact [OF bm] len ok(3) by (simp_all add: inode_ok_def di_ok_def)
  then have sz: "i32 (int (byte_cnt (bit_cnt (free_map s)))) = int (length ?bs)"
    by (subst i32_id) (simp_all add: MAX_LEN_eq)
  have "bitmap_write inode_write_at (free_map s) f s = Some (True, s')"
    using s'(1) sz by (simp add: bitmap_write_def)
  moreover have fmo: "fm_ok s' f ino"
    using fm w iok by (simp add: fm_ok_def wrote_fields [OF w])
  moreover have "fm_saved s' ino"
    using s'(2) len by (simp add: fm_saved_def buf_put_full wrote_fields [OF w])
  moreover have "fm_sectors s' ino = fm_sectors s ino"
  proof -
    have "index_sector (fsview s') (data ino) i = index_sector (fsview s) (data ino) i"
      if i: "i < sectors_of (i_length (data ino))" for i
    proof (rule index_stable)
      show "\<forall>x \<in> set (index_blocks (fsview s) (data ino) i). fsview s' x = fsview s x"
      proof
        fix x
        assume "x \<in> set (index_blocks (fsview s) (data ino) i)"
        then have "x \<notin> fm_sectors s ino"
          using ok(3) i by (auto simp: inode_ok_def sep_def fm_sectors_def data_sectors_def)
        then show "fsview s' x = fsview s x" using w by (simp add: wrote_def)
      qed
    qed
    then show ?thesis by (auto simp: fm_sectors_def data_sectors_def)
  qed
  ultimately show ?thesis using that w wrote_fields(5) [OF w] by blast
qed

section \<open>Allocating and releasing sectors\<close>

lemma free_map_allocate_ok:
  assumes fm: "fm_ok s f ino"
  obtains (none) "free_map_allocate inode_write_at cnt s = Some (None, s)"
      "\<forall>k. \<not> run_of (free_map s) k cnt False"
    | (some) i s' where "free_map_allocate inode_write_at cnt s = Some (Some (of_nat i), s')"
      "i + cnt \<le> bit_cnt (free_map s)" "run_of (free_map s) i cnt False"
      "\<forall>k < i. \<not> run_of (free_map s) k cnt False" "fm_ok s' f ino" "fm_saved s' ino"
      "bit_cnt (free_map s') = bit_cnt (free_map s)"
      "\<forall>j < bit_cnt (free_map s). marked (free_map s') j =
         (i \<le> j \<and> j < i + cnt \<or> marked (free_map s) j)"
      "\<forall>x. x \<notin> fm_sectors s ino \<longrightarrow> fsview s' x = fsview s x" "fm_sectors s' ino = fm_sectors s ino"
proof -
  have bm: "bm_ok (free_map s)" and fmf: "free_map_file s = Some f" using fm by (simp_all add: fm_ok_def)
  obtain r m where scan: "bitmap_scan_and_flip (free_map s) 0 cnt False = Some (r, m)"
    and fl: "flips_run (free_map s) 0 cnt False r m"
    using bitmap_scan_and_flip_ok [OF bm, of 0 cnt False] by auto
  show ?thesis
  proof (cases "r = BITMAP_ERROR")
    case True
    with scan fl none show ?thesis by (simp add: free_map_allocate_def flips_run_def)
  next
    case False
    have m: "bm_ok m" "bit_cnt m = bit_cnt (free_map s)" "run_of (free_map s) r cnt False"
      "\<forall>k < r. \<not> run_of (free_map s) k cnt False"
      "\<forall>j < bit_cnt (free_map s). marked m j = (r \<le> j \<and> j < r + cnt \<or> marked (free_map s) j)"
      using fl False by (auto simp: flips_run_def)
    have "fm_ok (s\<lparr>free_map := m\<rparr>) f ino" using fm m(1,2) by (simp add: fm_ok_def)
    then obtain s' where s': "bitmap_write inode_write_at m f (s\<lparr>free_map := m\<rparr>) = Some (True, s')"
      "fm_ok s' f ino" "fm_saved s' ino" "free_map s' = m" "wrote (s\<lparr>free_map := m\<rparr>) s' (fm_sectors s ino)"
      "fm_sectors s' ino = fm_sectors s ino"
      using bitmap_write_ok [of "s\<lparr>free_map := m\<rparr>" f ino] by auto
    have "free_map_allocate inode_write_at cnt s = Some (Some (of_nat r), s')"
      using scan False fmf s'(1) by (simp add: free_map_allocate_def)
    with some m s' run_of_fits [OF m(3)] show ?thesis by (simp add: wrote_def)
  qed
qed

lemma free_map_release_ok:
  assumes fm: "fm_ok s f ino" and rng: "i + cnt \<le> bit_cnt (free_map s)"
    and used: "\<forall>j \<in> {i..<i + cnt}. marked (free_map s) j"
  obtains s' where "free_map_release inode_write_at (of_nat i) cnt s = Some s'"
    "fm_ok s' f ino" "fm_saved s' ino" "bit_cnt (free_map s') = bit_cnt (free_map s)"
    "\<forall>j < bit_cnt (free_map s). marked (free_map s') j = (\<not> (i \<le> j \<and> j < i + cnt) \<and> marked (free_map s) j)"
    "\<forall>x. x \<notin> fm_sectors s ino \<longrightarrow> fsview s' x = fsview s x"
proof -
  have bm: "bm_ok (free_map s)" and fmf: "free_map_file s = Some f" using fm by (simp_all add: fm_ok_def)
  have i: "unat (of_nat i :: u32) = i"
    using rng bm by (intro unat_of_nat32) (simp add: bm_ok_def)
  have all: "bitmap_all (free_map s) i cnt = Some True" using bitmap_all_spec [OF bm rng] used by simp
  obtain m where m: "bitmap_set_multiple (free_map s) i cnt False = Some m" "bm_ok m"
    "bit_cnt m = bit_cnt (free_map s)"
    "\<forall>j < bit_cnt (free_map s). marked m j = (if i \<le> j \<and> j < i + cnt then False else marked (free_map s) j)"
    using bitmap_set_multiple_spec [OF bm rng] by blast
  have "fm_ok (s\<lparr>free_map := m\<rparr>) f ino" using fm m(2,3) by (simp add: fm_ok_def)
  then obtain s' where s': "bitmap_write inode_write_at m f (s\<lparr>free_map := m\<rparr>) = Some (True, s')"
    "fm_ok s' f ino" "fm_saved s' ino" "free_map s' = m" "wrote (s\<lparr>free_map := m\<rparr>) s' (fm_sectors s ino)"
    using bitmap_write_ok [of "s\<lparr>free_map := m\<rparr>" f ino] by auto
  have "free_map_release inode_write_at (of_nat i) cnt s = Some s'"
    using i all m(1) fmf s'(1) by (simp add: free_map_release_def)
  with that s' m show ?thesis by (auto simp: wrote_def)
qed

section \<open>The free map is an allocator\<close>

definition fm_take :: "nat \<Rightarrow> fsstate \<Rightarrow> (nat option \<times> fsstate) option" where
  "fm_take n s = map_option (\<lambda>(r, s). (map_option unat r, s)) (free_map_allocate inode_write_at n s)"

definition fm_give :: "nat \<Rightarrow> nat \<Rightarrow> fsstate \<Rightarrow> fsstate option" where
  "fm_give i n s = free_map_release inode_write_at (of_nat i) n s"

definition fm_used :: "fsstate \<Rightarrow> nat set" where
  "fm_used s = {i. i < bit_cnt (free_map s) \<and> marked (free_map s) i}"

definition fm_cap :: "fsstate \<Rightarrow> nat" where
  "fm_cap s = bit_cnt (free_map s)"

definition fm_good :: "fsstate \<Rightarrow> bool" where
  "fm_good s \<longleftrightarrow> (\<exists>f ino. fm_ok s f ino)"

lemma run_of_used:
  "i + n \<le> fm_cap s \<Longrightarrow> run_of (free_map s) i n False \<longleftrightarrow> {i..<i + n} \<inter> fm_used s = {}"
  by (auto simp: run_of_def fm_used_def fm_cap_def)

interpretation fm: slot_pool fm_good fm_cap fm_used fm_take fm_give
proof
  fix s n
  assume "fm_good s"
  then obtain f ino where fm: "fm_ok s f ino" by (auto simp: fm_good_def)
  show "\<exists>r s'. fm_take n s = Some (r, s') \<and> fm_good s' \<and> fm_cap s' = fm_cap s \<and>
      (case r of
         None \<Rightarrow> fm_used s' = fm_used s \<and> (\<forall>i. i + n \<le> fm_cap s \<longrightarrow> {i..<i + n} \<inter> fm_used s \<noteq> {})
       | Some i \<Rightarrow> i + n \<le> fm_cap s \<and> {i..<i + n} \<inter> fm_used s = {} \<and>
           fm_used s' = fm_used s \<union> {i..<i + n})"
  proof (cases rule: free_map_allocate_ok [OF fm, of n])
    case 1
    then show ?thesis
      using \<open>fm_good s\<close> run_of_used [of _ n s] by (auto simp: fm_take_def)
  next
    case (2 i s')
    have "i < 2 ^ 32" using 2(2) fm by (simp add: fm_ok_def bm_ok_def)
    then have "fm_take n s = Some (Some i, s')" using 2(1) by (simp add: fm_take_def unat_of_nat32)
    moreover have "fm_used s' = fm_used s \<union> {i..<i + n}" using 2 by (auto simp: fm_used_def)
    ultimately show ?thesis
      using 2 run_of_used [of i n s] by (auto simp: fm_good_def fm_cap_def)
  qed
next
  fix s i n
  assume a: "fm_good s" "i + n \<le> fm_cap s" "{i..<i + n} \<subseteq> fm_used s"
  then obtain f ino where fm: "fm_ok s f ino" by (auto simp: fm_good_def)
  have rng: "i + n \<le> bit_cnt (free_map s)" "\<forall>j \<in> {i..<i + n}. marked (free_map s) j"
    using a(2,3) by (auto simp: fm_cap_def fm_used_def)
  obtain s' where "free_map_release inode_write_at (of_nat i) n s = Some s'" "fm_ok s' f ino"
    "bit_cnt (free_map s') = bit_cnt (free_map s)"
    "\<forall>j < bit_cnt (free_map s). marked (free_map s') j = (\<not> (i \<le> j \<and> j < i + n) \<and> marked (free_map s) j)"
    using free_map_release_ok [OF fm rng] .
  then show "\<exists>s'. fm_give i n s = Some s' \<and> fm_good s' \<and> fm_cap s' = fm_cap s \<and>
      fm_used s' = fm_used s - {i..<i + n}"
    by (auto simp: fm_give_def fm_good_def fm_cap_def fm_used_def)
qed

section \<open>The depth of the recursion\<close>

text \<open>The states in which the lock of the free map's inode is taken.\<close>

definition fm_locked :: "fsstate \<Rightarrow> bool" where
  "fm_locked s \<longleftrightarrow> (\<exists>f ino. free_map_file s = Some f \<and> inodes s (finode f) = Some ino \<and> extend_lock ino)"

text \<open>Two writers that agree on the free map's file in all states of a set.\<close>

definition agree :: "(fsstate \<Rightarrow> bool) \<Rightarrow> writer \<Rightarrow> writer \<Rightarrow> bool" where
  "agree I w w' \<longleftrightarrow> (\<forall>s f bs sz ofs. I s \<longrightarrow> free_map_file s = Some f \<longrightarrow>
     w (finode f) bs sz ofs s = w' (finode f) bs sz ofs s)"

text \<open>A writer that finds the lock taken changes nothing.\<close>

definition idle :: "writer \<Rightarrow> bool" where
  "idle w \<longleftrightarrow> (\<forall>s f bs sz ofs r. fm_locked s \<longrightarrow> free_map_file s = Some f \<longrightarrow>
     w (finode f) bs sz ofs s = Some r \<longrightarrow> snd r = s)"

lemma body_locked:
  assumes "fm_locked s" "free_map_file s = Some f"
  shows "inode_write_body w (finode f) bs sz ofs s =
    (if deny_write_cnt (the (inodes s (finode f))) \<noteq> 0 \<or> i32 (sz + ofs) > MAX_LEN then Some (0, s) else None)"
  using assms by (auto simp: fm_locked_def inode_write_body_def inode_extend_length_def Let_def)

lemma body_agree_locked: "agree fm_locked (inode_write_body w) (inode_write_body w')"
  by (simp add: agree_def body_locked)

lemma body_idle: "idle (inode_write_body w)"
  by (auto simp: idle_def body_locked split: if_splits)

text \<open>
  Two runs that give the same result and end with the lock still taken; \<open>st\<close> selects the
  state from the result.
\<close>

definition same_run :: "('x \<Rightarrow> fsstate) \<Rightarrow> 'x option \<Rightarrow> 'x option \<Rightarrow> bool" where
  "same_run st m m' \<longleftrightarrow> m = m' \<and> (\<forall>x. m = Some x \<longrightarrow> fm_locked (st x))"

lemma same_run_eq: "same_run st m m' \<Longrightarrow> m = m'"
  by (simp add: same_run_def)

lemma same_run_Some: "fm_locked (st x) \<Longrightarrow> same_run st (Some x) (Some x)"
  by (simp add: same_run_def)

lemma same_run_bind:
  "same_run st m m' \<Longrightarrow> (\<And>x. fm_locked (st x) \<Longrightarrow> same_run st' (k x) (k' x)) \<Longrightarrow>
   same_run st' (Option.bind m k) (Option.bind m' k')"
  by (cases m) (auto simp: same_run_def)

lemma same_run_pair:
  "same_run snd m m' \<Longrightarrow> (\<And>a s. fm_locked s \<Longrightarrow> same_run st' (k a s) (k' a s)) \<Longrightarrow>
   same_run st' (Option.bind m (\<lambda>(a, s). k a s)) (Option.bind m' (\<lambda>(a, s). k' a s))"
  by (cases m) (auto simp: same_run_def)

lemma same_run_pure:
  "(\<And>x. same_run st' (k x) (k' x)) \<Longrightarrow> same_run st' (Option.bind m k) (Option.bind m k')"
  by (cases m) (auto simp: same_run_def)

lemma same_run_if:
  "(b \<Longrightarrow> same_run st m m') \<Longrightarrow> (\<not> b \<Longrightarrow> same_run st n n') \<Longrightarrow>
   same_run st (if b then m else n) (if b then m' else n')"
  by simp

lemma same_run_mfold:
  "(\<And>x y. fm_locked (st y) \<Longrightarrow> same_run st (f x y) (f' x y)) \<Longrightarrow> fm_locked (st y) \<Longrightarrow>
   same_run st (mfold f xs y) (mfold f' xs y)"
proof (induction xs arbitrary: y)
  case Nil
  then show ?case by (simp add: same_run_Some)
next
  case (Cons x xs)
  then show ?case by (auto intro: same_run_bind)
qed

lemma fm_locked_updates [simp]:
  "fm_locked (s\<lparr>bc := b\<rparr>) = fm_locked s" "fm_locked (s\<lparr>mem_n := n\<rparr>) = fm_locked s"
  "fm_locked (s\<lparr>free_map := m\<rparr>) = fm_locked s"
  by (simp_all add: fm_locked_def)

lemma fm_locked_calloc [simp]:
  "fm_locked (snd (calloc_fs s)) = fm_locked s" "fm_locked (snd (calloc_sect s)) = fm_locked s"
  by (simp_all add: calloc_fs_def calloc_sect_def split_beta)

lemma same_run_read:
  assumes "fm_locked s"
  shows "same_run snd (fs_buffer_read x ofs n s) (fs_buffer_read x ofs n s)"
    "same_run snd (read_sect x s) (read_sect x s)"
  using assms by (auto simp: same_run_def fs_buffer_read_def read_sect_def split: bind_splits)

lemma same_run_write:
  assumes "fm_locked s"
  shows "same_run id (fs_buffer_write x bs ofs s) (fs_buffer_write x bs ofs s)"
    "same_run id (write_sect x ws s) (write_sect x ws s)"
    "same_run id (write_buf x a s) (write_buf x a s)"
  using assms
  by (auto simp: same_run_def fs_buffer_write_def write_sect_def write_buf_def split: bind_splits)

lemma same_run_upd_data:
  assumes "fm_locked s"
  shows "same_run id (upd_data ip f s) (upd_data ip f s)"
  using assms by (auto simp: same_run_def upd_data_def fm_locked_def split: bind_splits)

lemma same_run_single:
  assumes "fm_locked s"
  shows "same_run snd (read_single ip k t s) (read_single ip k t s)"
    "same_run id (write_single ip k t s) (write_single ip k t s)"
  unfolding read_single_def write_single_def using assms
  by (intro same_run_pure same_run_pair [OF same_run_read(2)] same_run_Some same_run_write; simp)+

text \<open>
  The functions that grow an inode, run with two writers that agree while the lock is
  taken.
\<close>

definition twin :: "writer \<Rightarrow> writer \<Rightarrow> bool" where
  "twin w w' \<longleftrightarrow> agree fm_locked w w' \<and> idle w"

lemma same_run_allocate:
  assumes tw: "twin w w'" and lock: "fm_locked s"
  shows "same_run snd (free_map_allocate w n s) (free_map_allocate w' n s)"
proof -
  have bw: "bitmap_write w b f t = bitmap_write w' b f t"
    if "fm_locked t" "free_map_file t = Some f" for b f t
    using tw that by (simp add: bitmap_write_def agree_def twin_def)
  have bi: "fm_locked t'"
    if "bitmap_write w' b f (t\<lparr>free_map := m\<rparr>) = Some (r, t')" "fm_locked t" "free_map_file t = Some f"
    for b f t r t' m
  proof -
    have "bitmap_write w b f (t\<lparr>free_map := m\<rparr>) = Some (r, t')"
      using that bw [of "t\<lparr>free_map := m\<rparr>" f b] by simp
    moreover have "fm_locked (t\<lparr>free_map := m\<rparr>)" using that(2) by simp
    ultimately have "t' = t\<lparr>free_map := m\<rparr>"
      using tw that(3) by (auto simp: bitmap_write_def twin_def idle_def Let_def split: bind_splits)
    then show ?thesis using that(2) by simp
  qed
  show ?thesis
    using lock bw
    by (auto simp: same_run_def free_map_allocate_def Let_def split: bind_splits option.splits if_splits
        dest: bi)
qed

lemma same_run_alloc_data:
  assumes "twin w w'" "fm_locked s"
  shows "same_run id (alloc_data w f ip s) (alloc_data w' f ip s)"
  unfolding alloc_data_def
  by (rule same_run_pair [OF same_run_allocate [OF assms]])
    (auto split: option.split intro: same_run_upd_data same_run_Some)

lemma same_run_alloc_arr:
  assumes "twin w w'" "fm_locked s"
  shows "same_run snd (alloc_arr w a i s) (alloc_arr w' a i s)"
  unfolding alloc_arr_def
  by (rule same_run_pair [OF same_run_allocate [OF assms]]) (intro same_run_pure same_run_Some, simp)

lemma same_run_extend_step:
  assumes tw: "twin w w'" and "fm_locked (snd (snd (snd r)))"
  shows "same_run (snd \<circ> snd \<circ> snd) (extend_step w ip z l i r) (extend_step w' ip z l i r)"
proof -
  obtain t1 t2 cur s where r: "r = (t1, t2, cur, s)" by (cases r)
  have lock: "fm_locked s" using assms(2) r by simp
  have pick: "same_run snd (if b then Some (a, t) else read_sect x t) (if b then Some (a, t) else read_sect x t)"
    if "fm_locked t" for b a x t
    using that by (auto intro: same_run_Some same_run_read)
  show ?thesis
    unfolding extend_step_def r prod.case Let_def
    by (intro same_run_if same_run_bind [OF same_run_alloc_data [OF tw lock]]
        same_run_pure same_run_bind [OF same_run_write(3)] same_run_bind [OF same_run_write(2)]
        same_run_pair [OF same_run_alloc_arr [OF tw]] same_run_pair [OF pick] same_run_Some)
      (simp_all add: lock)
qed

lemma same_run_when:
  "(b \<Longrightarrow> same_run st m m') \<Longrightarrow> (\<not> b \<Longrightarrow> fm_locked (st x)) \<Longrightarrow>
   same_run st (if b then m else Some x) (if b then m' else Some x)"
  by (simp add: same_run_Some)

lemma same_run_calloc:
  "fm_locked s \<Longrightarrow> (\<And>c t. fm_locked t \<Longrightarrow> same_run st (k c t) (k' c t)) \<Longrightarrow>
   same_run st (case calloc_sect s of (c, t) \<Rightarrow> k c t) (case calloc_sect s of (c, t) \<Rightarrow> k' c t)"
  using fm_locked_calloc(2) [of s] by (cases "calloc_sect s") simp

lemma same_run_alloc_when:
  assumes "twin w w'" "fm_locked s"
  shows "same_run id (if b then alloc_data w f ip s else Some s) (if b then alloc_data w' f ip s else Some s)"
  using assms by (auto intro: same_run_alloc_data same_run_Some)

lemma same_run_alloc_loop:
  assumes "twin w w'" "fm_locked s"
  shows "same_run snd (mfold (\<lambda>i (l, s). alloc_arr w l i s) is (l, s))
    (mfold (\<lambda>i (l, s). alloc_arr w' l i s) is (l, s))"
  using assms by (intro same_run_mfold) (auto intro: same_run_alloc_arr)

lemma same_run_extend_indirect:
  assumes tw: "twin w w'" and lock: "fm_locked s"
  shows "same_run snd (extend_indirect w ip ni oi t s) (extend_indirect w' ip ni oi t s)"
proof -
  have inner: "same_run snd
      (do { _ \<leftarrow> t; ino \<leftarrow> inodes s ip; (l, s) \<leftarrow> read_sect (double_indir (data ino)) s;
            (l, s) \<leftarrow> mfold (\<lambda>i (l, s). alloc_arr w l i s) is (l, s);
            ino \<leftarrow> inodes s ip; s \<leftarrow> write_sect (double_indir (data ino)) l s; Some (Some l, s) })
      (do { _ \<leftarrow> t; ino \<leftarrow> inodes s ip; (l, s) \<leftarrow> read_sect (double_indir (data ino)) s;
            (l, s) \<leftarrow> mfold (\<lambda>i (l, s). alloc_arr w' l i s) is (l, s);
            ino \<leftarrow> inodes s ip; s \<leftarrow> write_sect (double_indir (data ino)) l s; Some (Some l, s) })"
    if "fm_locked s" for s "is"
    by (rule same_run_pure, rule same_run_pure, rule same_run_pair [OF same_run_read(2) [OF that]],
        rule same_run_pair [OF same_run_alloc_loop [OF tw]], assumption, rule same_run_pure,
        rule same_run_bind [OF same_run_write(2)], assumption) (simp add: same_run_Some)
  show ?thesis
    unfolding extend_indirect_def Let_def
    by (rule same_run_bind [OF same_run_alloc_when [OF tw lock]],
        rule same_run_bind [OF same_run_alloc_when [OF tw]], simp, rule same_run_when,
        rule same_run_bind [OF same_run_alloc_when [OF tw]], simp, rule inner) simp_all
qed

lemma same_run_single_when:
  assumes "fm_locked s"
  shows "same_run snd (if b then read_single ip k t s else Some (t, s)) (if b then read_single ip k t s else Some (t, s))"
    "same_run id (if b then write_single ip k t s else Some s) (if b then write_single ip k t s else Some s)"
  using assms by (auto intro: same_run_single same_run_Some)

lemma same_run_extend_loop:
  assumes "twin w w'" "fm_locked s"
    and "\<And>a b c s. fm_locked s \<Longrightarrow> same_run st (k a b c s) (k' a b c s)"
  shows "same_run st
    (Option.bind (mfold (extend_step w ip z l) is (t1, t2, cur, s)) (\<lambda>(a, b, c, s). k a b c s))
    (Option.bind (mfold (extend_step w' ip z l) is (t1, t2, cur, s)) (\<lambda>(a, b, c, s). k' a b c s))"
proof (rule same_run_bind [where st = "snd \<circ> snd \<circ> snd"])
  show "same_run (snd \<circ> snd \<circ> snd) (mfold (extend_step w ip z l) is (t1, t2, cur, s))
      (mfold (extend_step w' ip z l) is (t1, t2, cur, s))"
    using assms(2) by (intro same_run_mfold same_run_extend_step [OF assms(1)]) simp_all
qed (use assms(3) in auto)

lemma same_run_extend_body:
  assumes tw: "twin w w'" and lock: "fm_locked s"
  shows "same_run id (extend_body w ip nl ol s) (extend_body w' ip nl ol s)"
  unfolding extend_body_def Let_def
  by (rule same_run_calloc [OF lock], rule same_run_calloc, assumption, rule same_run_calloc, assumption,
      rule same_run_calloc, assumption, rule same_run_pair [OF same_run_extend_indirect [OF tw]], assumption,
      rule same_run_pair [OF same_run_single_when(1)], assumption,
      rule same_run_pair [OF same_run_single_when(1)], assumption,
      rule same_run_calloc, assumption, rule same_run_extend_loop [OF tw], assumption,
      rule same_run_bind [OF same_run_single_when(2)], assumption,
      rule same_run_bind [OF same_run_single_when(2)], simp, rule same_run_pure, rule same_run_write(1), simp)

lemma body_twin: "twin (inode_write_body w) (inode_write_body w')"
  by (simp add: twin_def body_agree_locked body_idle)

text \<open>On the free map's own file, two nested calls are enough.\<close>

lemma body_fm_agree: "agree (\<lambda>s. True) (inode_write_body (inode_write_body w)) (inode_write_body (inode_write_body w'))"
proof -
  have "inode_extend_length (inode_write_body w) (finode f) sz ofs s =
      inode_extend_length (inode_write_body w') (finode f) sz ofs s"
    if f: "free_map_file s = Some f" for s f sz ofs
  proof (cases "inodes s (finode f)")
    case None
    then show ?thesis by (simp add: inode_extend_length_def)
  next
    case (Some ino)
    let ?t = "s\<lparr>inodes := (inodes s)(finode f \<mapsto> ino\<lparr>extend_lock := True\<rparr>)\<rparr>"
    have "fm_locked ?t" using f by (auto simp: fm_locked_def)
    then have "extend_body (inode_write_body w) (finode f) nl ol ?t =
        extend_body (inode_write_body w') (finode f) nl ol ?t" for nl ol
      by (intro same_run_eq [OF same_run_extend_body [OF body_twin]])
    with Some show ?thesis by (simp add: inode_extend_length_def upd_inode_def Let_def cong: if_cong)
  qed
  then show ?thesis by (simp add: agree_def inode_write_body_def Let_def cong: if_cong)
qed

text \<open>The functions that only allocate depend on the writer through the free map's file.\<close>

lemma allocate_cong:
  assumes "agree (\<lambda>s. True) w w'"
  shows "free_map_allocate w = free_map_allocate w'"
proof -
  have "bitmap_write w b f s = bitmap_write w' b f s" if "free_map_file s = Some f" for b f s
    using assms that by (simp add: bitmap_write_def agree_def)
  then show ?thesis
    by (intro ext) (auto simp: free_map_allocate_def Let_def split: bind_splits option.splits)
qed

lemma extend_cong:
  assumes "agree (\<lambda>s. True) w w'"
  shows "inode_extend_length w = inode_extend_length w'"
proof -
  note eq = allocate_cong [OF assms]
  have e: "alloc_data w = alloc_data w'" "alloc_arr w = alloc_arr w'"
    unfolding alloc_data_def [abs_def] alloc_arr_def [abs_def] eq by (rule refl)+
  have e2: "extend_step w = extend_step w'" "extend_indirect w = extend_indirect w'"
    unfolding extend_step_def [abs_def] extend_indirect_def [abs_def] e by (rule refl)+
  show ?thesis
    unfolding inode_extend_length_def [abs_def] extend_body_def [abs_def] e2 by (rule refl)
qed

lemma lvl_stable: "inode_write_lvl (n + 3) = inode_write_lvl 3"
proof -
  have "agree (\<lambda>s. True) (inode_write_lvl (n + 2)) (inode_write_lvl 2)"
    using body_fm_agree by (simp add: numeral_2_eq_2)
  then have "inode_write_body (inode_write_lvl (n + 2)) = inode_write_body (inode_write_lvl 2)"
    unfolding inode_write_body_def [abs_def] by (simp only: extend_cong)
  then show ?thesis by (simp add: numeral_3_eq_3 numeral_2_eq_2)
qed

section \<open>A sample free map\<close>

text \<open>The sample file system with an open free map file of 16 bytes in sector 20.\<close>

definition sample_fm_inode :: inode where
  "sample_fm_inode = \<lparr>sector = 0, open_cnt = 1, removed = False, deny_write_cnt = 0,
     data = \<lparr>i_length = 16, magic = INODE_MAGIC, dir = 20 # replicate 122 0,
       single_indir = [0, 0], double_indir = 0\<rparr>, extend_lock = False\<rparr>"

definition sample_fm_file :: file_s where
  "sample_fm_file = \<lparr>finode = 5, pos = 0, deny_write = False\<rparr>"

definition sample_fm :: fsstate where
  "sample_fm = sample_fs\<lparr>inodes := [3 \<mapsto> sample_inode, 5 \<mapsto> sample_fm_inode],
     free_map := \<lparr>bit_cnt = 100, bits = [0x100E03, 0, 0, 0]\<rparr>, free_map_file := Some sample_fm_file\<rparr>"

lemma sample_fm_ok: "fm_ok sample_fm sample_fm_file sample_fm_inode"
proof -
  have v: "fsview sample_fm = fsview sample_fs" "sec_ok sample_fm = sec_ok sample_fs"
    by (simp_all add: fsview_def sec_ok_def sample_fm_def)
  have bm: "bm_ok (free_map sample_fm)" by (simp add: sample_fm_def bm_ok_def elem_cnt_exact)
  have "fs_ok sample_fm" using sample_fs_ok(1) by (simp add: fs_ok_def sample_fm_def)
  moreover have "inode_ok sample_fm sample_fm_inode"
    by (simp add: inode_ok_def sample_fm_inode_def di_ok_def DIR_LEN_def MAX_LEN_eq sectors_of_def v
        sample_sec_ok layout_ok_def sep_def MAX_SECTORS_def index_sector_def index_blocks_def inj_on_def)
  moreover have "byte_cnt (bit_cnt (free_map sample_fm)) = 16"
    using byte_cnt_exact [OF bm] by (simp add: sample_fm_def)
  ultimately show ?thesis
    using bm by (simp add: fm_ok_def) (simp add: sample_fm_def sample_fm_file_def sample_fm_inode_def)
qed

lemma sample_fm_bits: "bit_cnt (free_map sample_fm) = 100" "\<not> marked (free_map sample_fm) 50"
  "\<not> marked (free_map sample_fm) 51" "run_of (free_map sample_fm) 50 1 False"
proof -
  show "bit_cnt (free_map sample_fm) = 100" "\<not> marked (free_map sample_fm) 50"
    "\<not> marked (free_map sample_fm) 51"
    by (simp_all add: sample_fm_def marked_def)
  then show "run_of (free_map sample_fm) 50 1 False"
    by (auto simp: run_of_def less_Suc_eq_le numeral_eq_Suc)
qed

section \<open>Claims\<close>

text \<open>
  C15: allocating sectors gives out the first run of free sectors, marks exactly these as
  used, and writes the free map through to its file, so that the file holds the new
  bitmap; no sector outside the free map's file changes.  If there is no such run the
  allocation is refused and nothing changes.
\<close>

theorem free_map_allocate_first_fit_saved:
  assumes "fm_ok s f ino"
  shows "if \<exists>k. run_of (free_map s) k cnt False
    then \<exists>i s'. free_map_allocate inode_write_at cnt s = Some (Some (of_nat i), s') \<and>
      run_of (free_map s) i cnt False \<and> (\<forall>k < i. \<not> run_of (free_map s) k cnt False) \<and>
      (\<forall>j < bit_cnt (free_map s). marked (free_map s') j = (i \<le> j \<and> j < i + cnt \<or> marked (free_map s) j)) \<and>
      fm_ok s' f ino \<and> fbytes (fsview s') (data ino) = u32s_bytes (bits (free_map s')) \<and>
      (\<forall>x. x \<notin> fm_sectors s ino \<longrightarrow> fsview s' x = fsview s x)
    else free_map_allocate inode_write_at cnt s = Some (None, s)"
proof (cases rule: free_map_allocate_ok [OF assms, of cnt])
  case 1
  then show ?thesis by simp
next
  case (2 i s')
  then have ex: "\<exists>k. run_of (free_map s) k cnt False" by blast
  show ?thesis
    unfolding if_P [OF ex] using 2 by (intro exI [of _ i] exI [of _ s']) (simp add: fm_saved_def)
qed

theorem free_map_allocate_first_fit_saved_witness:
  "\<exists>i s'. free_map_allocate inode_write_at 1 sample_fm = Some (Some (of_nat i), s') \<and>
     marked (free_map s') i \<and> \<not> marked (free_map sample_fm) i"
proof -
  have ex: "\<exists>k. run_of (free_map sample_fm) k 1 False" using sample_fm_bits(4) by blast
  show ?thesis
    using free_map_allocate_first_fit_saved [OF sample_fm_ok, of 1, unfolded if_P [OF ex]]
    by (force simp: run_of_def)
qed

text \<open>C16: two allocations in a row never give out the same sector.\<close>

theorem free_map_allocations_disjoint:
  assumes "fm_ok s f ino"
    and "free_map_allocate inode_write_at n s = Some (Some x, s1)"
    and "free_map_allocate inode_write_at m s1 = Some (Some y, s2)"
  shows "{unat x..<unat x + n} \<inter> {unat y..<unat y + m} = {}"
  using fm.takes_disjoint [of s n "unat x" s1 m "unat y" s2] assms
  by (auto simp: fm_good_def fm_take_def)

theorem free_map_allocations_disjoint_witness:
  "\<exists>x y s1 s2. free_map_allocate inode_write_at 1 sample_fm = Some (Some x, s1) \<and>
     free_map_allocate inode_write_at 1 s1 = Some (Some y, s2) \<and>
     {unat x..<unat x + 1} \<inter> {unat y..<unat y + 1} = {}"
proof (cases rule: free_map_allocate_ok [OF sample_fm_ok, of 1])
  case 1
  then show ?thesis using sample_fm_bits(4) by blast
next
  case (2 i s1)
  have "\<not> marked (free_map s1) (if i = 50 then 51 else 50)"
    using 2(8) sample_fm_bits by simp
  then have run: "run_of (free_map s1) (if i = 50 then 51 else 50) 1 False"
    using 2(7) sample_fm_bits(1) by (auto simp: run_of_def less_Suc_eq_le numeral_eq_Suc)
  show ?thesis
  proof (cases rule: free_map_allocate_ok [OF 2(5), of 1])
    case 1
    then show ?thesis using run by blast
  next
    case second: (2 j s2)
    show ?thesis
      using free_map_allocations_disjoint [OF sample_fm_ok 2(1) second(1)] 2(1) second(1) by blast
  qed
qed

text \<open>
  C17: releasing the sectors that an allocation returned succeeds, passes the assertion that
  they are in use, and leaves exactly the sectors in use that were in use before.
\<close>

theorem free_map_release_undoes_allocate:
  assumes "fm_ok s f ino" and "free_map_allocate inode_write_at n s = Some (Some x, s1)"
  shows "\<exists>s2. free_map_release inode_write_at x n s1 = Some s2 \<and> fm_used s2 = fm_used s"
  using fm.take_give [of s n "unat x" s1] assms
  by (auto simp: fm_good_def fm_take_def fm_give_def)

theorem free_map_release_undoes_allocate_witness:
  "\<exists>x s1 s2. free_map_allocate inode_write_at 1 sample_fm = Some (Some x, s1) \<and>
     free_map_release inode_write_at x 1 s1 = Some s2 \<and> fm_used s2 = fm_used sample_fm"
proof (cases rule: free_map_allocate_ok [OF sample_fm_ok, of 1])
  case 1
  then show ?thesis using sample_fm_bits(4) by blast
next
  case (2 i s1)
  then show ?thesis using free_map_release_undoes_allocate [OF sample_fm_ok 2(1)] by blast
qed


end
