(* ===== verification/Inode_Life.thy ===== *)
theory Inode_Life
  imports FreeMap
begin

text \<open>
  The life of an inode: creation on disk, with the behaviour at the greatest length and
  on a full disk, and the table of open inodes with its reference counts.
\<close>

section \<open>Creation at the greatest length\<close>

lemma alloc_arr_length: "alloc_arr w a i s = Some (a', s') \<Longrightarrow> length a' = length a"
  by (auto simp: alloc_arr_def arr_set_def split: bind_splits option.splits if_splits)

lemma alloc_loop_length:
  "mfold (\<lambda>i (l, s). alloc_arr w l i s) is (l, s) = Some (l', s') \<Longrightarrow> length l' = length l"
proof (induction "is" arbitrary: l s)
  case Nil
  then show ?case by simp
next
  case (Cons i "is")
  then obtain l1 s1 where "alloc_arr w l i s = Some (l1, s1)"
    "mfold (\<lambda>i (l, s). alloc_arr w l i s) is (l1, s1) = Some (l', s')"
    by (auto split: bind_splits)
  then show ?case using Cons.IH alloc_arr_length by metis
qed

text \<open>The last round of the loop indexes entry 128 of a block of 128 entries.\<close>

lemma create_step_overflow:
  assumes "\<And>l. t2l = Some l \<Longrightarrow> length l = 128"
  shows "create_step w zeros t2l 16763 16763 r = None"
proof -
  have "arr_get l 128 = None" if "t2l = Some l" for l
    using assms [OF that] by (simp add: arr_get_def)
  then show ?thesis
    by (cases r) (auto simp: create_step_def Let_def cdiv_def cmod_def split: bind_splits option.splits)
qed

lemma create_loop_overflow:
  assumes "length l = 128"
  shows "mfold (create_step w zeros (Some l) 16763) [0..16763] r = None"
proof -
  have "[0..16763] = [0..16762] @ [16763::int]" by (subst upto_rec2) simp_all
  then show ?thesis
    using create_step_overflow [of "Some l"] assms
    by (simp add: mfold_append del: upto_rec_numeral split: bind_split)
qed

lemma create_indirect_block:
  assumes "create_indirect w 16763 d s = Some (d', t1, t2, t2l, s')"
  shows "\<exists>l. t2l = Some l \<and> length l = 128"
proof -
  obtain s0 l0 s1 l s2 where r: "calloc_sect s0 = (Some l0, s1)"
    "mfold (\<lambda>i (l, s). alloc_arr w l i s) [0..cdiv 16384 128] (l0, s1) = Some (l, s2)" "t2l = Some l"
    using assms by (auto simp: create_indirect_def Let_def split: bind_splits prod.splits)
  have "length l0 = 128" using r(1) by (auto simp: calloc_sect_def split: prod.splits if_splits)
  then show ?thesis using alloc_loop_length [OF r(2)] r(3) by simp
qed

lemma inode_create_overflow:
  assumes "inode_create w sec MAX_LEN s = Some (r, s')"
  shows "r = False"
proof (rule ccontr)
  assume "r \<noteq> False"
  have idx: "cdiv MAX_LEN 512 = 16763" by (simp add: cdiv_nonneg MAX_LEN_eq)
  obtain d d' s1 s2 z t1 t2 t2l r1 where ci: "create_indirect w 16763 d s1 = Some (d', t1, t2, t2l, s2)"
    and loop: "mfold (create_step w z t2l 16763) [0..16763] (d', t1, t2, calloc_sect s2) = Some r1"
    using assms \<open>r \<noteq> False\<close>
    by (auto simp: inode_create_def idx Let_def split: bind_splits if_splits prod.splits)
  obtain l where "t2l = Some l" "length l = 128" using create_indirect_block [OF ci] by blast
  with loop create_loop_overflow [of l] show False by (metis option.distinct(1))
qed

section \<open>Creation on a full disk\<close>

definition disk_full :: "fsstate \<Rightarrow> bool" where
  "disk_full s \<longleftrightarrow> bm_ok (free_map s) \<and> (\<forall>i < bit_cnt (free_map s). marked (free_map s) i)"

lemma allocate_full:
  assumes "disk_full s"
  shows "free_map_allocate w 1 s = Some (None, s)"
proof -
  have bm: "bm_ok (free_map s)" and full: "\<forall>i < bit_cnt (free_map s). marked (free_map s) i"
    using assms by (simp_all add: disk_full_def)
  obtain r m where scan: "bitmap_scan_and_flip (free_map s) 0 1 False = Some (r, m)"
    and fl: "flips_run (free_map s) 0 1 False r m"
    using bitmap_scan_and_flip_ok [OF bm, of 0 1 False] by auto
  have "\<not> run_of (free_map s) k 1 False" for k using full by (auto simp: run_of_def)
  with fl have "r = BITMAP_ERROR" "m = free_map s" by (auto simp: flips_run_def split: if_splits)
  with scan show ?thesis by (simp add: free_map_allocate_def)
qed

lemma disk_full_wrote: "disk_full s \<Longrightarrow> wrote s s' X \<Longrightarrow> disk_full s'"
  by (simp add: disk_full_def wrote_def)

lemma calloc_sect_ok:
  assumes "fs_ok s"
  obtains s' where "calloc_sect s = (Some (replicate 128 0), s')" "reads s s'"
proof -
  obtain s' where "calloc_fs s = (True, s')" "reads s s'" using calloc_fs_ok [OF assms] .
  with that show ?thesis by (simp add: calloc_sect_def)
qed

lemma u32s_bytes_zero: "u32s_bytes (replicate n 0) = replicate (4 * n) 0"
proof (induction n)
  case 0
  then show ?case by simp
next
  case (Suc n)
  have "u32_bytes 0 = replicate 4 0" by (simp add: u32_bytes_def eval_nat_numeral)
  with Suc show ?case by (simp flip: replicate_add)
qed

lemma write_zeros:
  assumes "fs_ok s" "sec_ok s x"
  obtains s' where "write_buf x (Some (replicate 128 0)) s = Some s'" "wrote s s' {x}"
    "fsview s' x = replicate 512 0"
proof -
  have len: "0 + length (replicate 512 (0::byte)) \<le> 512" by simp
  have wb: "write_buf x (Some (replicate 128 0)) s = fs_buffer_write x (replicate 512 0) (int 0) s"
    by (simp add: write_buf_def write_sect_def u32s_bytes_zero)
  obtain s' d where s': "fs_buffer_write x (replicate 512 0) (int 0) s = Some s'" "wrote s s' {x}"
    "fsview s' x = buf_put 0 (replicate 512 0) d" "length d = 512"
    using fs_buffer_write_ok [OF assms len] by metis
  have "buf_put 0 (replicate 512 0) d = replicate 512 0" using s'(4) by (intro buf_put_full) simp
  with s' wb that show ?thesis by metis
qed

text \<open>Each round leaves the entry of the index at zero and clears sector 0.\<close>

lemma create_step_full:
  assumes "fs_ok s" "disk_full s" "sec_ok s 0" "i < 123" "dir d = replicate DIR_LEN 0"
  obtains s' where "create_step w (Some (replicate 128 0)) t2l index (int i) (d, t1, t2, cur, s) =
      Some (d, t1, t2, cur, s')" "wrote s s' {0}" "fsview s' 0 = replicate 512 0"
proof -
  have "arr_get (dir d) (int i) = Some 0" using assms(4,5) by (simp add: arr_get_ok DIR_LEN_def)
  moreover obtain s' where "write_buf 0 (Some (replicate 128 0)) s = Some s'" "wrote s s' {0}"
    "fsview s' 0 = replicate 512 0"
    using write_zeros [OF assms(1,3)] .
  ultimately show ?thesis
    using that allocate_full [OF assms(2)] assms(4) by (simp add: create_step_def alloc_di_def)
qed

lemma create_loop_full:
  assumes "fs_ok s" "disk_full s" "sec_ok s 0" "k < 123" "dir d = replicate DIR_LEN 0"
  shows "\<exists>s'. mfold (create_step w (Some (replicate 128 0)) t2l index) [0..int k] (d, t1, t2, cur, s) =
      Some (d, t1, t2, cur, s') \<and> wrote s s' {0} \<and> fsview s' 0 = replicate 512 0"
proof -
  let ?f = "create_step w (Some (replicate 128 0)) t2l index \<circ> int"
  let ?I = "\<lambda>(i::nat) r. \<exists>s'. r = (d, t1, t2, cur, s') \<and> wrote s s' {0} \<and>
    (i > 0 \<longrightarrow> fsview s' 0 = replicate 512 0)"
  have "\<exists>r. mfold ?f [0..<Suc k] (d, t1, t2, cur, s) = Some r \<and> ?I (Suc k) r"
  proof (rule mfold_range [where I = ?I])
    show "?I 0 (d, t1, t2, cur, s)" using reads_wrote [OF reads_refl [OF assms(1)]] by auto
    fix i r
    assume i: "i < Suc k" and inv: "?I i r"
    then obtain s1 where r: "r = (d, t1, t2, cur, s1)" and w1: "wrote s s1 {0}" by blast
    note f1 = wrote_fields [OF w1]
    have s1: "fs_ok s1" "disk_full s1" "sec_ok s1 0" "i < 123"
      using f1 assms(3,4) i disk_full_wrote [OF assms(2) w1] by auto
    obtain s2 where "create_step w (Some (replicate 128 0)) t2l index (int i) (d, t1, t2, cur, s1) =
        Some (d, t1, t2, cur, s2)" "wrote s1 s2 {0}" "fsview s2 0 = replicate 512 0"
      using create_step_full [OF s1 assms(5)] .
    then show "\<exists>r'. ?f i r = Some r' \<and> ?I (Suc i) r'"
      using r wrote_trans [OF w1 _ subset_refl subset_refl] by auto
  qed simp
  then show ?thesis by (auto simp: upto_map_int mfold_map simp del: upt_Suc)
qed

lemma inode_create_full:
  assumes ok: "fs_ok s" "disk_full s" "sec_ok s 0" "sec_ok s sec" "sec \<noteq> 0"
    and len: "0 \<le> len" "len < 123 * 512"
  shows "\<exists>s'. inode_create w sec len s = Some (True, s') \<and> fsview s' 0 = replicate 512 0 \<and>
    bytes_inode_disk (fsview s' sec) = \<lparr>i_length = len, magic = INODE_MAGIC, dir = replicate DIR_LEN 0,
      single_indir = [0, 0], double_indir = 0\<rparr> \<and> free_map s' = free_map s"
proof -
  define d where "d = \<lparr>i_length = len, magic = INODE_MAGIC, dir = replicate DIR_LEN 0,
      single_indir = [0, 0], double_indir = 0\<rparr>"
  have di: "di_ok d" using len by (simp add: d_def di_ok_def MAX_LEN_eq)
  define k where "k = nat len div 512"
  have k: "cdiv len 512 = int k" "k < 123"
    using len by (simp_all add: k_def cdiv_nonneg zdiv_int less_mult_imp_div_less nat_less_iff)
  obtain s1 where s1: "calloc_fs s = (True, s1)" "reads s s1" using calloc_fs_ok [OF ok(1)] .
  obtain s2 where s2: "calloc_sect s1 = (Some (replicate 128 0), s2)" "reads s1 s2"
    using calloc_sect_ok reads_simps(1) [OF s1(2)] by metis
  obtain s3 where s3: "calloc_sect s2 = (Some (replicate 128 0), s3)" "reads s2 s3"
    using calloc_sect_ok reads_simps(1) [OF s2(2)] by metis
  have r3: "reads s s3" using reads_trans [OF reads_trans [OF s1(2) s2(2)] s3(2)] .
  note f3 = reads_simps [OF r3]
  have "disk_full s3" "sec_ok s3 0" using ok f3 by (simp_all add: disk_full_def)
  then obtain s4 where s4: "mfold (create_step w (Some (replicate 128 0)) None (int k)) [0..int k]
      (d, None, None, Some (replicate 128 0), s3) = Some (d, None, None, Some (replicate 128 0), s4)"
    "wrote s3 s4 {0}" "fsview s4 0 = replicate 512 0"
    using create_loop_full [OF f3(1) _ _ k(2), of d] by (fastforce simp: d_def)
  note f4 = wrote_fields [OF s4(2)]
  have "sec_ok s4 sec" using ok(4) f3 f4 by simp
  then obtain s5 dd where s5: "fs_buffer_write sec (inode_disk_bytes d) (int 0) s4 = Some s5" "wrote s4 s5 {sec}"
    "fsview s5 sec = buf_put 0 (inode_disk_bytes d) dd" "length dd = 512"
    using fs_buffer_write_ok [OF f4(1), of sec 0 "inode_disk_bytes d"] length_inode_disk_bytes [OF di]
    by (metis BLOCK_SECTOR_SIZE_def add_0 order_refl)
  have "inode_create w sec len s = Some (True, s5)"
    using len s1(1) s2(1) s3(1) s4(1) s5(1) k
    by (simp add: inode_create_def create_indirect_def create_finish_def MAX_LEN_eq d_def)
  moreover have "fsview s5 sec = inode_disk_bytes d"
    using s5(3,4) length_inode_disk_bytes [OF di] by (simp add: buf_put_full BLOCK_SECTOR_SIZE_def)
  moreover have "fsview s5 0 = replicate 512 0" using s5(2) s4(3) ok(5) by (simp add: wrote_def)
  moreover have "free_map s5 = free_map s" using f3(6) f4(5) wrote_fields(5) [OF s5(2)] by simp
  ultimately show ?thesis using bytes_inode_disk_bytes [OF di] by (auto simp: d_def)
qed

section \<open>The table of open inodes\<close>

text \<open>
  Each open sector has one in-memory inode, with a positive reference count, and the list
  of open inodes holds exactly the live ones.
\<close>

definition open_ok :: "fsstate \<Rightarrow> bool" where
  "open_ok s \<longleftrightarrow> distinct (open_inodes s) \<and> 0 < next_ptr s \<and>
     (\<forall>p \<in> set (open_inodes s). 0 < p \<and> p < next_ptr s) \<and> dom (inodes s) = set (open_inodes s) \<and>
     (\<forall>p ino. inodes s p = Some ino \<longrightarrow> open_cnt ino > 0) \<and>
     (\<forall>p q i j. inodes s p = Some i \<longrightarrow> inodes s q = Some j \<longrightarrow> sector i = sector j \<longrightarrow> p = q)"

lemma find_inode_ok:
  assumes "set ps \<subseteq> dom (inodes s)"
  shows "\<exists>r. find_inode s sec ps = Some r \<and>
    (case r of
       Some p \<Rightarrow> p \<in> set ps \<and> (\<exists>ino. inodes s p = Some ino \<and> sector ino = sec)
     | None \<Rightarrow> \<forall>p \<in> set ps. \<forall>ino. inodes s p = Some ino \<longrightarrow> sector ino \<noteq> sec)"
  using assms
proof (induction ps)
  case Nil
  then show ?case by simp
next
  case (Cons p ps)
  then obtain ino where "inodes s p = Some ino" by auto
  with Cons show ?case by (auto split: option.splits)
qed

text \<open>The first open reads the inode from its sector, a later one shares it.\<close>

definition fresh_inode :: "fsstate \<Rightarrow> u32 \<Rightarrow> inode" where
  "fresh_inode s sec = \<lparr>sector = sec, open_cnt = 1, removed = False, deny_write_cnt = 0,
     data = bytes_inode_disk (fsview s sec), extend_lock = False\<rparr>"

lemma inode_open_cases:
  assumes ok: "open_ok s" "fs_ok s" "sec_ok s sec"
  obtains (shared) p ino where "inodes s p = Some ino" "sector ino = sec" "p \<noteq> 0"
      "inode_open sec s = Some (p, s\<lparr>inodes := (inodes s)(p \<mapsto> ino\<lparr>open_cnt := open_cnt ino + 1\<rparr>)\<rparr>)"
    | (fresh) s' where "\<forall>p ino. inodes s p = Some ino \<longrightarrow> sector ino \<noteq> sec" "inodes s (next_ptr s) = None"
      "inode_open sec s = Some (next_ptr s, s')" "fsview s' = fsview s" "fs_ok s'"
      "inodes s' = (inodes s)(next_ptr s \<mapsto> fresh_inode s sec)"
      "open_inodes s' = next_ptr s # open_inodes s" "next_ptr s' = Suc (next_ptr s)"
      "sec_ok s' = sec_ok s"
proof -
  have dom: "dom (inodes s) = set (open_inodes s)" using ok(1) by (simp add: open_ok_def)
  then obtain r where fi: "find_inode s sec (open_inodes s) = Some r"
    and r: "case r of
       Some p \<Rightarrow> p \<in> set (open_inodes s) \<and> (\<exists>ino. inodes s p = Some ino \<and> sector ino = sec)
     | None \<Rightarrow> \<forall>p \<in> set (open_inodes s). \<forall>ino. inodes s p = Some ino \<longrightarrow> sector ino \<noteq> sec"
    using find_inode_ok [of "open_inodes s" s sec] by auto
  show ?thesis
  proof (cases r)
    case (Some p)
    then obtain ino where p: "p \<in> set (open_inodes s)" "inodes s p = Some ino" "sector ino = sec"
      using r by auto
    then have "p \<noteq> 0" using ok(1) by (auto simp: open_ok_def)
    with p Some fi shared show ?thesis
      by (simp add: inode_open_def inode_reopen_def upd_inode_def)
  next
    case None
    obtain s1 where s1: "calloc_fs s = (True, s1)" "reads s s1" using calloc_fs_ok [OF ok(2)] .
    note f1 = reads_simps [OF s1(2)]
    define s2 where "s2 = s1\<lparr>next_ptr := Suc (next_ptr s1), open_inodes := next_ptr s1 # open_inodes s1\<rparr>"
    have so: "sec_ok s2 = sec_ok s" using f1(3) by (simp add: s2_def sec_ok_def)
    have s2: "fs_ok s2" "sec_ok s2 sec" "fsview s2 = fsview s"
      using f1 ok(3) so by (simp_all add: s2_def fs_ok_def fsview_def)
    obtain s3 where s3: "fs_buffer_read sec 0 512 s2 = Some (buf_get 0 512 (fsview s2 sec), s3)" "reads s2 s3"
      using fs_buffer_read_ok [OF s2(1,2), of 0 512] by (metis nat_0 nat_numeral order_refl add_0 zero_le_numeral)
    note f3 = reads_simps [OF s3(2)]
    have full: "buf_get 0 512 (fsview s2 sec) = fsview s sec"
      using fsview_length [OF ok(2,3)] s2(3) by (simp add: buf_get_full)
    define s4 where "s4 = s3\<lparr>inodes := (inodes s3)(next_ptr s \<mapsto> fresh_inode s sec)\<rparr>"
    have "inode_open sec s = Some (next_ptr s, s4)"
      using fi None s1(1) s3(1) full f1
      by (simp add: inode_open_def s2_def s4_def fresh_inode_def Let_def)
    moreover have "next_ptr s \<notin> dom (inodes s)"
      using ok(1) by (metis dom less_irrefl open_ok_def)
    moreover have "\<forall>p ino. inodes s p = Some ino \<longrightarrow> sector ino \<noteq> sec"
      using r None dom by (auto dest: domI)
    moreover have "fsview s4 = fsview s" "fs_ok s4"
      using f3(1,2) s2(3) by (simp_all add: s4_def fsview_def fs_ok_def)
    moreover have "inodes s4 = (inodes s)(next_ptr s \<mapsto> fresh_inode s sec)"
      "open_inodes s4 = next_ptr s # open_inodes s" "next_ptr s4 = Suc (next_ptr s)"
      using f1 f3 by (simp_all add: s4_def s2_def)
    moreover have "sec_ok s4 = sec_ok s" using f3(3) so by (simp add: s4_def sec_ok_def)
    ultimately show ?thesis using fresh [of s4] by (simp add: domIff)
  qed
qed

lemma open_ok_open:
  assumes "open_ok s" "fs_ok s" "sec_ok s sec" "inode_open sec s = Some (p, s')"
  shows "open_ok s'"
proof (cases rule: inode_open_cases [OF assms(1-3)])
  case (1 q ino)
  then have s': "s' = s\<lparr>inodes := (inodes s)(q \<mapsto> ino\<lparr>open_cnt := open_cnt ino + 1\<rparr>)\<rparr>"
    using assms(4) by simp
  have "0 < open_cnt ino" "q \<in> set (open_inodes s)" using 1(1) assms(1) by (auto simp: open_ok_def)
  then show ?thesis
    using assms(1) 1(1) unfolding open_ok_def s' by (auto split: if_splits intro: less_imp_le)
next
  case (2 t)
  then have s': "s' = t" using assms(4) by simp
  show ?thesis
    using assms(1) 2 unfolding open_ok_def s' by (auto simp: fresh_inode_def split: if_splits)
qed

text \<open>Closing once what was opened once restores the table.\<close>

lemma open_close:
  assumes ok: "open_ok s" "fs_ok s" "sec_ok s sec" and op: "inode_open sec s = Some (p, s1)"
  shows "\<exists>s2. inode_close w p s1 = Some s2 \<and> inodes s2 = inodes s \<and> open_inodes s2 = open_inodes s"
proof (cases rule: inode_open_cases [OF ok])
  case (1 q ino)
  have "open_cnt ino > 0" using ok(1) 1(1) by (auto simp: open_ok_def)
  moreover have "p = q" "s1 = s\<lparr>inodes := (inodes s)(q \<mapsto> ino\<lparr>open_cnt := open_cnt ino + 1\<rparr>)\<rparr>"
    using op 1(4) by auto
  ultimately show ?thesis
    using 1(1,3) by (simp add: inode_close_def upd_inode_def fun_upd_idem)
next
  case (2 t)
  then have p: "p = next_ptr s" "s1 = t" using op by simp_all
  have pos: "next_ptr s \<noteq> 0" "next_ptr s \<notin> set (open_inodes s)" using ok(1) by (auto simp: open_ok_def)
  then show ?thesis
    using 2(2,6,7) p
    by (simp add: inode_close_def upd_inode_def fresh_inode_def fun_upd_idem)
qed

lemma open_twice:
  assumes ok: "open_ok s" "fs_ok s" "sec_ok s sec" and op: "inode_open sec s = Some (p, s1)"
  shows "\<exists>s2 ino. inodes s1 p = Some ino \<and>
    inode_open sec s1 = Some (p, s2) \<and> inodes s2 = (inodes s1)(p \<mapsto> ino\<lparr>open_cnt := open_cnt ino + 1\<rparr>)"
proof -
  have ok1: "open_ok s1" using open_ok_open [OF ok op] .
  obtain ino where ino: "inodes s1 p = Some ino" "sector ino = sec" "fs_ok s1" "sec_ok s1 sec"
  proof (cases rule: inode_open_cases [OF ok])
    case (1 q i)
    then show ?thesis using op ok that by (simp add: fs_ok_def sec_ok_def)
  next
    case (2 t)
    then show ?thesis using op ok that by (simp add: fresh_inode_def)
  qed
  show ?thesis
  proof (cases rule: inode_open_cases [OF ok1 ino(3,4)])
    case (1 q i)
    then have "q = p" using ok1 ino(1,2) by (auto simp: open_ok_def)
    with 1 ino(1) show ?thesis by simp
  next
    case (2 t)
    then show ?thesis using ino by blast
  qed
qed

section \<open>Claims\<close>


text \<open>
  C20: on a full disk \<open>inode_create\<close> still reports success.  The failed allocations leave the
  sector numbers of the new inode at 0, and the zeros meant for its data are written to
  sector 0, the inode of the free map.
\<close>

theorem inode_create_full_disk_clears_free_map_inode:
  assumes "fs_ok s" "disk_full s" "sec_ok s 0" "sec_ok s sec" "sec \<noteq> 0" "0 \<le> len" "len < 123 * 512"
  shows "\<exists>s'. inode_create w sec len s = Some (True, s') \<and> fsview s' 0 = replicate 512 0 \<and>
    bytes_inode_disk (fsview s' sec) = \<lparr>i_length = len, magic = INODE_MAGIC, dir = replicate DIR_LEN 0,
      single_indir = [0, 0], double_indir = 0\<rparr> \<and> free_map s' = free_map s"
  using inode_create_full [OF assms] .

theorem inode_create_full_disk_clears_free_map_inode_witness:
  "\<exists>s'. inode_create inode_write_at 30 1000 (sample_fs\<lparr>free_map := \<lparr>bit_cnt = 32, bits = [- 1]\<rparr>\<rparr>) = Some (True, s') \<and>
     fsview s' 0 = replicate 512 0"
proof -
  let ?s = "sample_fs\<lparr>free_map := \<lparr>bit_cnt = 32, bits = [- 1]\<rparr>\<rparr>"
  have "disk_full ?s"
    by (simp add: disk_full_def bm_ok_def elem_cnt_exact marked_def)
  moreover have "fs_ok ?s" "sec_ok ?s 0" "sec_ok ?s 30" using sample_fs_ok(1) by (simp_all add: sample_sec_ok)
  ultimately show ?thesis
    using inode_create_full_disk_clears_free_map_inode [of ?s 30 1000 inode_write_at] by auto
qed

text \<open>
  C21: opening a sector that is already open returns the same in-memory inode and counts one
  more opener, and closing an inode once after opening it restores the table of open
  inodes, whether the inode was open before or not.
\<close>

theorem inode_open_shared_and_balanced:
  assumes "open_ok s" "fs_ok s" "sec_ok s sec" "inode_open sec s = Some (p, s1)"
  shows "open_ok s1 \<and>
    (\<exists>s2 ino. inodes s1 p = Some ino \<and> inode_open sec s1 = Some (p, s2) \<and>
       inodes s2 = (inodes s1)(p \<mapsto> ino\<lparr>open_cnt := open_cnt ino + 1\<rparr>)) \<and>
    (\<exists>s2. inode_close w p s1 = Some s2 \<and> inodes s2 = inodes s \<and> open_inodes s2 = open_inodes s)"
  using open_ok_open [OF assms] open_twice [OF assms] open_close [OF assms] by blast

theorem inode_open_shared_and_balanced_witness:
  "\<exists>p s1 s2. inode_open 30 sample_fs = Some (p, s1) \<and> inode_close inode_write_at p s1 = Some s2 \<and>
     inodes s2 = inodes sample_fs"
proof -
  have ok: "open_ok sample_fs" by (auto simp: open_ok_def sample_fs_def sample_inode_def split: if_splits)
  note ok' = ok sample_fs_ok(1) sample_sec_ok [of 30, simplified]
  obtain p s1 where op: "inode_open 30 sample_fs = Some (p, s1)"
    by (rule inode_open_cases [OF ok']) auto
  show ?thesis using inode_open_shared_and_balanced [OF ok' op] op by blast
qed

end
