(* ===== verification/File.thy ===== *)
theory File
  imports Inode_Life
begin

text \<open>
  Open files, \<open>filesys/file.c\<close>, and the part of the free map that works on its file:
  \<open>bitmap_read\<close> of \<open>lib/kernel/bitmap.c\<close> and the opening, creation and closing of
  \<open>filesys/free-map.c\<close>.  A null \<open>struct file *\<close> is \<^term>\<open>None\<close>.
\<close>

section \<open>Open files\<close>

definition file_open :: "nat \<Rightarrow> fsstate \<Rightarrow> (file_s option \<times> fsstate) option" where
  "file_open ip s = (let (m, s) = calloc_fs s in
     if ip \<noteq> 0 \<and> m then Some (Some \<lparr>finode = ip, pos = 0, deny_write = False\<rparr>, s)
     else do { s \<leftarrow> inode_close inode_write_at ip s; Some (None, s) })"

definition file_reopen :: "file_s \<Rightarrow> fsstate \<Rightarrow> (file_s option \<times> fsstate) option" where
  "file_reopen f s = do { (ip, s) \<leftarrow> inode_reopen (finode f) s; file_open ip s }"

definition file_get_inode :: "file_s \<Rightarrow> nat" where
  "file_get_inode f = finode f"

definition file_deny_write :: "file_s \<Rightarrow> fsstate \<Rightarrow> (file_s \<times> fsstate) option" where
  "file_deny_write f s =
     (if \<not> deny_write f then do {
        let f = f\<lparr>deny_write := True\<rparr>;
        s \<leftarrow> inode_deny_write (finode f) s;
        Some (f, s) }
      else Some (f, s))"

definition file_allow_write :: "file_s \<Rightarrow> fsstate \<Rightarrow> (file_s \<times> fsstate) option" where
  "file_allow_write f s =
     (if deny_write f then do {
        let f = f\<lparr>deny_write := False\<rparr>;
        s \<leftarrow> inode_allow_write (finode f) s;
        Some (f, s) }
      else Some (f, s))"

definition file_close :: "file_s option \<Rightarrow> fsstate \<Rightarrow> fsstate option" where
  "file_close f s = (case f of
       None \<Rightarrow> Some s
     | Some f \<Rightarrow> do {
         (f, s) \<leftarrow> file_allow_write f s;
         inode_close inode_write_at (finode f) s })"

text \<open>Reading returns the bytes put into the buffer; their number is the C result.\<close>

definition file_read :: "file_s \<Rightarrow> int \<Rightarrow> fsstate \<Rightarrow> (byte list \<times> file_s \<times> fsstate) option" where
  "file_read f sz s = do {
     (bs, s) \<leftarrow> inode_read_at (finode f) sz (pos f) s;
     Some (bs, f\<lparr>pos := i32 (pos f + int (length bs))\<rparr>, s) }"

definition file_read_at :: "file_s \<Rightarrow> int \<Rightarrow> int \<Rightarrow> fsstate \<Rightarrow> (byte list \<times> fsstate) option" where
  "file_read_at f sz file_ofs s = inode_read_at (finode f) sz file_ofs s"

definition file_write :: "file_s \<Rightarrow> byte list \<Rightarrow> int \<Rightarrow> fsstate \<Rightarrow> (int \<times> file_s \<times> fsstate) option" where
  "file_write f bs sz s = do {
     (n, s) \<leftarrow> inode_write_at (finode f) bs sz (pos f) s;
     Some (n, f\<lparr>pos := i32 (pos f + n)\<rparr>, s) }"

definition file_write_at :: "file_s \<Rightarrow> byte list \<Rightarrow> int \<Rightarrow> int \<Rightarrow> fsstate \<Rightarrow> (int \<times> fsstate) option" where
  "file_write_at f bs sz file_ofs s = inode_write_at (finode f) bs sz file_ofs s"

definition file_length :: "file_s \<Rightarrow> fsstate \<Rightarrow> int option" where
  "file_length f s = inode_length (finode f) s"

definition file_seek :: "file_s \<Rightarrow> int \<Rightarrow> file_s option" where
  "file_seek f new_pos = do { kassert (new_pos \<ge> 0); Some (f\<lparr>pos := new_pos\<rparr>) }"

definition file_tell :: "file_s \<Rightarrow> int" where
  "file_tell f = pos f"

section \<open>The free map file\<close>

definition bitmap_read :: "bitmap \<Rightarrow> file_s \<Rightarrow> fsstate \<Rightarrow> (bool \<times> bitmap \<times> fsstate) option" where
  "bitmap_read b f s =
     (if bit_cnt b > 0 then do {
        let sz = i32 (int (byte_cnt (bit_cnt b)));
        (bs, s) \<leftarrow> file_read_at f sz 0 s;
        let bits' = bytes_u32s (buf_put 0 bs (u32s_bytes (bits b)));
        let last = elem_cnt (bit_cnt b) - 1;
        kassert (last < length bits');
        Some (int (length bs) = sz,
              b\<lparr>bits := bits'[last := bits' ! last AND last_mask b]\<rparr>, s) }
      else Some (True, b, s))"

text \<open>The elements that \<open>malloc\<close> returns for the bitmap are a parameter.\<close>

definition free_map_init :: "u32 list option \<Rightarrow> fsstate \<Rightarrow> fsstate option" where
  "free_map_init mem s = do {
     let (m, s) = calloc_fs s;
     b \<leftarrow> bitmap_create m mem (unat (bsize (devs (bc s) (fs_device s))));
     b \<leftarrow> b;
     b \<leftarrow> bitmap_mark b 0;
     b \<leftarrow> bitmap_mark b 1;
     Some (s\<lparr>free_map := b\<rparr>) }"

definition free_map_open :: "fsstate \<Rightarrow> fsstate option" where
  "free_map_open s = do {
     (ip, s) \<leftarrow> inode_open 0 s;
     (f, s) \<leftarrow> file_open ip s;
     let s = s\<lparr>free_map_file := f\<rparr>;
     f \<leftarrow> f;
     (ok, b, s) \<leftarrow> bitmap_read (free_map s) f s;
     kassert ok;
     Some (s\<lparr>free_map := b\<rparr>) }"

definition free_map_close :: "fsstate \<Rightarrow> fsstate option" where
  "free_map_close s = file_close (free_map_file s) s"

definition free_map_create :: "fsstate \<Rightarrow> fsstate option" where
  "free_map_create s = do {
     (ok, s) \<leftarrow> inode_create inode_write_at 0 (i32 (int (bitmap_file_size (free_map s)))) s;
     kassert ok;
     (ip, s) \<leftarrow> inode_open 0 s;
     (f, s) \<leftarrow> file_open ip s;
     let s = s\<lparr>free_map_file := f\<rparr>;
     f \<leftarrow> f;
     (ok, s) \<leftarrow> bitmap_write inode_write_at (free_map s) f s;
     kassert ok;
     Some s }"

section \<open>The free map comes back from its file\<close>

lemma div_round_up:
  fixes n :: nat
  assumes "n mod 32 \<noteq> 0"
  shows "(n + 31) div 32 = Suc (n div 32)"
proof -
  have "n mod 32 < 32" by simp
  then have "(n mod 32 + 31) div 32 = 1" using assms by (intro div_nat_eqI, linarith, simp)
  moreover have "n + 31 = (n mod 32 + 31) + n div 32 * 32" by simp
  ultimately show ?thesis by (metis div_mult_self1 add.commute plus_1_eq_Suc zero_neq_numeral)
qed

lemma last_mask_bit:
  assumes "bm_ok b" "j < bit_cnt b" "j div 32 = elem_cnt (bit_cnt b) - 1"
  shows "bit (last_mask b) (j mod 32)"
proof -
  have e: "elem_cnt (bit_cnt b) = (bit_cnt b + 31) div 32"
    using assms(1) by (simp add: bm_ok_def elem_cnt_exact)
  show ?thesis
  proof (cases "bit_cnt b mod 32 = 0")
    case True
    then show ?thesis by (simp add: last_mask_def ELEM_BITS_def)
  next
    case False
    then have "(bit_cnt b + 31) div 32 = Suc (bit_cnt b div 32)"
      by (rule div_round_up)
    then have "j div 32 = bit_cnt b div 32" using assms(3) e by simp
    then have "j mod 32 < bit_cnt b mod 32"
      using assms(2) div_mult_mod_eq [of j 32] div_mult_mod_eq [of "bit_cnt b" 32] by linarith
    then show ?thesis
      using False by (simp add: last_mask_def ELEM_BITS_def bit_mask_iff flip: mask_eq_exp_minus_1)
  qed
qed

lemma bitmap_read_saved:
  assumes fm: "fm_ok s f ino" and saved: "fm_saved s ino"
    and b: "bm_ok b" "bit_cnt b = bit_cnt (free_map s)" "bit_cnt b > 0"
  shows "\<exists>b' s'. bitmap_read b f s = Some (True, b', s') \<and> bm_ok b' \<and> bit_cnt b' = bit_cnt b \<and>
    (\<forall>j < bit_cnt b. marked b' j = marked (free_map s) j) \<and> reads s s'"
proof -
  let ?n = "length (bits (free_map s))"
  have bm: "bm_ok (free_map s)" and ok: "fs_ok s" "inodes s (finode f) = Some ino" "inode_ok s ino"
    and len: "i_length (data ino) = int (byte_cnt (bit_cnt (free_map s)))"
    using fm by (simp_all add: fm_ok_def)
  have bytes: "byte_cnt (bit_cnt b) = 4 * ?n" "length (bits b) = ?n"
    using byte_cnt_exact [OF bm] b bm by (simp_all add: bm_ok_def)
  have "4 * int ?n \<le> MAX_LEN"
    using len bytes b(2) ok(3) by (simp add: inode_ok_def di_ok_def)
  then have sz: "i32 (int (byte_cnt (bit_cnt b))) = int (4 * ?n)"
    using bytes by (subst i32_id) (simp_all add: MAX_LEN_eq)
  have "0 + 4 * ?n \<le> nat (i_length (data ino))" using len bytes b(2) by simp
  from inode_read_at_fbytes [OF ok this] saved len bytes b(2)
  obtain s' where rd: "inode_read_at (finode f) (int (4 * ?n)) (int 0) s =
      Some (u32s_bytes (bits (free_map s)), s')" "reads s s'"
    by (auto simp: fm_saved_def buf_get_full)
  have ws: "bytes_u32s (buf_put 0 (u32s_bytes (bits (free_map s))) (u32s_bytes (bits b))) = bits (free_map s)"
    using bytes(2) by (simp add: buf_put_full)
  define l where "l = elem_cnt (bit_cnt b) - 1"
  have l: "l < ?n" using b bm bytes by (simp add: l_def bm_ok_def elem_cnt_exact)
  define b' where "b' = b\<lparr>bits := (bits (free_map s))[l := bits (free_map s) ! l AND last_mask b]\<rparr>"
  have "bitmap_read b f s = Some (True, b', s')"
    using b(3) sz rd(1) ws l bytes(2)
    by (simp add: bitmap_read_def file_read_at_def b'_def l_def Let_def)
  moreover have "bm_ok b'" "bit_cnt b' = bit_cnt b" using b bytes by (simp_all add: b'_def bm_ok_def)
  moreover have "marked b' j = marked (free_map s) j" if "j < bit_cnt b" for j
    using last_mask_bit [OF b(1) that] l
    by (auto simp: marked_def b'_def l_def nth_list_update bit_and_iff)
  ultimately show ?thesis using rd(2) by blast
qed

section \<open>Claims\<close>

text \<open>
  C22: the free map survives a reload.  After an allocation the file of the free map holds
  the bitmap, and reading it back into any bitmap of the same size succeeds and gives the
  same set of used sectors.
\<close>

theorem free_map_reload_roundtrip:
  assumes "fm_ok s f ino" and "free_map_allocate inode_write_at n s = Some (Some x, s1)"
    and "bm_ok b" "bit_cnt b = bit_cnt (free_map s)" "bit_cnt b > 0"
  shows "\<exists>b' s2. bitmap_read b f s1 = Some (True, b', s2) \<and> bm_ok b' \<and>
    (\<forall>j < bit_cnt b. marked b' j = marked (free_map s1) j)"
proof (cases rule: free_map_allocate_ok [OF assms(1), of n])
  case 1
  then show ?thesis using assms(2) by simp
next
  case (2 i s')
  then have "s' = s1" using assms(2) by simp
  with 2 assms(3-5) show ?thesis
    using bitmap_read_saved [of s1 f ino b] by auto
qed

theorem free_map_reload_roundtrip_witness:
  "\<exists>x s1 b' s2. free_map_allocate inode_write_at 1 sample_fm = Some (Some x, s1) \<and>
     bitmap_read \<lparr>bit_cnt = 100, bits = [1, 2, 3, 4]\<rparr> sample_fm_file s1 = Some (True, b', s2) \<and>
     (\<forall>j < 100. marked b' j = marked (free_map s1) j)"
proof (cases rule: free_map_allocate_ok [OF sample_fm_ok, of 1])
  case 1
  then show ?thesis using sample_fm_bits(4) by blast
next
  case (2 i s1)
  have "bm_ok \<lparr>bit_cnt = 100, bits = [1, 2, 3, 4]\<rparr>" by (simp add: bm_ok_def elem_cnt_exact)
  then show ?thesis
    using free_map_reload_roundtrip [OF sample_fm_ok 2(1), of "\<lparr>bit_cnt = 100, bits = [1, 2, 3, 4]\<rparr>"]
      2(1) sample_fm_bits(1) by auto
qed

end
