(* ===== verification/Directory.thy ===== *)
theory Directory
  imports File CString
begin

text \<open>
  Directories, \<open>filesys/directory.c\<close>: files of 48-byte entries.  A \<open>struct dir\<close> has one
  owner and is kept by value, a null pointer to one is \<^term>\<open>None\<close>; the current
  directory of the running thread (\<open>thread_current ()->curr_dir\<close>) is passed as \<open>cd\<close>.
  The entry that a function reads into a local variable is uninitialised at first; where
  its old bytes reach the disk they are an argument \<open>stk\<close>.
\<close>

section \<open>Data\<close>

definition NAME_MAX :: nat where
  "NAME_MAX = 14"

record dir_s =
  dinode :: nat
  dpos :: int
  is_remove :: bool

text \<open>
  \<open>e_rest\<close> is the padding after \<open>is_dir\<close> and the lock, 27 bytes that are stored and never
  looked at.
\<close>

record dir_entry =
  inode_sector :: u32
  ename :: "byte list"
  in_use :: bool
  is_dir :: bool
  e_rest :: "byte list"

definition dir_entry_bytes :: "dir_entry \<Rightarrow> byte list" where
  "dir_entry_bytes e = u32_bytes (inode_sector e) @ ename e @
     [if in_use e then 1 else 0, if is_dir e then 1 else 0] @ e_rest e"

definition bytes_dir_entry :: "byte list \<Rightarrow> dir_entry" where
  "bytes_dir_entry bs = \<lparr>inode_sector = bytes_u32 (buf_get 0 4 bs), ename = buf_get 4 15 bs,
     in_use = (bs ! 19 \<noteq> 0), is_dir = (bs ! 20 \<noteq> 0), e_rest = buf_get 21 27 bs\<rparr>"

section \<open>Opening and closing\<close>

definition dir_create :: "u32 \<Rightarrow> nat \<Rightarrow> fsstate \<Rightarrow> (bool \<times> fsstate) option" where
  "dir_create sec entry_cnt s = inode_create inode_write_at sec (i32 (int (entry_cnt * 48))) s"

definition dir_open :: "nat \<Rightarrow> fsstate \<Rightarrow> (dir_s option \<times> fsstate) option" where
  "dir_open ip s = (let (m, s) = calloc_fs s in
     if ip \<noteq> 0 \<and> m then Some (Some \<lparr>dinode = ip, dpos = 0, is_remove = False\<rparr>, s)
     else do { s \<leftarrow> inode_close inode_write_at ip s; Some (None, s) })"

definition dir_open_root :: "fsstate \<Rightarrow> (dir_s option \<times> fsstate) option" where
  "dir_open_root s = do { (ip, s) \<leftarrow> inode_open 1 s; dir_open ip s }"

definition dir_reopen :: "dir_s \<Rightarrow> fsstate \<Rightarrow> (dir_s option \<times> fsstate) option" where
  "dir_reopen d s = do { (ip, s) \<leftarrow> inode_reopen (dinode d) s; dir_open ip s }"

definition dir_close :: "dir_s option \<Rightarrow> fsstate \<Rightarrow> fsstate option" where
  "dir_close d s = (case d of None \<Rightarrow> Some s | Some d \<Rightarrow> inode_close inode_write_at (dinode d) s)"

definition dir_get_inode :: "dir_s \<Rightarrow> nat" where
  "dir_get_inode d = dinode d"

definition filesys_curr_dir :: "dir_s option \<Rightarrow> fsstate \<Rightarrow> (dir_s option \<times> fsstate) option" where
  "filesys_curr_dir cd s = (case cd of None \<Rightarrow> dir_open_root s | Some d \<Rightarrow> Some (Some d, s))"

section \<open>Searching\<close>

text \<open>
  The loop of the searches: it reads one entry after the other until one satisfies the
  test \<open>stop\<close> or a read comes up short.
\<close>

partial_function (option) scan_entries ::
    "nat \<Rightarrow> (dir_entry \<Rightarrow> bool option) \<Rightarrow> int \<Rightarrow> fsstate \<Rightarrow> ((dir_entry \<times> int) option \<times> fsstate) option" where
  "scan_entries ip stop ofs s = do {
     (bs, s) \<leftarrow> inode_read_at ip 48 ofs s;
     if length bs = 48 then do {
       let e = bytes_dir_entry bs;
       hit \<leftarrow> stop e;
       if hit then Some (Some (e, ofs), s) else scan_entries ip stop (i32 (ofs + 48)) s }
     else Some (None, s) }"

definition name_test :: "byte list \<Rightarrow> dir_entry \<Rightarrow> bool option" where
  "name_test name e =
     (if in_use e then do { r \<leftarrow> strcmp name (ename e); Some (r = 0) } else Some False)"

definition lookup :: "dir_s \<Rightarrow> byte list \<Rightarrow> fsstate \<Rightarrow> ((dir_entry \<times> int) option \<times> fsstate) option" where
  "lookup d name s = scan_entries (dinode d) (name_test name) 0 s"

definition entry_lookup ::
    "dir_s \<Rightarrow> byte list \<Rightarrow> bool \<Rightarrow> fsstate \<Rightarrow> ((dir_entry \<times> int) option \<times> fsstate) option" where
  "entry_lookup d name isd s =
     scan_entries (dinode d) (\<lambda>e. if is_dir e \<noteq> isd then Some False else name_test name e) 0 s"

text \<open>The inode pointer that is stored through the last argument; it is null on failure.\<close>

definition dir_lookup :: "dir_s \<Rightarrow> byte list \<Rightarrow> fsstate \<Rightarrow> (nat \<times> fsstate) option" where
  "dir_lookup d name s = do {
     (r, s) \<leftarrow> lookup d name s;
     case r of Some (e, ofs) \<Rightarrow> inode_open (inode_sector e) s | None \<Rightarrow> Some (0, s) }"

definition dir_lookup_files :: "dir_s \<Rightarrow> byte list \<Rightarrow> fsstate \<Rightarrow> (nat \<times> fsstate) option" where
  "dir_lookup_files d name s = do {
     (r, s) \<leftarrow> entry_lookup d name False s;
     case r of Some (e, ofs) \<Rightarrow> inode_open (inode_sector e) s | None \<Rightarrow> Some (0, s) }"

section \<open>Adding and removing\<close>

text \<open>
  The search for a free slot keeps what it has read, also the bytes of a short read at the
  end of the file: they are written back with the new entry.
\<close>

partial_function (option) free_slot ::
    "nat \<Rightarrow> int \<Rightarrow> byte list \<Rightarrow> fsstate \<Rightarrow> (int \<times> byte list \<times> fsstate) option" where
  "free_slot ip ofs e s = do {
     (bs, s) \<leftarrow> inode_read_at ip 48 ofs s;
     let e = buf_put 0 bs e;
     if length bs = 48 then
       (if \<not> in_use (bytes_dir_entry e) then Some (ofs, e, s)
        else free_slot ip (i32 (ofs + 48)) e s)
     else Some (ofs, e, s) }"

definition dir_add_directory ::
    "byte list \<Rightarrow> dir_s \<Rightarrow> byte list \<Rightarrow> u32 \<Rightarrow> bool \<Rightarrow> fsstate \<Rightarrow> (bool \<times> fsstate) option" where
  "dir_add_directory stk d name sec isd s = do {
     c \<leftarrow> arr_get name 0;
     if c = 0 then Some (False, s)
     else do {
       n \<leftarrow> strlen name;
       if n > NAME_MAX then Some (False, s)
       else do {
         (r, s) \<leftarrow> lookup d name s;
         if r \<noteq> None then Some (False, s)
         else do {
           (ofs, bs, s) \<leftarrow> free_slot (dinode d) 0 stk s;
           let e = bytes_dir_entry bs;
           (_, nm) \<leftarrow> strlcpy (ename e) name 15;
           let e = e\<lparr>in_use := True, is_dir := isd, ename := nm, inode_sector := sec\<rparr>;
           (n, s) \<leftarrow> inode_write_at (dinode d) (dir_entry_bytes e) 48 ofs s;
           Some (n = 48, s) } } } }"

definition dir_add :: "byte list \<Rightarrow> dir_s \<Rightarrow> byte list \<Rightarrow> u32 \<Rightarrow> fsstate \<Rightarrow> (bool \<times> fsstate) option" where
  "dir_add stk d name sec s = dir_add_directory stk d name sec False s"

text \<open>The names of the two entries that every directory other than the root starts with.\<close>

definition dot :: "byte list" where
  "dot = [46, 0]"

definition dotdot :: "byte list" where
  "dotdot = [46, 46, 0]"

partial_function (option) count_entries :: "nat \<Rightarrow> int \<Rightarrow> int \<Rightarrow> fsstate \<Rightarrow> (int \<times> fsstate) option" where
  "count_entries ip res ofs s = do {
     (bs, s) \<leftarrow> inode_read_at ip 48 ofs s;
     if length bs = 48 then do {
       let e = bytes_dir_entry bs;
       c \<leftarrow> (if in_use e then do {
              r1 \<leftarrow> strcmp dot (ename e);
              if r1 \<noteq> 0 then do { r2 \<leftarrow> strcmp dotdot (ename e); Some (r2 \<noteq> 0) } else Some False }
            else Some False);
       count_entries ip (if c then res + 1 else res) (i32 (ofs + 48)) s }
     else Some (res, s) }"

definition dir_sizeof :: "dir_entry \<Rightarrow> fsstate \<Rightarrow> (int \<times> fsstate) option" where
  "dir_sizeof e s = do {
     (ip, s) \<leftarrow> inode_open (inode_sector e) s;
     if \<not> is_dir e \<or> \<not> in_use e then Some (0, s)
     else do {
       (res, s) \<leftarrow> count_entries ip 0 0 s;
       s \<leftarrow> inode_close inode_write_at ip s;
       Some (res, s) } }"

text \<open>Erasing the entry and marking the inode; the inode is closed on every path.\<close>

definition dir_erase :: "dir_s \<Rightarrow> dir_entry \<Rightarrow> int \<Rightarrow> fsstate \<Rightarrow> (bool \<times> fsstate) option" where
  "dir_erase d e ofs s = do {
     (ip, s) \<leftarrow> inode_open (inode_sector e) s;
     if ip = 0 then do { s \<leftarrow> inode_close inode_write_at ip s; Some (False, s) }
     else do {
       (n, s) \<leftarrow> inode_write_at (dinode d) (dir_entry_bytes (e\<lparr>in_use := False\<rparr>)) 48 ofs s;
       if n \<noteq> 48 then do { s \<leftarrow> inode_close inode_write_at ip s; Some (False, s) }
       else do {
         s \<leftarrow> inode_remove ip s;
         s \<leftarrow> inode_close inode_write_at ip s;
         Some (True, s) } } }"

definition dir_remove ::
    "dir_s option \<Rightarrow> dir_s \<Rightarrow> byte list \<Rightarrow> fsstate \<Rightarrow> (bool \<times> dir_s option \<times> fsstate) option" where
  "dir_remove cd d name s = do {
     (r, s) \<leftarrow> lookup d name s;
     case r of
       None \<Rightarrow> Some (False, cd, s)
     | Some (e, ofs) \<Rightarrow>
         if is_dir e then do {
           (n, s) \<leftarrow> dir_sizeof e s;
           if n \<noteq> 0 then Some (False, cd, s)
           else do {
             (cd, s) \<leftarrow> filesys_curr_dir cd s;
             cur_dir \<leftarrow> cd;
             i \<leftarrow> inode_get_inumber (dinode cur_dir) s;
             let cd = Some (if i = inode_sector e then cur_dir\<lparr>is_remove := True\<rparr> else cur_dir);
             (ok, s) \<leftarrow> dir_erase d e ofs s;
             Some (ok, cd, s) } }
         else do {
           (ok, s) \<leftarrow> dir_erase d e ofs s;
           Some (ok, cd, s) } }"

section \<open>Listing\<close>

partial_function (option) readdir_loop ::
    "nat \<Rightarrow> byte list \<Rightarrow> int \<Rightarrow> fsstate \<Rightarrow> (bool \<times> byte list \<times> int \<times> fsstate) option" where
  "readdir_loop ip name p s = do {
     (bs, s) \<leftarrow> inode_read_at ip 48 p s;
     if length bs = 48 then do {
       let p = i32 (p + 48);
       let e = bytes_dir_entry bs;
       c \<leftarrow> (if in_use e then do {
              r1 \<leftarrow> strcmp (ename e) dot;
              if r1 \<noteq> 0 then do { r2 \<leftarrow> strcmp (ename e) dotdot; Some (r2 \<noteq> 0) } else Some False }
            else Some False);
       if c then do {
         (_, name) \<leftarrow> strlcpy name (ename e) (NAME_MAX + 1);
         Some (True, name, p, s) }
       else readdir_loop ip name p s }
     else Some (False, name, p, s) }"

text \<open>\<open>name\<close> is the caller's buffer; the result has its new contents.\<close>

definition dir_readdir ::
    "dir_s \<Rightarrow> byte list \<Rightarrow> fsstate \<Rightarrow> (bool \<times> byte list \<times> dir_s \<times> fsstate) option" where
  "dir_readdir d name s = do {
     (ok, name, p, s) \<leftarrow> readdir_loop (dinode d) name (dpos d) s;
     Some (ok, name, d\<lparr>dpos := p\<rparr>, s) }"

end
