(* ===== verification/Dir_Spec.thy ===== *)
theory Dir_Spec
  imports Directory
begin

text \<open>
  What the operations on directories do: a directory is a table from names to entries, and
  searching, adding and removing are those of the table.  Adding and removing write 48
  bytes in the middle of a file; they lose nothing because the entry has just been read,
  so that its sectors are among the most recently used ones of the buffer cache.
\<close>

section \<open>The entries of a directory\<close>

definition dents :: "(u32 \<Rightarrow> byte list) \<Rightarrow> inode_disk \<Rightarrow> dir_entry list" where
  "dents v d = map (\<lambda>k. bytes_dir_entry (buf_get (48 * k) 48 (fbytes v d))) [0..<nat (i_length d) div 48]"

lemma length_dents [simp]: "length (dents v d) = nat (i_length d) div 48"
  by (simp add: dents_def)

lemma length_dir_entry_bytes:
  "length (ename e) = 15 \<Longrightarrow> length (e_rest e) = 27 \<Longrightarrow> length (dir_entry_bytes e) = 48"
  by (simp add: dir_entry_bytes_def)

lemma bytes_dir_entry_bytes:
  "length (ename e) = 15 \<Longrightarrow> length (e_rest e) = 27 \<Longrightarrow> bytes_dir_entry (dir_entry_bytes e) = e"
  by (simp add: bytes_dir_entry_def dir_entry_bytes_def buf_get_def nth_append)

lemma bytes_dir_entry_lengths:
  "length bs = 48 \<Longrightarrow> length (ename (bytes_dir_entry bs)) = 15 \<and> length (e_rest (bytes_dir_entry bs)) = 27"
  by (simp add: bytes_dir_entry_def)

lemma dents_put:
  assumes "length bs = 48" "j < length (dents v d)" "fbytes v' d = buf_put (48 * j) bs (fbytes v d)"
  shows "dents v' d = (dents v d)[j := bytes_dir_entry bs]"
proof (rule nth_equalityI)
  fix i
  assume i: "i < length (dents v' d)"
  have j48: "48 * j + 48 \<le> nat (i_length d)" and i48: "48 * i + 48 \<le> nat (i_length d)"
    using assms(2) i by (simp_all add: less_eq_div_iff_mult_less_eq [of 48] Suc_le_eq [symmetric])
  have "buf_get (48 * i) 48 (fbytes v' d) = (if i = j then bs else buf_get (48 * i) 48 (fbytes v d))"
  proof (rule nth_equalityI)
    fix m
    assume "m < length (buf_get (48 * i) 48 (fbytes v' d))"
    then have m: "m < 48" using i48 assms(3,1) j48 by simp
    have "48 * j \<le> 48 * i + m \<and> 48 * i + m < 48 * j + 48 \<longleftrightarrow> i = j" using m by auto
    then show "buf_get (48 * i) 48 (fbytes v' d) ! m =
        (if i = j then bs else buf_get (48 * i) 48 (fbytes v d)) ! m"
      using m i48 j48 assms(1,3) by (simp add: nth_buf_put)
  qed (use i48 j48 assms(1,3) in simp)
  then show "dents v' d ! i = (dents v d)[j := bytes_dir_entry bs] ! i"
    using i assms(2) by (simp add: dents_def nth_list_update)
qed simp

lemma read_entry:
  assumes "fs_ok s" "inodes s ip = Some ino" "inode_ok s ino" "48 * k < 2 ^ 31"
  obtains s' where "inode_read_at ip 48 (int (48 * k)) s =
      Some (buf_get (48 * k) 48 (fbytes (fsview s) (data ino)), s')" "reads s s'"
proof -
  have di: "di_ok (data ino)" and lay: "layout_ok s (data ino) (sectors_of (i_length (data ino)))"
    using assms(3) by (simp_all add: inode_ok_def)
  have "int (48 * k) < 2 ^ 31" using assms(4) by simp
  from inode_read_loop_ok [OF assms(1,2) di lay this, of 48]
  obtain s' where s': "inode_read_loop ip (i_length (data ino)) 48 (int (48 * k)) s =
      Some (map (file_byte (fsview s) (data ino)) [48 * k..<min (48 * k + 48) (nat (i_length (data ino)))], s')"
    "reads s s'" by auto
  have "buf_get (48 * k) 48 (fbytes (fsview s) (data ino)) =
      map (file_byte (fsview s) (data ino)) [48 * k..<min (48 * k + 48) (nat (i_length (data ino)))]"
    by (simp add: buf_get_def fbytes_def drop_map take_map min_def)
  with s' assms(2) that show ?thesis by (simp add: inode_read_at_def inode_length_def)
qed

lemma entry_whole:
  "length (buf_get (48 * k) 48 (fbytes v d)) = 48 \<longleftrightarrow> k < length (dents v d)"
proof -
  have "length (buf_get (48 * k) 48 (fbytes v d)) = 48 \<longleftrightarrow> 48 * k + 48 \<le> nat (i_length d)"
    by (auto simp: buf_get_def)
  also have "\<dots> \<longleftrightarrow> Suc k \<le> nat (i_length d) div 48"
    by (simp add: less_eq_div_iff_mult_less_eq mult.commute add.commute)
  finally show ?thesis by (simp add: Suc_le_eq)
qed

lemma dents_bound: "inode_ok s ino \<Longrightarrow> k \<le> length (dents v (data ino)) \<Longrightarrow> 48 * k \<le> 8582656"
proof -
  assume "inode_ok s ino" "k \<le> length (dents v (data ino))"
  then have "nat (i_length (data ino)) \<le> 8582656" "k * 48 \<le> nat (i_length (data ino))"
    by (auto simp: inode_ok_def di_ok_def MAX_LEN_eq simp flip: less_eq_div_iff_mult_less_eq)
  then show ?thesis by linarith
qed

section \<open>The sectors of an entry stay cached\<close>

definition warm :: "fsstate \<Rightarrow> u32 \<Rightarrow> nat \<Rightarrow> bool" where
  "warm s x k \<longleftrightarrow> (\<exists>j \<le> k. at_rank (bc s) (fs_device s, x) j)"

lemma warm_hot: "warm s x k \<Longrightarrow> hot s x"
  by (auto simp: warm_def hot_def resident_at_rank)

definition cools :: "fsstate \<Rightarrow> fsstate \<Rightarrow> bool" where
  "cools s s' \<longleftrightarrow> (\<forall>x k. k < 63 \<longrightarrow> warm s x k \<longrightarrow> warm s' x (Suc k))"

lemma fs_buffer_read_warm:
  assumes "fs_ok s" "sec_ok s x" "0 \<le> ofs" "0 \<le> n" "ofs + n \<le> 512"
  obtains s' where "fs_buffer_read x ofs n s = Some (buf_get (nat ofs) (nat n) (fsview s x), s')"
    "reads s s'" "warm s' x 0" "cools s s'"
proof -
  have "nat ofs + nat n \<le> BLOCK_SECTOR_SIZE" using assms by (simp add: BLOCK_SECTOR_SIZE_def)
  then obtain b where b: "buffer_read (fs_device s) x (nat ofs) (nat n) (bc s) =
      Some (buf_get (nat ofs) (nat n) (fsview s x), b)" "buf_ok b" "same_devs (bc s) b"
    "view b = view (bc s)" "at_rank b (fs_device s, x) 0" "sinks (bc s) b"
    using buffer_read_ok [of "bc s" "fs_device s" x "nat ofs" "nat n"] assms
    by (metis fs_ok_def sec_ok_def fsview_def)
  have "reads s (s\<lparr>bc := b\<rparr>)"
    using assms(1) b same_devs_sector_ok [OF b(3)] by (simp add: reads_def fs_ok_def fsview_def sec_ok_def)
  moreover have "warm (s\<lparr>bc := b\<rparr>) x 0" using b(5) by (simp add: warm_def)
  moreover have "cools s (s\<lparr>bc := b\<rparr>)"
    unfolding cools_def warm_def
  proof (intro allI impI)
    fix y k
    assume k: "k < 63" and "\<exists>j\<le>k. at_rank (bc s) (fs_device s, y) j"
    then obtain j where j: "j \<le> k" "at_rank (bc s) (fs_device s, y) j" by blast
    then obtain i where "i \<le> Suc j" "at_rank b (fs_device s, y) i"
      using b(6) k unfolding sinks_def by (meson le_less_trans)
    with j(1) show "\<exists>j\<le>Suc k. at_rank (bc (s\<lparr>bc := b\<rparr>)) (fs_device (s\<lparr>bc := b\<rparr>), y) j"
      by (intro exI [of _ i]) simp
  qed
  ultimately show ?thesis using b(1) assms that by (simp add: fs_buffer_read_def)
qed

lemma chunk_size_eq:
  assumes "p < nat l" "m < 512" "c = min n (min (512 - m) (nat l - p))"
  shows "(if int n < (if l - int p < 512 - int m then l - int p else 512 - int m)
      then int n else (if l - int p < 512 - int m then l - int p else 512 - int m)) = int c"
proof -
  have "int c = min (int n) (min (512 - int m) (l - int p))" using assms by (simp add: of_nat_diff of_nat_min)
  then show ?thesis by (auto simp: min_def)
qed

text \<open>One round of the read loop, for a file without index blocks.\<close>

lemma read_round:
  assumes "fs_ok s" "inodes s ip = Some ino" "inode_ok s ino"
    "p < nat (i_length (data ino))" "p div 512 < 123" "0 < n"
    "c = min n (min (512 - p mod 512) (nat (i_length (data ino)) - p))"
  shows "inode_read_loop ip (i_length (data ino)) (int n) (int p) s = do {
      (bs, s) \<leftarrow> fs_buffer_read (index_sector (fsview s) (data ino) (p div 512)) (int (p mod 512)) (int c) s;
      (rest, s) \<leftarrow> inode_read_loop ip (i_length (data ino)) (int (n - c)) (int (p + c)) s;
      Some (bs @ rest, s) }"
proof -
  have di: "di_ok (data ino)" using assms(3) by (simp add: inode_ok_def)
  have i: "i32 (i_length (data ino) - int p) = i_length (data ino) - int p"
    using di assms(4) by (intro i32_id) (auto simp: di_ok_def MAX_LEN_eq)
  have b: "byte_to_sector ip (int p) s = Some (index_sector (fsview s) (data ino) (p div 512), s)"
    using byte_to_sector_direct [OF assms(2) _ assms(5), of "i_length (data ino)"] di assms(2,4)
    by (simp add: byte_to_sector_def inode_length_def di_ok_def)
  have m: "cmod (int p) 512 = int (p mod 512)" by (simp add: cmod_nonneg zmod_int)
  have c: "(if int n < (if i_length (data ino) - int p < 512 - int (p mod 512)
        then i_length (data ino) - int p else 512 - int (p mod 512))
      then int n else (if i_length (data ino) - int p < 512 - int (p mod 512)
        then i_length (data ino) - int p else 512 - int (p mod 512))) = int c"
    using chunk_size_eq [OF assms(4) _ assms(7)] by simp
  have "0 < 512 - p mod 512" by simp
  then have "0 < c" "c \<le> n" using assms(4,6) by (simp_all only: assms(7) min_less_iff_conj zero_less_diff min.cobounded1)
  then have pos: "\<not> int c \<le> 0" "int n - int c = int (n - c)" by simp_all
  show ?thesis
    using assms(6) \<open>0 < c\<close>
    by (subst inode_read_loop.simps, unfold Let_def m i c) (simp add: b pos)
qed

definition warm_range :: "fsstate \<Rightarrow> inode_disk \<Rightarrow> nat \<Rightarrow> nat \<Rightarrow> nat \<Rightarrow> bool" where
  "warm_range s d p q k \<longleftrightarrow>
     (\<forall>i. p div 512 \<le> i \<and> 512 * i < q \<longrightarrow> warm s (index_sector (fsview s) d i) k)"

lemma warm_range_hot: "warm_range s d p q k \<Longrightarrow> hot_range s d p q"
  by (auto simp: warm_range_def hot_range_def intro: warm_hot)

lemma warm_range_cools:
  "warm_range s d p q k \<Longrightarrow> cools s s' \<Longrightarrow> reads s s' \<Longrightarrow> k < 63 \<Longrightarrow> warm_range s' d p q (Suc k)"
  by (auto simp: warm_range_def cools_def reads_simps)

text \<open>The end of a read: what is left fits into the sector at \<open>p\<close>.\<close>

lemma read_last:
  assumes "fs_ok s" "inodes s ip = Some ino" "inode_ok s ino" "p div 512 < 123"
    "p + n \<le> nat (i_length (data ino))" "0 < n" "p mod 512 + n \<le> 512"
  obtains bs s' where "inode_read_loop ip (i_length (data ino)) (int n) (int p) s = Some (bs, s')"
    "reads s s'" "warm s' (index_sector (fsview s) (data ino) (p div 512)) 0" "cools s s'"
proof -
  let ?x = "index_sector (fsview s) (data ino) (p div 512)"
  have "int p < i_length (data ino)" using assms(5,6) by simp
  then have "p div 512 < sectors_of (i_length (data ino))" by (intro sectors_of_bound) linarith+
  then have x: "sec_ok s ?x" using assms(3) by (simp add: inode_ok_def layout_ok_def)
  obtain s' where s': "fs_buffer_read ?x (int (p mod 512)) (int n) s =
      Some (buf_get (nat (int (p mod 512))) (nat (int n)) (fsview s ?x), s')"
    "reads s s'" "warm s' ?x 0" "cools s s'"
    using fs_buffer_read_warm [OF assms(1) x, of "int (p mod 512)" "int n"] assms(7) by auto
  have c: "n = min n (min (512 - p mod 512) (nat (i_length (data ino)) - p))"
    using assms(5,7) by (simp add: min_def) linarith
  have "inode_read_loop ip (i_length (data ino)) (int n) (int p) s =
      Some (buf_get (nat (int (p mod 512))) (nat (int n)) (fsview s ?x), s')"
    using read_round [OF assms(1-3) _ assms(4,6) c] assms(5,6) s'(1)
    by (simp add: inode_read_loop.simps)
  then show ?thesis using that s'(2-4) by blast
qed

lemma read_warm:
  assumes ok: "fs_ok s" "inodes s ip = Some ino" "inode_ok s ino" "i_length (data ino) \<le> 512 * 123"
    and p: "p + n \<le> nat (i_length (data ino))" "0 < n" "n \<le> 512"
    and run: "inode_read_at ip (int n) (int p) s = Some (bs, s')"
  shows "warm_range s' (data ino) p (p + n) 1"
proof -
  let ?x = "index_sector (fsview s) (data ino)"
  have loop: "inode_read_loop ip (i_length (data ino)) (int n) (int p) s = Some (bs, s')"
    using run ok(2) by (simp add: inode_read_at_def inode_length_def)
  have d: "p div 512 < 123" using ok(4) p by auto
  show ?thesis
  proof (cases "p mod 512 + n \<le> 512")
    case True
    have "reads s s'" "warm s' (?x (p div 512)) 0"
      using read_last [OF ok(1-3) d p(1,2) True] loop by (metis option.inject prod.inject)+
    moreover have "i = p div 512" if "p div 512 \<le> i" "512 * i < p + n" for i
      using that True div_mult_mod_eq [of p 512] by linarith
    ultimately show ?thesis by (auto simp: warm_range_def reads_simps warm_def)
  next
    case False
    define c where "c = 512 - p mod 512"
    have c: "c = min n (min (512 - p mod 512) (nat (i_length (data ino)) - p))" "c < n"
      using False p by (simp_all add: c_def min_def) linarith
    have "c + p mod 512 = 512" by (simp add: c_def)
    then have "p + c = 512 + p div 512 * 512" using div_mult_mod_eq [of p 512] by linarith
    then have pc: "(p + c) div 512 = Suc (p div 512)" "(p + c) mod 512 = 0" by simp_all
    have "int p < i_length (data ino)" using p by simp
    then have "p div 512 < sectors_of (i_length (data ino))" by (intro sectors_of_bound) linarith+
    then have x: "sec_ok s (?x (p div 512))" using ok(3) by (simp add: inode_ok_def layout_ok_def)
    obtain s1 where s1: "fs_buffer_read (?x (p div 512)) (int (p mod 512)) (int c) s =
        Some (buf_get (nat (int (p mod 512))) (nat (int c)) (fsview s (?x (p div 512))), s1)"
      "reads s s1" "warm s1 (?x (p div 512)) 0"
      using fs_buffer_read_warm [OF ok(1) x, of "int (p mod 512)" "int c"] c_def by auto
    note r1 = reads_simps [OF s1(2)]
    have ok1: "inode_ok s1 ino" using ok(3) r1 by (simp add: inode_ok_def)
    have f: "inodes s1 ip = Some ino" "(p + c) div 512 < 123" "p + c + (n - c) \<le> nat (i_length (data ino))"
      "0 < n - c" "(p + c) mod 512 + (n - c) \<le> 512"
      using r1(4) ok(2,4) pc p c(2) by auto
    obtain bs2 s2 where s2: "inode_read_loop ip (i_length (data ino)) (int (n - c)) (int (p + c)) s1 = Some (bs2, s2)"
      "reads s1 s2" "warm s2 (index_sector (fsview s1) (data ino) ((p + c) div 512)) 0" "cools s1 s2"
      using read_last [OF r1(1) f(1) ok1 f(2-5)] .
    have "p < nat (i_length (data ino))" using p by linarith
    from read_round [OF ok(1-3) this d p(2) c(1)] have "s' = s2"
      unfolding loop s1(1) by (simp only: bind.bind_lunit prod.case s2(1) option.inject prod.inject)
    moreover have "i = p div 512 \<or> i = Suc (p div 512)" if "p div 512 \<le> i" "512 * i < p + n" for i
      using that p(3) mod_less_divisor [of 512 p] div_mult_mod_eq [of p 512] by linarith
    moreover have "warm s2 (?x (p div 512)) 1" using s1(3) s2(4) by (simp add: cools_def)
    ultimately show ?thesis
      using s2(3) pc r1(2) reads_simps(2) [OF s2(2)] by (auto simp: warm_range_def warm_def)
  qed
qed

section \<open>Searching\<close>

text \<open>A directory small enough to need no index blocks: up to 1312 entries.\<close>

definition small_dir :: "inode \<Rightarrow> bool" where
  "small_dir ino \<longleftrightarrow> i_length (data ino) \<le> 512 * 123"

definition entry_warm :: "fsstate \<Rightarrow> inode \<Rightarrow> nat \<Rightarrow> nat \<Rightarrow> bool" where
  "entry_warm s ino j k \<longleftrightarrow> (small_dir ino \<longrightarrow> warm_range s (data ino) (48 * j) (48 * j + 48) k)"

lemma inode_ok_reads: "reads s s' \<Longrightarrow> inode_ok s' ino = inode_ok s ino"
  by (simp add: inode_ok_def reads_simps)

lemma next_ofs: "inode_ok s ino \<Longrightarrow> k < length (dents v (data ino)) \<Longrightarrow> i32 (int (48 * k) + 48) = int (48 * Suc k)"
  using dents_bound [of s ino "Suc k" v] by (subst i32_id) auto

text \<open>Reading the \<open>k\<close>-th entry, or less than an entry at the end.\<close>

lemma read_nth_entry:
  assumes "fs_ok s" "inodes s ip = Some ino" "inode_ok s ino" "k \<le> length (dents (fsview s) (data ino))"
  obtains bs s' where "inode_read_at ip 48 (int (48 * k)) s = Some (bs, s')" "reads s s'"
    "length bs = 48 \<longleftrightarrow> k < length (dents (fsview s) (data ino))"
    "k < length (dents (fsview s) (data ino)) \<Longrightarrow> bytes_dir_entry bs = dents (fsview s) (data ino) ! k"
    "k < length (dents (fsview s) (data ino)) \<Longrightarrow> entry_warm s' ino k 1" "length bs \<le> 48"
proof -
  have "48 * k < 2 ^ 31" using dents_bound [OF assms(3,4)] by simp
  then obtain s' where s': "inode_read_at ip 48 (int (48 * k)) s =
      Some (buf_get (48 * k) 48 (fbytes (fsview s) (data ino)), s')" "reads s s'"
    using read_entry [OF assms(1-3)] by metis
  have "entry_warm s' ino k 1" if "k < length (dents (fsview s) (data ino))"
    unfolding entry_warm_def
  proof
    assume "small_dir ino"
    then have "i_length (data ino) \<le> 512 * 123" by (simp add: small_dir_def)
    moreover have "48 * k + 48 \<le> nat (i_length (data ino))"
      using entry_whole [of k "fsview s" "data ino"] that by (auto simp: buf_get_def)
    ultimately show "warm_range s' (data ino) (48 * k) (48 * k + 48) 1"
      using s'(1) by (intro read_warm [OF assms(1-3)]) auto
  qed
  with that [OF s'] entry_whole [of k "fsview s" "data ino"] show ?thesis
    by (simp add: dents_def buf_get_def)
qed

text \<open>The first entry from \<open>k\<close> on that satisfies \<open>P\<close>.\<close>

definition first_entry :: "(dir_entry \<Rightarrow> bool) \<Rightarrow> dir_entry list \<Rightarrow> nat \<Rightarrow> nat option" where
  "first_entry P es k = find (\<lambda>j. P (es ! j)) [k..<length es]"

lemma first_entry_step:
  "k < length es \<Longrightarrow> first_entry P es k = (if P (es ! k) then Some k else first_entry P es (Suc k))"
  by (simp add: first_entry_def upt_conv_Cons)

lemma first_entry_end: "length es \<le> k \<Longrightarrow> first_entry P es k = None"
  by (simp add: first_entry_def)

lemma scan_entries_ok:
  assumes "fs_ok s" "inodes s ip = Some ino" "inode_ok s ino" "k \<le> length (dents (fsview s) (data ino))"
    "\<forall>e \<in> set (dents (fsview s) (data ino)). stop e = Some (P e)"
  shows "\<exists>s'. scan_entries ip stop (int (48 * k)) s =
      Some (map_option (\<lambda>j. (dents (fsview s) (data ino) ! j, int (48 * j)))
        (first_entry P (dents (fsview s) (data ino)) k), s') \<and> reads s s' \<and>
    (\<forall>j. first_entry P (dents (fsview s) (data ino)) k = Some j \<longrightarrow> entry_warm s' ino j 1)"
  using assms
proof (induction "length (dents (fsview s) (data ino)) - k" arbitrary: k s)
  case 0
  let ?es = "dents (fsview s) (data ino)"
  obtain bs s' where "inode_read_at ip 48 (int (48 * k)) s = Some (bs, s')" "reads s s'" "length bs \<noteq> 48"
    using read_nth_entry [OF 0(2-5)] 0(1) by (metis diff_is_0_eq not_less)
  then show ?case
    using 0(1) by (subst scan_entries.simps) (simp add: first_entry_end)
next
  case (Suc m)
  let ?es = "dents (fsview s) (data ino)"
  have k: "k < length ?es" using Suc.hyps(2) by simp
  obtain bs s1 where s1: "inode_read_at ip 48 (int (48 * k)) s = Some (bs, s1)" "reads s s1"
    "length bs = 48" "bytes_dir_entry bs = ?es ! k" "entry_warm s1 ino k 1"
    using read_nth_entry [OF Suc.prems(1-4)] k by metis
  have st: "stop (?es ! k) = Some (P (?es ! k))" using Suc.prems(5) k by simp
  show ?case
  proof (cases "P (?es ! k)")
    case True
    then show ?thesis
      using s1 st k by (subst scan_entries.simps) (simp add: first_entry_step Let_def)
  next
    case False
    note r = reads_simps [OF s1(2)]
    have IH: "\<exists>s'. scan_entries ip stop (int (48 * Suc k)) s1 =
        Some (map_option (\<lambda>j. (?es ! j, int (48 * j))) (first_entry P ?es (Suc k)), s') \<and> reads s1 s' \<and>
        (\<forall>j. first_entry P ?es (Suc k) = Some j \<longrightarrow> entry_warm s' ino j 1)"
      using Suc.hyps(1) [of s1 "Suc k"] Suc.hyps(2) Suc.prems k inode_ok_reads [OF s1(2)] by (simp add: r)
    then obtain s' where s': "scan_entries ip stop (int (48 * Suc k)) s1 =
        Some (map_option (\<lambda>j. (?es ! j, int (48 * j))) (first_entry P ?es (Suc k)), s')" "reads s1 s'"
        "\<forall>j. first_entry P ?es (Suc k) = Some j \<longrightarrow> entry_warm s' ino j 1" by blast
    have "scan_entries ip stop (int (48 * k)) s = scan_entries ip stop (int (48 * Suc k)) s1"
      using s1(1,3,4) st False next_ofs [OF Suc.prems(3) k]
      by (subst scan_entries.simps) (simp add: Let_def)
    then show ?thesis
      using s' reads_trans [OF s1(2) s'(2)] k False by (auto simp: first_entry_step)
  qed
qed

lemma free_slot_ok:
  assumes "fs_ok s" "inodes s ip = Some ino" "inode_ok s ino" "length b = 48"
    "first_entry (\<lambda>e. \<not> in_use e) (dents (fsview s) (data ino)) k = Some j"
  shows "\<exists>bs s'. free_slot ip (int (48 * k)) b s = Some (int (48 * j), bs, s') \<and> length bs = 48 \<and>
    bytes_dir_entry bs = dents (fsview s) (data ino) ! j \<and> reads s s' \<and> entry_warm s' ino j 1"
  using assms
proof (induction "length (dents (fsview s) (data ino)) - k" arbitrary: k s b)
  case 0
  then show ?case by (simp add: first_entry_end)
next
  case (Suc m)
  let ?es = "dents (fsview s) (data ino)"
  have k: "k < length ?es" using Suc.hyps(2) by simp
  obtain bs s1 where s1: "inode_read_at ip 48 (int (48 * k)) s = Some (bs, s1)" "reads s s1"
    "length bs = 48" "bytes_dir_entry bs = ?es ! k" "entry_warm s1 ino k 1"
    using read_nth_entry [OF Suc.prems(1-3), of k] k by (metis less_imp_le_nat)
  have full: "buf_put 0 bs b = bs" using s1(3) Suc.prems(4) by (simp add: buf_put_full)
  show ?case
  proof (cases "in_use (?es ! k)")
    case False
    then have "j = k" using Suc.prems(5) k by (simp add: first_entry_step)
    then show ?thesis
      using s1 False full by (subst free_slot.simps) (simp add: Let_def)
  next
    case True
    note r = reads_simps [OF s1(2)]
    have "first_entry (\<lambda>e. \<not> in_use e) ?es (Suc k) = Some j"
      using Suc.prems(5) k True by (simp add: first_entry_step)
    moreover have "m = length (dents (fsview s1) (data ino)) - Suc k" using Suc.hyps(2) by simp
    ultimately obtain bs' s' where s': "free_slot ip (int (48 * Suc k)) bs s1 = Some (int (48 * j), bs', s')"
      "length bs' = 48" "bytes_dir_entry bs' = ?es ! j" "reads s1 s'" "entry_warm s' ino j 1"
      using Suc.hyps(1) [of s1 "Suc k" bs] Suc.prems(2,3) s1(3) inode_ok_reads [OF s1(2)] r(1,2,4)
      by auto
    have "free_slot ip (int (48 * k)) b s = free_slot ip (int (48 * Suc k)) bs s1"
      using s1(1,3,4) True full next_ofs [OF Suc.prems(3) k]
      by (subst free_slot.simps) (simp add: Let_def)
    then show ?thesis using s' reads_trans [OF s1(2) s'(4)] by auto
  qed
qed

section \<open>Directories as tables\<close>

definition has_name :: "byte list \<Rightarrow> dir_entry \<Rightarrow> bool" where
  "has_name n e \<longleftrightarrow> in_use e \<and> cstr (ename e) = n"

primrec dmap :: "dir_entry list \<Rightarrow> byte list \<Rightarrow> dir_entry option" where
  "dmap [] n = None"
| "dmap (e # es) n = (if has_name n e then Some e else dmap es n)"

definition dnames :: "dir_entry list \<Rightarrow> byte list list" where
  "dnames es = map (\<lambda>e. cstr (ename e)) (filter in_use es)"

lemma dnames_simps [simp]:
  "dnames [] = []" "dnames (e # es) = (if in_use e then cstr (ename e) # dnames es else dnames es)"
  by (simp_all add: dnames_def)

lemma dmap_None: "dmap es n = None \<longleftrightarrow> n \<notin> set (dnames es)"
  by (induction es) (auto simp: has_name_def)

lemma first_entry_find: "find P es = map_option ((!) es) (first_entry P es 0)"
proof (induction es)
  case Nil
  then show ?case by (simp add: first_entry_def)
next
  case (Cons e es)
  have "find (\<lambda>j. P ((e # es) ! j)) (map Suc xs) = map_option Suc (find (\<lambda>j. P (es ! j)) xs)" for xs
    by (induction xs) auto
  moreover have "[Suc 0..<Suc (length es)] = map Suc [0..<length es]" by (rule map_Suc_upt [symmetric])
  ultimately have "first_entry P (e # es) (Suc 0) = map_option Suc (first_entry P es 0)"
    by (simp only: first_entry_def list.size add_0_right add_Suc_right)
  then show ?case using Cons by (simp add: first_entry_step option.map_comp comp_def)
qed

lemma dmap_first: "dmap es n = map_option ((!) es) (first_entry (has_name n) es 0)"
proof -
  have "dmap es n = find (has_name n) es" by (induction es) auto
  then show ?thesis by (simp only: first_entry_find)
qed

lemma dmap_add:
  assumes "j < length es" "\<not> in_use (es ! j)" "has_name n e" "dmap es n = None"
  shows "dmap (es[j := e]) = (dmap es)(n \<mapsto> e)"
  using assms
proof (induction es arbitrary: j)
  case (Cons x es)
  then show ?case
  proof (cases j)
    case 0
    with Cons.prems show ?thesis by (auto simp: fun_eq_iff has_name_def)
  next
    case (Suc i)
    with Cons.prems have "\<not> has_name n x" "dmap (es[i := e]) = (dmap es)(n \<mapsto> e)"
      using Cons.IH [of i] by (auto split: if_splits)
    with Suc show ?thesis by (auto simp: fun_eq_iff has_name_def)
  qed
qed simp

lemma dnames_add:
  assumes "j < length es" "\<not> in_use (es ! j)" "in_use e"
  shows "\<exists>xs ys. dnames es = xs @ ys \<and> dnames (es[j := e]) = xs @ cstr (ename e) # ys"
proof -
  have "dnames es = dnames (take j es @ es ! j # drop (Suc j) es)"
    using assms(1) by (simp flip: id_take_nth_drop)
  moreover have "dnames (es[j := e]) = dnames (take j es @ e # drop (Suc j) es)"
    using assms(1) by (simp add: upd_conv_take_nth_drop)
  ultimately show ?thesis
    using assms(2,3) by (auto simp: dnames_def)
qed

lemma dmap_remove:
  assumes "j < length es" "has_name n (es ! j)" "distinct (dnames es)" "\<not> in_use e"
  shows "dmap (es[j := e]) = (dmap es)(n := None)"
  using assms
proof (induction es arbitrary: j)
  case (Cons x es)
  show ?case
  proof (cases j)
    case 0
    with Cons.prems have "n \<notin> set (dnames es)" by (auto simp: has_name_def)
    with 0 Cons.prems show ?thesis by (auto simp: fun_eq_iff has_name_def simp flip: dmap_None)
  next
    case (Suc i)
    with Cons.prems have IH: "dmap (es[i := e]) = (dmap es)(n := None)"
      using Cons.IH [of i] by (auto split: if_splits)
    have "n \<in> set (dnames es)" using Cons.prems(1,2) Suc by (auto simp: dnames_def has_name_def)
    with Cons.prems(3) have "\<not> has_name n x" by (auto simp: has_name_def)
    with Suc IH show ?thesis by (auto simp: fun_eq_iff has_name_def)
  qed
qed simp

lemma dnames_remove:
  assumes "distinct (dnames es)" "\<not> in_use e"
  shows "distinct (dnames (es[j := e]))"
  using assms
proof (induction es arbitrary: j)
  case (Cons x es)
  have "set (dnames (es[i := e])) \<subseteq> set (dnames es)" for i
    using assms(2) set_update_subset_insert [of es i e] by (auto simp: dnames_def)
  with Cons show ?case by (auto split: nat.splits if_splits)
qed simp

section \<open>The operations\<close>

definition dir_ok :: "fsstate \<Rightarrow> inode \<Rightarrow> bool" where
  "dir_ok s ino \<longleftrightarrow> inode_ok s ino \<and> small_dir ino \<and> deny_write_cnt ino = 0 \<and> \<not> extend_lock ino \<and>
     (\<forall>e \<in> set (dents (fsview s) (data ino)). in_use e \<longrightarrow> terminated (ename e)) \<and>
     distinct (dnames (dents (fsview s) (data ino)))"

definition dtab :: "fsstate \<Rightarrow> inode \<Rightarrow> byte list \<Rightarrow> dir_entry option" where
  "dtab s ino = dmap (dents (fsview s) (data ino))"

definition dir_sectors :: "fsstate \<Rightarrow> inode \<Rightarrow> u32 set" where
  "dir_sectors s ino = insert (sector ino) (data_sectors (fsview s) (data ino) (sectors_of (i_length (data ino))))"

lemma dir_ok_reads: "reads s s' \<Longrightarrow> dir_ok s' ino = dir_ok s ino" "reads s s' \<Longrightarrow> dtab s' ino = dtab s ino"
  by (simp_all add: dir_ok_def dtab_def reads_simps inode_ok_reads)

lemma name_test_ok:
  assumes "terminated name" "in_use e \<longrightarrow> terminated (ename e)"
  shows "name_test name e = Some (has_name (cstr name) e)"
  using strcmp_eq [OF assms(1), of "ename e"] assms(2) by (auto simp: name_test_def has_name_def)

lemma lookup_ok:
  assumes "fs_ok s" "inodes s (dinode d) = Some ino" "dir_ok s ino" "terminated name"
  obtains (found) j s' where "j < length (dents (fsview s) (data ino))"
      "has_name (cstr name) (dents (fsview s) (data ino) ! j)"
      "dtab s ino (cstr name) = Some (dents (fsview s) (data ino) ! j)"
      "lookup d name s = Some (Some (dents (fsview s) (data ino) ! j, int (48 * j)), s')"
      "reads s s'" "entry_warm s' ino j 1"
    | (absent) s' where "dtab s ino (cstr name) = None" "lookup d name s = Some (None, s')" "reads s s'"
proof -
  let ?es = "dents (fsview s) (data ino)"
  let ?f = "first_entry (has_name (cstr name)) ?es 0"
  have "\<forall>e \<in> set ?es. name_test name e = Some (has_name (cstr name) e)"
    using assms(3,4) by (auto simp: dir_ok_def intro: name_test_ok)
  moreover have "inode_ok s ino" using assms(3) by (simp add: dir_ok_def)
  ultimately obtain s' where s': "lookup d name s = Some (map_option (\<lambda>j. (?es ! j, int (48 * j))) ?f, s')"
    "reads s s'" "\<forall>j. ?f = Some j \<longrightarrow> entry_warm s' ino j 1"
    using scan_entries_ok [OF assms(1,2), of 0 "name_test name" "has_name (cstr name)"]
    by (auto simp: lookup_def)
  have t: "dtab s ino (cstr name) = map_option ((!) ?es) ?f" by (simp add: dtab_def dmap_first)
  show ?thesis
  proof (cases ?f)
    case None
    then show ?thesis using absent s' t by simp
  next
    case (Some j)
    then have "j < length ?es" "has_name (cstr name) (?es ! j)"
      unfolding first_entry_def find_Some_iff by (auto simp del: length_dents)
    with Some found s' t show ?thesis by simp
  qed
qed

lemma lookup_found:
  assumes "fs_ok s" "inodes s (dinode d) = Some ino" "dir_ok s ino" "terminated name"
    "dtab s ino (cstr name) = Some e"
  obtains j s' where "j < length (dents (fsview s) (data ino))" "dents (fsview s) (data ino) ! j = e"
    "has_name (cstr name) e" "lookup d name s = Some (Some (e, int (48 * j)), s')" "reads s s'"
    "entry_warm s' ino j 1"
proof (cases rule: lookup_ok [OF assms(1-4)])
  case (1 j s')
  then have "dents (fsview s) (data ino) ! j = e" using assms(5) by simp
  with 1 that show ?thesis by blast
next
  case (2 s')
  then show ?thesis using assms(5) by simp
qed

lemma lookup_absent:
  assumes "fs_ok s" "inodes s (dinode d) = Some ino" "dir_ok s ino" "terminated name"
    "dtab s ino (cstr name) = None"
  obtains s' where "lookup d name s = Some (None, s')" "reads s s'"
proof (cases rule: lookup_ok [OF assms(1-4)])
  case (1 j s')
  then show ?thesis using assms(5) by simp
next
  case (2 s')
  then show ?thesis using that by blast
qed

text \<open>Writing over the entry that has just been read.\<close>

lemma write_entry_ok:
  assumes "fs_ok s" "inodes s ip = Some ino" "dir_ok s ino" "j < length (dents (fsview s) (data ino))"
    "entry_warm s ino j k" "length (ename e) = 15" "length (e_rest e) = 27"
  obtains s' where "inode_write_at ip (dir_entry_bytes e) 48 (int (48 * j)) s = Some (48, s')"
    "wrote s s' (dir_sectors s ino)" "dents (fsview s') (data ino) = (dents (fsview s) (data ino))[j := e]"
    "inode_ok s' ino"
proof -
  have ino: "inode_ok s ino" "deny_write_cnt ino = 0" "\<not> extend_lock ino" "small_dir ino"
    using assms(3) by (simp_all add: dir_ok_def)
  have len: "length (dir_entry_bytes e) = 48" using assms(6,7) by (rule length_dir_entry_bytes)
  have rng: "48 * j + length (dir_entry_bytes e) \<le> nat (i_length (data ino))"
    using entry_whole [of j "fsview s" "data ino"] assms(4) len by (auto simp: buf_get_def)
  have "hot_range s (data ino) (48 * j) (48 * j + 48)"
    using assms(5) ino(4) by (auto simp: entry_warm_def intro: warm_range_hot)
  then have safe: "write_safe s (data ino) (48 * j) (length (dir_entry_bytes e)) (nat (i_length (data ino)))"
    using ino(4) len by (simp add: write_safe_def small_dir_def nat_le_iff)
  obtain s' where s': "inode_write_at ip (dir_entry_bytes e) (int (length (dir_entry_bytes e))) (int (48 * j)) s =
      Some (int (length (dir_entry_bytes e)), s')"
    "wrote s s' (dir_sectors s ino)"
    "fbytes (fsview s') (data ino) = buf_put (48 * j) (dir_entry_bytes e) (fbytes (fsview s) (data ino))"
    using write_inside [OF assms(1,2) ino(1-3) rng safe] unfolding inode_write_at_body dir_sectors_def by metis
  have "dents (fsview s') (data ino) = (dents (fsview s) (data ino))[j := e]"
    using dents_put [OF len assms(4) s'(3)] bytes_dir_entry_bytes [OF assms(6,7)] by simp
  moreover have "inode_ok s' ino"
    using inode_ok_wrote [OF ino(1)] s'(2) by (simp add: dir_sectors_def)
  ultimately show ?thesis using that s'(1,2) len by simp
qed

lemma first_entry_Some:
  "first_entry P es k = Some j \<Longrightarrow> k \<le> j \<and> j < length es \<and> P (es ! j)"
  unfolding first_entry_def find_Some_iff by auto

lemma first_entry_ex: "j < length es \<Longrightarrow> P (es ! j) \<Longrightarrow> \<exists>i. first_entry P es 0 = Some i"
  unfolding first_entry_def by (metis atLeastLessThan_iff find_None_iff2 less_eq_nat.simps(1) option.exhaust set_upt)

text \<open>A name that can be added: not empty and at most 14 characters.\<close>

definition name_ok :: "byte list \<Rightarrow> bool" where
  "name_ok name \<longleftrightarrow> terminated name \<and> cstr name \<noteq> [] \<and> length (cstr name) \<le> NAME_MAX"

lemma name_ok_guards:
  assumes "name_ok name"
  shows "\<exists>c. arr_get name 0 = Some c \<and> c \<noteq> 0" "strlen name = Some (length (cstr name))"
    "length (cstr name) \<le> NAME_MAX" "terminated name"
  using assms strlen_eq [of name] by (cases name; auto simp: name_ok_def arr_get_def split: if_splits)+

lemma dir_add_ok:
  assumes ok: "fs_ok s" "inodes s (dinode d) = Some ino" "dir_ok s ino" and name: "name_ok name"
    and new: "dtab s ino (cstr name) = None"
    and room: "\<exists>e \<in> set (dents (fsview s) (data ino)). \<not> in_use e" and stk: "length stk = 48"
  obtains s' e where "dir_add_directory stk d name sec isd s = Some (True, s')"
    "wrote s s' (dir_sectors s ino)" "dir_ok s' ino" "dtab s' ino = (dtab s ino)(cstr name \<mapsto> e)"
    "inode_sector e = sec" "is_dir e = isd" "in_use e"
proof -
  let ?es = "dents (fsview s) (data ino)" and ?n = "cstr name"
  note g = name_ok_guards [OF name]
  obtain s1 where s1: "lookup d name s = Some (None, s1)" "reads s s1"
    using lookup_absent [OF ok g(4) new] .
  note r1 = reads_simps [OF s1(2)]
  have io: "inode_ok s ino" using ok(3) by (simp add: dir_ok_def)
  obtain i where "i < length ?es" "\<not> in_use (?es ! i)" using room by (metis in_set_conv_nth)
  then obtain j where f: "first_entry (\<lambda>e. \<not> in_use e) ?es 0 = Some j"
    using first_entry_ex [of i ?es "\<lambda>e. \<not> in_use e"] by blast
  then have j: "j < length ?es" "\<not> in_use (?es ! j)" by (auto dest: first_entry_Some)
  obtain bs s2 where s2: "free_slot (dinode d) 0 stk s1 = Some (int (48 * j), bs, s2)" "length bs = 48"
    "bytes_dir_entry bs = ?es ! j" "reads s1 s2" "entry_warm s2 ino j 1"
    using free_slot_ok [OF r1(1), of "dinode d" ino stk 0 j] r1(2,4) ok(2) io inode_ok_reads [OF s1(2)] stk f
    by auto
  have rd: "reads s s2" using reads_trans [OF s1(2) s2(4)] .
  note r2 = reads_simps [OF rd]
  have l: "length (ename (?es ! j)) = 15" "length (e_rest (?es ! j)) = 27"
    using bytes_dir_entry_lengths [OF s2(2)] s2(3) by simp_all
  define nm where "nm = ?n @ 0 # drop (Suc (length ?n)) (ename (?es ! j))"
  have n15: "length ?n < 15" using g(3) by (simp add: NAME_MAX_def)
  have cp: "strlcpy (ename (?es ! j)) name 15 = Some (length ?n, nm)"
    using strlcpy_eq [OF g(4), of 15 "ename (?es ! j)"] n15 l(1) by (simp add: nm_def)
  have nm: "length nm = 15" "cstr nm = ?n" "terminated nm"
    using n15 l(1) cstr_append [of ?n] by (simp_all add: nm_def)
  define e where "e = (?es ! j)\<lparr>in_use := True, is_dir := isd, ename := nm, inode_sector := sec\<rparr>"
  have e: "length (ename e) = 15" "length (e_rest e) = 27" "has_name ?n e" "terminated (ename e)"
    using l nm by (simp_all add: e_def has_name_def)
  obtain s3 where s3: "inode_write_at (dinode d) (dir_entry_bytes e) 48 (int (48 * j)) s2 = Some (48, s3)"
    "wrote s2 s3 (dir_sectors s2 ino)" "dents (fsview s3) (data ino) = (dents (fsview s2) (data ino))[j := e]"
    "inode_ok s3 ino"
    using write_entry_ok [OF r2(1) _ _ _ s2(5) e(1,2), of "dinode d"] r2(2,4) ok(2,3) j(1) dir_ok_reads(1) [OF rd]
    by (metis length_dents)
  have "dir_sectors s2 ino = dir_sectors s ino" using r2(2) by (simp add: dir_sectors_def)
  then have w: "wrote s s3 (dir_sectors s ino)"
    using wrote_trans [OF reads_wrote [OF rd, of "dir_sectors s ino"] s3(2), of "dir_sectors s ino"] by simp
  have es3: "dents (fsview s3) (data ino) = ?es[j := e]" using s3(3) r2(2) by simp
  have "dir_add_directory stk d name sec isd s = Some (True, s3)"
    using g(1-3) s1(1) s2(1,3) cp s3(1) by (auto simp: dir_add_directory_def e_def Let_def)
  moreover have "dtab s3 ino = (dtab s ino)(?n \<mapsto> e)"
    unfolding dtab_def es3 using j e(3) new by (intro dmap_add) (simp_all add: dtab_def)
  moreover have "dir_ok s3 ino"
  proof -
    obtain xs ys where xy: "dnames ?es = xs @ ys" "dnames (?es[j := e]) = xs @ cstr (ename e) # ys"
      using dnames_add [OF j, of e] e(3) unfolding has_name_def by blast
    moreover have "?n \<notin> set (dnames ?es)" using new by (simp add: dtab_def dmap_None)
    moreover have "cstr (ename e) = ?n" using e(3) by (simp add: has_name_def)
    ultimately have "distinct (dnames (?es[j := e]))" using ok(3) by (auto simp: dir_ok_def)
    moreover have "\<forall>x \<in> set (?es[j := e]). in_use x \<longrightarrow> terminated (ename x)"
      using ok(3) e(4) set_update_subset_insert [of ?es j e] by (auto simp: dir_ok_def)
    ultimately show ?thesis using s3(4) ok(3) unfolding dir_ok_def es3 by simp
  qed
  ultimately show ?thesis using that w by (simp add: e_def)
qed

lemma dir_add_taken:
  assumes ok: "fs_ok s" "inodes s (dinode d) = Some ino" "dir_ok s ino" and name: "name_ok name"
    and old: "dtab s ino (cstr name) \<noteq> None"
  obtains s' where "dir_add_directory stk d name sec isd s = Some (False, s')" "reads s s'"
proof -
  note g = name_ok_guards [OF name]
  obtain e where e: "dtab s ino (cstr name) = Some e" using old by blast
  obtain j s1 where "lookup d name s = Some (Some (e, int (48 * j)), s1)" "reads s s1"
    using lookup_found [OF ok g(4) e] .
  with that g show ?thesis by (auto simp: dir_add_directory_def)
qed

text \<open>Removing the entry of a file that is open: the file itself stays until it is closed.\<close>

lemma dir_remove_ok:
  assumes ok: "open_ok s" "fs_ok s" "inodes s (dinode d) = Some ino" "dir_ok s ino" and name: "terminated name"
    and e: "dtab s ino (cstr name) = Some e" "\<not> is_dir e"
    and f: "inodes s p = Some fi" "sector fi = inode_sector e" "p \<noteq> dinode d" "sec_ok s (inode_sector e)"
  obtains s' where "dir_remove cd d name s = Some (True, cd, s')" "dir_ok s' ino"
    "dtab s' ino = (dtab s ino)(cstr name := None)" "inodes s' = (inodes s)(p \<mapsto> fi\<lparr>removed := True\<rparr>)"
    "open_inodes s' = open_inodes s" "\<forall>x. x \<notin> dir_sectors s ino \<longrightarrow> fsview s' x = fsview s x"
proof -
  let ?es = "dents (fsview s) (data ino)" and ?n = "cstr name"
  obtain j s1 where j: "j < length ?es" "?es ! j = e" "has_name ?n e"
    and s1: "lookup d name s = Some (Some (e, int (48 * j)), s1)" "reads s s1" "entry_warm s1 ino j 1"
    using lookup_found [OF ok(2-4) name e(1)] .
  note r1 = reads_simps [OF s1(2)]
  have ok1: "open_ok s1" using ok(1) r1 by (simp add: open_ok_def)
  have p: "p \<noteq> 0" "open_cnt fi > 0" using ok(1) f(1) by (auto simp: open_ok_def)
  let ?fi = "fi\<lparr>open_cnt := open_cnt fi + 1\<rparr>"
  define s2 where "s2 = s1\<lparr>inodes := (inodes s1)(p \<mapsto> ?fi)\<rparr>"
  have op: "inode_open (inode_sector e) s1 = Some (p, s2)"
  proof (cases rule: inode_open_cases [OF ok1 r1(1), of "inode_sector e"])
    case 1
    then show ?case using f(4) r1(3) by simp
  next
    case (2 q i)
    then have "q = p" using ok(1) f(1,2) r1(4) by (auto simp: open_ok_def)
    with 2 f(1) r1(4) show ?thesis by (simp add: s2_def)
  next
    case (3 t)
    then show ?thesis using f(1,2) r1(4) by auto
  qed
  have v2: "fsview s2 = fsview s" "fs_ok s2" "sec_ok s2 = sec_ok s"
    using r1(1-3) by (simp_all add: s2_def fsview_def fs_ok_def sec_ok_def)
  have io2: "dir_ok s2 ino"
    using ok(4) v2 by (simp add: dir_ok_def inode_ok_def layout_ok_def)
  have "entry_warm s2 ino j 1"
    using s1(3) by (simp add: entry_warm_def warm_range_def warm_def s2_def fsview_def)
  moreover have "length (ename (e\<lparr>in_use := False\<rparr>)) = 15" "length (e_rest (e\<lparr>in_use := False\<rparr>)) = 27"
    using bytes_dir_entry_lengths [of "buf_get (48 * j) 48 (fbytes (fsview s) (data ino))"] j(1,2)
      entry_whole [of j "fsview s" "data ino"] by (auto simp: dents_def)
  moreover have "inodes s2 (dinode d) = Some ino" using ok(3) r1(4) f(3) by (simp add: s2_def)
  ultimately obtain s3 where
    s3: "inode_write_at (dinode d) (dir_entry_bytes (e\<lparr>in_use := False\<rparr>)) 48 (int (48 * j)) s2 = Some (48, s3)"
    "wrote s2 s3 (dir_sectors s2 ino)" "dents (fsview s3) (data ino) = ?es[j := e\<lparr>in_use := False\<rparr>]" "inode_ok s3 ino"
    using write_entry_ok [OF v2(2) _ io2, of "dinode d" j 1] j(1) v2(1) by metis
  define s' where "s' = s3\<lparr>inodes := (inodes s)(p \<mapsto> fi\<lparr>removed := True\<rparr>)\<rparr>"
  have i3: "inodes s3 = (inodes s)(p \<mapsto> ?fi)" using wrote_fields(3) [OF s3(2)] r1(4) by (simp add: s2_def)
  have "dir_erase d e (int (48 * j)) s1 = Some (True, s')"
    using op s3(1) p i3
    by (simp add: dir_erase_def inode_remove_def inode_close_def upd_inode_def s'_def)
  then have "dir_remove cd d name s = Some (True, cd, s')"
    using s1(1) e(2) by (simp add: dir_remove_def)
  moreover have v': "fsview s' = fsview s3" by (simp add: s'_def fsview_def)
  have "dtab s' ino = (dtab s ino)(?n := None)"
    unfolding dtab_def v' s3(3) using j ok(4) by (intro dmap_remove) (simp_all add: dir_ok_def)
  moreover have "dir_ok s' ino"
  proof -
    have "distinct (dnames (?es[j := e\<lparr>in_use := False\<rparr>]))"
      using ok(4) by (intro dnames_remove) (simp_all add: dir_ok_def)
    moreover have "\<forall>x \<in> set (?es[j := e\<lparr>in_use := False\<rparr>]). in_use x \<longrightarrow> terminated (ename x)"
      using ok(4) set_update_subset_insert [of ?es j "e\<lparr>in_use := False\<rparr>"] by (auto simp: dir_ok_def)
    moreover have "sec_ok s' = sec_ok s3" by (simp add: s'_def sec_ok_def)
    then have "inode_ok s' ino" using s3(4) v' by (simp add: inode_ok_def layout_ok_def)
    ultimately show ?thesis using ok(4) unfolding dir_ok_def v' s3(3) by simp
  qed
  moreover have "open_inodes s' = open_inodes s"
    using wrote_fields(4) [OF s3(2)] r1(5) by (simp add: s'_def s2_def)
  moreover have "\<forall>x. x \<notin> dir_sectors s ino \<longrightarrow> fsview s' x = fsview s x"
    using s3(2) v2(1) v' by (simp add: wrote_def dir_sectors_def)
  ultimately show ?thesis using that by (simp add: s'_def)
qed

section \<open>The interface of a directory\<close>

text \<open>
  What a client of a directory relies on: a table of names that a search reads, that an
  addition extends by one name, and that an addition of a name in use leaves alone.
\<close>

locale name_table =
  fixes good :: "'s \<Rightarrow> bool"
    and legal :: "byte list \<Rightarrow> bool"
    and room :: "'s \<Rightarrow> bool"
    and tab :: "'s \<Rightarrow> byte list \<Rightarrow> 'e option"
    and val :: "'e \<Rightarrow> 'v"
    and look :: "byte list \<Rightarrow> 's \<Rightarrow> ('e option \<times> 's) option"
    and add :: "byte list \<Rightarrow> 'v \<Rightarrow> 's \<Rightarrow> (bool \<times> 's) option"
  assumes look_law: "good s \<Longrightarrow> legal n \<Longrightarrow> \<exists>s'. look n s = Some (tab s n, s') \<and> good s' \<and> tab s' = tab s"
    and add_law: "good s \<Longrightarrow> legal n \<Longrightarrow> room s \<Longrightarrow> tab s n = None \<Longrightarrow>
      \<exists>s' e. add n v s = Some (True, s') \<and> good s' \<and> tab s' = (tab s)(n \<mapsto> e) \<and> val e = v"
    and taken_law: "good s \<Longrightarrow> legal n \<Longrightarrow> tab s n \<noteq> None \<Longrightarrow>
      \<exists>s'. add n v s = Some (False, s') \<and> good s' \<and> tab s' = tab s"
begin

text \<open>A name that was added is found, with its value, and no other name is affected.\<close>

lemma add_look:
  assumes "good s" "legal n" "room s" "tab s n = None" "legal m"
  obtains s1 s2 e where "add n v s = Some (True, s1)" "good s1"
    "look m s1 = Some (if m = n then Some e else tab s m, s2)" "val e = v" "good s2"
proof -
  obtain s1 e where a: "add n v s = Some (True, s1)" "good s1" "tab s1 = (tab s)(n \<mapsto> e)" "val e = v"
    using add_law [OF assms(1-4)] by blast
  obtain s2 where "look m s1 = Some (tab s1 m, s2)" "good s2" using look_law [OF a(2) assms(5)] by blast
  with a that show ?thesis by auto
qed

text \<open>The same name cannot be added twice.\<close>

lemma add_twice:
  assumes "good s" "legal n" "room s" "tab s n = None"
  obtains s1 s2 where "add n v s = Some (True, s1)" "add n w s1 = Some (False, s2)" "tab s2 = tab s1"
proof -
  obtain s1 e where a: "add n v s = Some (True, s1)" "good s1" "tab s1 = (tab s)(n \<mapsto> e)"
    using add_law [OF assms] by blast
  moreover have "tab s1 n \<noteq> None" using a(3) by simp
  then obtain s2 where "add n w s1 = Some (False, s2)" "tab s2 = tab s1"
    using taken_law [OF a(2) assms(2)] by blast
  ultimately show ?thesis using that by blast
qed

end

text \<open>A directory with inode \<open>ino\<close>, open as \<open>d\<close>; names are given without terminator.\<close>

definition dgood :: "dir_s \<Rightarrow> inode \<Rightarrow> fsstate \<Rightarrow> bool" where
  "dgood d ino s \<longleftrightarrow> fs_ok s \<and> inodes s (dinode d) = Some ino \<and> dir_ok s ino"

definition dlegal :: "byte list \<Rightarrow> bool" where
  "dlegal n \<longleftrightarrow> 0 \<notin> set n \<and> n \<noteq> [] \<and> length n \<le> NAME_MAX"

definition droom :: "inode \<Rightarrow> fsstate \<Rightarrow> bool" where
  "droom ino s \<longleftrightarrow> (\<exists>e \<in> set (dents (fsview s) (data ino)). \<not> in_use e)"

definition dlook :: "dir_s \<Rightarrow> byte list \<Rightarrow> fsstate \<Rightarrow> (dir_entry option \<times> fsstate) option" where
  "dlook d n s = map_option (\<lambda>(r, s). (map_option fst r, s)) (lookup d (n @ [0]) s)"

text \<open>Any 48 bytes can be the old contents of the local variable.\<close>

definition stk48 :: "byte list \<Rightarrow> byte list" where
  "stk48 b = take 48 (b @ replicate 48 0)"

lemma length_stk48 [simp]: "length (stk48 b) = 48"
  by (simp add: stk48_def)

lemma stk48_id: "length b = 48 \<Longrightarrow> stk48 b = b"
  by (simp add: stk48_def)

definition dadd :: "byte list \<Rightarrow> dir_s \<Rightarrow> byte list \<Rightarrow> u32 \<times> bool \<Rightarrow> fsstate \<Rightarrow> (bool \<times> fsstate) option" where
  "dadd stk d n = (\<lambda>(sec, isd). dir_add_directory stk d (n @ [0]) sec isd)"

lemma dlegal_name:
  assumes "dlegal n"
  shows "name_ok (n @ [0])" "terminated (n @ [0])" "cstr (n @ [0]) = n"
proof -
  have n: "0 \<notin> set n" "n \<noteq> []" "length n \<le> NAME_MAX" using assms by (simp_all add: dlegal_def)
  show "terminated (n @ [0])" "cstr (n @ [0]) = n" using cstr_append [OF n(1), of "[]"] by simp_all
  with n show "name_ok (n @ [0])" by (simp add: name_ok_def)
qed

lemma dgood_reads: "reads s s' \<Longrightarrow> dgood d ino s \<Longrightarrow> dgood d ino s'"
  by (simp add: dgood_def reads_simps dir_ok_reads)

interpretation dt: name_table "dgood d ino" dlegal "droom ino" "\<lambda>s. dtab s ino"
    "\<lambda>e. (inode_sector e, is_dir e)" "dlook d" "dadd (stk48 stk) d"
  for d ino stk
proof
  fix s n
  assume good: "dgood d ino s" and n: "dlegal n"
  then have ok: "fs_ok s" "inodes s (dinode d) = Some ino" "dir_ok s ino" by (simp_all add: dgood_def)
  note nm = dlegal_name [OF n]
  show "\<exists>s'. dlook d n s = Some (dtab s ino n, s') \<and> dgood d ino s' \<and> dtab s' ino = dtab s ino"
  proof (cases rule: lookup_ok [OF ok nm(2)])
    case (1 j s')
    then show ?thesis using nm(3) dgood_reads [OF 1(5) good] dir_ok_reads(2) [OF 1(5)] by (simp add: dlook_def)
  next
    case (2 s')
    then show ?thesis using nm(3) dgood_reads [OF 2(3) good] dir_ok_reads(2) [OF 2(3)] by (simp add: dlook_def)
  qed
  fix v :: "u32 \<times> bool"
  let ?stk = "stk48 stk"
  {
    assume room: "droom ino s" and "dtab s ino n = None"
    then have new: "dtab s ino (cstr (n @ [0])) = None" using nm(3) by simp
    obtain s' e where "dir_add_directory ?stk d (n @ [0]) (fst v) (snd v) s = Some (True, s')"
      "wrote s s' (dir_sectors s ino)" "dir_ok s' ino" "dtab s' ino = (dtab s ino)(cstr (n @ [0]) \<mapsto> e)"
      "inode_sector e = fst v" "is_dir e = snd v"
      using dir_add_ok [OF ok nm(1) new room [unfolded droom_def] length_stk48] .
    then show "\<exists>s' e. dadd ?stk d n v s = Some (True, s') \<and> dgood d ino s' \<and>
        dtab s' ino = (dtab s ino)(n \<mapsto> e) \<and> (inode_sector e, is_dir e) = v"
      using ok(2) nm(3) wrote_fields(1,3) [of s s']
      by (intro exI [of _ s'] exI [of _ e]) (simp add: dadd_def dgood_def case_prod_beta)
  next
    assume old: "dtab s ino n \<noteq> None"
    then obtain s' where "dir_add_directory ?stk d (n @ [0]) (fst v) (snd v) s = Some (False, s')" "reads s s'"
      using dir_add_taken [OF ok nm(1)] nm(3) by metis
    then show "\<exists>s'. dadd ?stk d n v s = Some (False, s') \<and> dgood d ino s' \<and> dtab s' ino = dtab s ino"
      using dgood_reads [OF _ good] dir_ok_reads(2) by (auto simp: dadd_def case_prod_beta)
  }
qed

section \<open>A sample directory\<close>

text \<open>A directory with one file \<open>a\<close>, which is open, and eleven free slots.\<close>

definition sample_dent :: dir_entry where
  "sample_dent = \<lparr>inode_sector = 30, ename = 97 # replicate 14 0, in_use = True, is_dir = False,
     e_rest = replicate 27 0\<rparr>"

definition sample_dir_dev :: block where
  "sample_dir_dev = sample_dev\<lparr>disk := (\<lambda>x. if x = 10 then dir_entry_bytes sample_dent @ replicate 464 0
     else replicate 512 0)\<rparr>"

definition sample_dir_fs :: fsstate where
  "sample_dir_fs = sample_fs\<lparr>bc := sample_buf\<lparr>devs := (\<lambda>_. sample_dir_dev)\<rparr>,
     inodes := [3 \<mapsto> sample_inode, 2 \<mapsto> sample_inode\<lparr>sector := 30\<rparr>], open_inodes := [3, 2]\<rparr>"

definition sample_dir :: dir_s where
  "sample_dir = \<lparr>dinode = 3, dpos = 0, is_remove = False\<rparr>"

lemma sample_dir_sec_ok: "x < 100 \<Longrightarrow> sec_ok sample_dir_fs x"
  by (simp add: sec_ok_def sample_dir_fs_def sample_fs_def sector_ok_def dev_ok_def sample_dir_dev_def sample_dev_def
      BLOCK_SECTOR_SIZE_def length_dir_entry_bytes sample_dent_def)

lemma sample_dir_view: "fsview sample_dir_fs = disk sample_dir_dev"
proof -
  have "cached (open_sectors sample_buf) = Map.empty" by (simp add: sample_entries)
  then show ?thesis by (simp add: fun_eq_iff fsview_def view_def sample_dir_fs_def sample_fs_def)
qed

lemma sample_dir_fs_ok: "fs_ok sample_dir_fs" "inodes sample_dir_fs 3 = Some sample_inode"
  by (simp_all add: fs_ok_def sample_dir_fs_def sample_fs_def buf_ok_def sample_entries packed_invalid
      entry_ok_def BLOCK_SECTOR_SIZE_def)

lemma sample_dir_bytes:
  "fbytes (disk sample_dir_dev) sample_di = dir_entry_bytes sample_dent @ replicate 552 0"
proof (rule nth_equalityI)
  have l: "length (dir_entry_bytes sample_dent) = 48"
    by (simp add: length_dir_entry_bytes sample_dent_def)
  then show "length (fbytes (disk sample_dir_dev) sample_di) = length (dir_entry_bytes sample_dent @ replicate 552 0)"
    by (simp add: sample_di_def)
  fix p
  assume "p < length (fbytes (disk sample_dir_dev) sample_di)"
  then have p: "p < 600" by (simp add: sample_di_def)
  then have "p < 512 \<and> p div 512 = 0 \<and> p mod 512 = p \<or> 512 \<le> p \<and> p div 512 = 1 \<and> p mod 512 = p - 512"
    by (auto simp: div_if mod_if)
  then have "file_byte (disk sample_dir_dev) sample_di p = (dir_entry_bytes sample_dent @ replicate 552 0) ! p"
    using p l by (auto simp: file_byte_def index_sector_def sample_di_def sample_dir_dev_def nth_append)
  then show "fbytes (disk sample_dir_dev) sample_di ! p = (dir_entry_bytes sample_dent @ replicate 552 0) ! p"
    using p by (simp add: fbytes_def sample_di_def)
qed

lemma sample_dents:
  "dents (fsview sample_dir_fs) sample_di = sample_dent # replicate 11 (bytes_dir_entry (replicate 48 0))"
proof -
  have l: "length (dir_entry_bytes sample_dent) = 48"
    by (simp add: length_dir_entry_bytes sample_dent_def)
  have "buf_get (48 * k) 48 (dir_entry_bytes sample_dent @ replicate 552 0) =
      (if k = 0 then dir_entry_bytes sample_dent else replicate 48 0)" if "k < 12" for k
    using l that by (auto simp: buf_get_def take_Cons' drop_Cons')
  moreover have "bytes_dir_entry (dir_entry_bytes sample_dent) = sample_dent"
    by (simp add: bytes_dir_entry_bytes sample_dent_def)
  ultimately show ?thesis
    by (intro nth_equalityI)
      (auto simp: dents_def sample_dir_view sample_dir_bytes sample_fs_ok(5) nth_Cons')
qed

lemma sample_dir_ok: "dir_ok sample_dir_fs sample_inode"
proof -
  have two: "i = 0 \<or> i = 1" if "i < 2" for i :: nat using that by auto
  have idx: "index_sector v sample_di 0 = 10" "index_sector v sample_di 1 = 11"
    "i < 2 \<Longrightarrow> index_blocks v sample_di i = []" for v i
    by (simp_all add: index_sector_def index_blocks_def sample_di_def)
  have "inode_ok sample_dir_fs sample_inode"
    using idx by (auto simp: inode_ok_def sectors_of_def sample_inode_def sample_fs_ok(5) layout_ok_def sep_def
        MAX_SECTORS_def inj_on_def sample_dir_sec_ok di_ok_def DIR_LEN_def MAX_LEN_eq dest!: two)
      (simp_all add: sample_di_def)
  then show ?thesis
    using sample_dents by (simp add: dir_ok_def small_dir_def sample_inode_def sample_fs_ok(5) bytes_dir_entry_def
        sample_dent_def dnames_def terminated_def)
qed

lemma cstr_zeros [simp]: "cstr (replicate n 0) = []"
  by (cases n) simp_all

lemma sample_dir_tab: "dtab sample_dir_fs sample_inode = [[97] \<mapsto> sample_dent]"
  using sample_dents
  by (auto simp: fun_eq_iff dtab_def sample_inode_def has_name_def bytes_dir_entry_def dmap_None dnames_def
      sample_dent_def)

section \<open>Claims\<close>

text \<open>
  C24: searching a directory returns the entry that the directory's table has for the name,
  at the offset of that entry, or reports that there is none, and changes neither the
  contents of any sector nor any inode.
\<close>

theorem lookup_refines_table:
  assumes "fs_ok s" "inodes s (dinode d) = Some ino" "dir_ok s ino" "terminated name"
  shows "\<exists>r s'. lookup d name s = Some (r, s') \<and> map_option fst r = dtab s ino (cstr name) \<and>
    (\<forall>e ofs. r = Some (e, ofs) \<longrightarrow> (\<exists>j < length (dents (fsview s) (data ino)).
       ofs = int (48 * j) \<and> dents (fsview s) (data ino) ! j = e)) \<and>
    fsview s' = fsview s \<and> inodes s' = inodes s"
proof (cases rule: lookup_ok [OF assms])
  case (1 j s')
  then show ?thesis using reads_simps(2,4) [OF 1(5)] by auto
next
  case (2 s')
  then show ?thesis using reads_simps(2,4) [OF 2(3)] by auto
qed

theorem lookup_refines_table_witness:
  "\<exists>r s'. lookup sample_dir [97, 0] sample_dir_fs = Some (r, s') \<and> map_option fst r = Some sample_dent"
  using lookup_refines_table [of sample_dir_fs sample_dir sample_inode "[97, 0]"] sample_dir_fs_ok sample_dir_ok
  by (auto simp: sample_dir_def sample_dir_tab)

text \<open>
  C25: adding an entry to a directory with a free slot succeeds: afterwards a search finds
  the new name with the sector and the kind it was added with, every other name is found as
  before, and the entry is not confused with the bytes of other sectors even though only
  48 bytes are written.
\<close>

theorem dir_add_then_lookup:
  assumes "dgood d ino s" "dlegal n" "droom ino s" "dtab s ino n = None" "dlegal m" "length stk = 48"
  shows "\<exists>s1 s2 e. dir_add_directory stk d (n @ [0]) sec isd s = Some (True, s1) \<and>
    dlook d m s1 = Some (if m = n then Some e else dtab s ino m, s2) \<and>
    inode_sector e = sec \<and> is_dir e = isd"
proof -
  obtain s1 s2 e where "dadd (stk48 stk) d n (sec, isd) s = Some (True, s1)"
    "dlook d m s1 = Some (if m = n then Some e else dtab s ino m, s2)" "(inode_sector e, is_dir e) = (sec, isd)"
    using dt.add_look [OF assms(1-5)] .
  then show ?thesis using assms(6) by (auto simp: dadd_def stk48_id)
qed

theorem dir_add_then_lookup_witness:
  "\<exists>s1 s2 e. dir_add_directory (replicate 48 1) sample_dir [98, 0] 40 True sample_dir_fs = Some (True, s1) \<and>
     dlook sample_dir [98] s1 = Some (Some e, s2) \<and> inode_sector e = 40 \<and> is_dir e"
proof -
  have "dgood sample_dir sample_inode sample_dir_fs"
    using sample_dir_fs_ok sample_dir_ok by (simp add: dgood_def sample_dir_def)
  moreover have "droom sample_inode sample_dir_fs"
    using sample_dents by (simp add: droom_def sample_inode_def bytes_dir_entry_def)
  ultimately show ?thesis
    using dir_add_then_lookup [of sample_dir sample_inode sample_dir_fs "[98]" "[98]" "replicate 48 1" 40 True]
    by (auto simp: dlegal_def NAME_MAX_def sample_dir_tab)
qed

text \<open>
  C26: no directory gets two entries of the same name: adding a name keeps the names of the
  entries in use different from each other, and adding a name a second time is refused and
  leaves the table as it is.
\<close>

theorem dir_names_stay_unique:
  assumes "dgood d ino s" "dlegal n" "droom ino s" "dtab s ino n = None" "length stk = 48"
  shows "\<exists>s1 s2. dir_add_directory stk d (n @ [0]) sec isd s = Some (True, s1) \<and>
    distinct (dnames (dents (fsview s1) (data ino))) \<and>
    dir_add_directory stk d (n @ [0]) sec' isd' s1 = Some (False, s2) \<and> dtab s2 ino = dtab s1 ino"
proof -
  obtain s1 s2 where s: "dadd (stk48 stk) d n (sec, isd) s = Some (True, s1)"
    "dadd (stk48 stk) d n (sec', isd') s1 = Some (False, s2)" "dtab s2 ino = dtab s1 ino"
    using dt.add_twice [OF assms(1-4)] .
  have "dgood d ino s1" using dt.add_law [OF assms(1-4), of stk "(sec, isd)"] s(1) by auto
  with s assms(5) show ?thesis by (auto simp: dadd_def stk48_id dgood_def dir_ok_def)
qed

theorem dir_names_stay_unique_witness:
  "\<exists>s1 s2. dir_add_directory (replicate 48 1) sample_dir [98, 0] 40 True sample_dir_fs = Some (True, s1) \<and>
     dir_add_directory (replicate 48 1) sample_dir [98, 0] 41 False s1 = Some (False, s2)"
proof -
  have "dgood sample_dir sample_inode sample_dir_fs"
    using sample_dir_fs_ok sample_dir_ok by (simp add: dgood_def sample_dir_def)
  moreover have "droom sample_inode sample_dir_fs"
    using sample_dents by (simp add: droom_def sample_inode_def bytes_dir_entry_def)
  ultimately show ?thesis
    using dir_names_stay_unique [of sample_dir sample_inode sample_dir_fs "[98]" "replicate 48 1" 40 True 41 False]
    by (auto simp: dlegal_def NAME_MAX_def sample_dir_tab)
qed

text \<open>
  C27: removing the name of a file that is open elsewhere takes the name out of the directory
  and marks the file as removed, but the file stays open with its contents: no sector
  outside the directory changes and no inode other than the file's.
\<close>

theorem dir_remove_keeps_open_file:
  assumes "open_ok s" "fs_ok s" "inodes s (dinode d) = Some ino" "dir_ok s ino" "terminated name"
    "dtab s ino (cstr name) = Some e" "\<not> is_dir e"
    "inodes s p = Some fi" "sector fi = inode_sector e" "p \<noteq> dinode d" "sec_ok s (inode_sector e)"
  shows "\<exists>s'. dir_remove cd d name s = Some (True, cd, s') \<and>
    dtab s' ino = (dtab s ino)(cstr name := None) \<and>
    inodes s' = (inodes s)(p \<mapsto> fi\<lparr>removed := True\<rparr>) \<and>
    (\<forall>x. x \<notin> dir_sectors s ino \<longrightarrow> fsview s' x = fsview s x)"
  using dir_remove_ok [OF assms] by metis

theorem dir_remove_keeps_open_file_witness:
  "\<exists>s'. dir_remove None sample_dir [97, 0] sample_dir_fs = Some (True, None, s') \<and>
     dtab s' sample_inode [97] = None"
proof -
  have "open_ok sample_dir_fs"
    by (auto simp: open_ok_def sample_dir_fs_def sample_fs_def sample_inode_def split: if_splits)
  moreover have "inodes sample_dir_fs 2 = Some (sample_inode\<lparr>sector := 30\<rparr>)" by (simp add: sample_dir_fs_def)
  ultimately show ?thesis
    using dir_remove_keeps_open_file [of sample_dir_fs sample_dir sample_inode "[97, 0]" sample_dent 2
        "sample_inode\<lparr>sector := 30\<rparr>" None]
      sample_dir_fs_ok sample_dir_ok sample_dir_sec_ok [of 30] sample_dir_tab
    by (auto simp: sample_dir_def sample_dent_def)
qed

end
