(* ===== verification/Filesys.thy ===== *)
theory Filesys
  imports Dir_Spec
begin

text \<open>
  Path names and the file system module, \<open>filesys/filesys.c\<close>.  The local variables that the
  code leaves uninitialised are arguments: \<open>part0\<close> the array \<open>part\<close>, \<open>ent0\<close> the variable
  \<open>entry\<close>, and \<open>stk\<close> the entry inside \<open>dir_add_directory\<close>.  \<open>cd\<close> is the current
  directory of the running thread.
\<close>

section \<open>Splitting a path\<close>

fun skip_slashes :: "byte list \<Rightarrow> byte list option" where
  "skip_slashes [] = None"
| "skip_slashes (c # src) = (if c = 47 then skip_slashes src else Some (c # src))"

text \<open>
  The copying loop: the new array, and the number of characters with the rest of the
  string unless the part is too long.
\<close>

fun copy_part :: "byte list \<Rightarrow> nat \<Rightarrow> byte list \<Rightarrow> (byte list \<times> (nat \<times> byte list) option) option" where
  "copy_part [] i part = None"
| "copy_part (c # src) i part =
     (if c \<noteq> 47 \<and> c \<noteq> 0 then
        (if i < NAME_MAX then do { part \<leftarrow> arr_set part (int i) c; copy_part src (Suc i) part }
         else Some (part, None))
      else Some (part, Some (i, c # src)))"

definition get_next_part :: "byte list \<Rightarrow> byte list \<Rightarrow> (int \<times> byte list \<times> byte list) option" where
  "get_next_part part srcp = do {
     src \<leftarrow> skip_slashes srcp;
     c \<leftarrow> arr_get src 0;
     if c = 0 then Some (0, part, srcp)
     else do {
       (part, r) \<leftarrow> copy_part src 0 part;
       case r of
         None \<Rightarrow> Some (- 1, part, srcp)
       | Some (i, src) \<Rightarrow> do {
           part \<leftarrow> arr_set part (int i) 0;
           c \<leftarrow> arr_get src 0;
           Some (if c = 0 then 0 else 1, part, src) } } }"

section \<open>Walking down a path\<close>

text \<open>The directory a path starts from; \<^term>\<open>None\<close> if the current directory was removed.\<close>

definition start_dir ::
    "dir_s option \<Rightarrow> byte list \<Rightarrow> fsstate \<Rightarrow> (dir_s option option \<times> dir_s option \<times> fsstate) option" where
  "start_dir cd name s = do {
     (cd, s) \<leftarrow> filesys_curr_dir cd s;
     c \<leftarrow> arr_get name 0;
     if c = 47 then do { (d, s) \<leftarrow> dir_open_root s; Some (Some d, cd, s) }
     else do {
       cur \<leftarrow> cd;
       if is_remove cur then Some (None, cd, s)
       else do { (d, s) \<leftarrow> dir_reopen cur s; Some (Some d, cd, s) } } }"

text \<open>Entering the subdirectory of an entry.\<close>

definition enter_dir :: "dir_entry \<Rightarrow> dir_s option \<Rightarrow> fsstate \<Rightarrow> (dir_s option \<times> fsstate) option" where
  "enter_dir e d s = do {
     (ip, s) \<leftarrow> inode_open (inode_sector e) s;
     s \<leftarrow> dir_close d s;
     dir_open ip s }"

text \<open>
  The loop over the parts of a path that all but the last are subdirectories.  The result
  says whether all were found, and has the last part and the directory it belongs to.
\<close>

partial_function (option) walk ::
    "byte list \<Rightarrow> byte list \<Rightarrow> dir_entry \<Rightarrow> dir_s option \<Rightarrow> fsstate
     \<Rightarrow> (bool \<times> byte list \<times> dir_entry \<times> dir_s option \<times> fsstate) option" where
  "walk part name entry d s = do {
     (r, part, name) \<leftarrow> get_next_part part name;
     if r = 1 then do {
       dd \<leftarrow> d;
       (x, s) \<leftarrow> entry_lookup dd part True s;
       case x of
         Some (entry, ofs) \<Rightarrow> do {
           (d, s) \<leftarrow> enter_dir entry d s;
           walk part name entry d s }
       | None \<Rightarrow> Some (False, part, entry, d, s) }
     else Some (True, part, entry, d, s) }"

section \<open>Creating\<close>

text \<open>
  The common part of the two functions that create something: allocate a sector, create an
  inode there and enter it into the directory.  The result has the sector, 0 if none was
  allocated.
\<close>

definition create_node ::
    "byte list \<Rightarrow> dir_s option \<Rightarrow> byte list \<Rightarrow> int \<Rightarrow> bool \<Rightarrow> fsstate \<Rightarrow> (bool \<times> u32 \<times> fsstate) option" where
  "create_node stk d part initial_size isd s = (case d of
       None \<Rightarrow> Some (False, 0, s)
     | Some dd \<Rightarrow> do {
         (r, s) \<leftarrow> free_map_allocate inode_write_at 1 s;
         case r of
           None \<Rightarrow> Some (False, 0, s)
         | Some sec \<Rightarrow> do {
             (ok, s) \<leftarrow> inode_create inode_write_at sec initial_size s;
             if \<not> ok then Some (False, sec, s)
             else do {
               (ok, s) \<leftarrow> (if isd then dir_add_directory stk dd part sec True s else dir_add stk dd part sec s);
               Some (ok, sec, s) } } })"

definition filesys_create ::
    "byte list \<Rightarrow> dir_entry \<Rightarrow> byte list \<Rightarrow> dir_s option \<Rightarrow> byte list \<Rightarrow> int \<Rightarrow> fsstate
     \<Rightarrow> (bool \<times> dir_s option \<times> fsstate) option" where
  "filesys_create part0 ent0 stk cd name initial_size s = do {
     (st, cd, s) \<leftarrow> start_dir cd name s;
     case st of
       None \<Rightarrow> Some (False, cd, s)
     | Some d \<Rightarrow> do {
         part \<leftarrow> arr_set part0 0 0;
         (success, part, entry, d, s) \<leftarrow> walk part name ent0 d s;
         (success, sec, s) \<leftarrow>
           (if success then create_node stk d part initial_size False s else Some (False, 0, s));
         s \<leftarrow> (if \<not> success \<and> sec \<noteq> 0 then free_map_release inode_write_at sec 1 s else Some s);
         s \<leftarrow> dir_close d s;
         Some (success, cd, s) } }"

text \<open>
  A new directory gets the entries \<open>..\<close> and \<open>.\<close>, written from the local variable
  \<open>entry\<close>, whose field \<open>in_use\<close> the code does not set.
\<close>

definition write_dots :: "dir_entry \<Rightarrow> u32 \<Rightarrow> u32 \<Rightarrow> fsstate \<Rightarrow> fsstate option" where
  "write_dots entry parent sec s = do {
     let entry = entry\<lparr>inode_sector := parent, is_dir := True\<rparr>;
     (_, nm) \<leftarrow> strlcpy (ename entry) dotdot 3;
     let entry = entry\<lparr>ename := nm\<rparr>;
     (ip, s) \<leftarrow> inode_open sec s;
     (_, s) \<leftarrow> inode_write_at ip (dir_entry_bytes entry) 48 0 s;
     (_, nm) \<leftarrow> strlcpy (ename entry) dot 2;
     let entry = entry\<lparr>ename := nm, inode_sector := sec\<rparr>;
     (_, s) \<leftarrow> inode_write_at ip (dir_entry_bytes entry) 48 48 s;
     inode_close inode_write_at ip s }"

definition filesys_create_dir ::
    "byte list \<Rightarrow> dir_entry \<Rightarrow> byte list \<Rightarrow> dir_s option \<Rightarrow> byte list \<Rightarrow> fsstate
     \<Rightarrow> (bool \<times> dir_s option \<times> fsstate) option" where
  "filesys_create_dir part0 ent0 stk cd name s = do {
     (st, cd, s) \<leftarrow> start_dir cd name s;
     case st of
       None \<Rightarrow> Some (False, cd, s)
     | Some d \<Rightarrow> do {
         part \<leftarrow> arr_set part0 0 0;
         (success, part, entry, d, s) \<leftarrow> walk part name ent0 d s;
         (success, sec, s) \<leftarrow>
           (if success then create_node stk d part 512 True s else Some (False, 0, s));
         s \<leftarrow> (if success then do {
                  dd \<leftarrow> d;
                  parent \<leftarrow> inode_get_inumber (dinode dd) s;
                  write_dots entry parent sec s }
                else Some s);
         s \<leftarrow> (if \<not> success \<and> sec \<noteq> 0 then free_map_release inode_write_at sec 1 s else Some s);
         s \<leftarrow> dir_close d s;
         Some (success, cd, s) } }"

section \<open>Opening and removing\<close>

definition slash :: "byte list" where
  "slash = [47, 0]"

definition filesys_open ::
    "byte list \<Rightarrow> dir_entry \<Rightarrow> dir_s option \<Rightarrow> byte list \<Rightarrow> fsstate
     \<Rightarrow> (file_s option \<times> dir_s option \<times> fsstate) option" where
  "filesys_open part0 ent0 cd name s = do {
     (st, cd, s) \<leftarrow> start_dir cd name s;
     case st of
       None \<Rightarrow> Some (None, cd, s)
     | Some d \<Rightarrow> do {
         r \<leftarrow> strcmp slash name;
         if r = 0 then Some (None, cd, s)
         else do {
           (success, part, entry, d, s) \<leftarrow> walk part0 name ent0 d s;
           if success then do {
             dd \<leftarrow> d;
             (ip, s) \<leftarrow> dir_lookup_files dd part s;
             s \<leftarrow> dir_close d s;
             (f, s) \<leftarrow> file_open ip s;
             Some (f, cd, s) }
           else do {
             s \<leftarrow> dir_close d s;
             Some (None, cd, s) } } } }"

definition filesys_open_directory ::
    "byte list \<Rightarrow> dir_entry \<Rightarrow> dir_s option \<Rightarrow> byte list \<Rightarrow> fsstate
     \<Rightarrow> (dir_s option \<times> dir_s option \<times> fsstate) option" where
  "filesys_open_directory part0 ent0 cd name s = do {
     (st, cd, s) \<leftarrow> start_dir cd name s;
     case st of
       None \<Rightarrow> Some (None, cd, s)
     | Some d \<Rightarrow> do {
         r \<leftarrow> strcmp slash name;
         if r = 0 then do { (d, s) \<leftarrow> dir_open_root s; Some (d, cd, s) }
         else do {
           (success, part, entry, d, s) \<leftarrow> walk part0 name ent0 d s;
           (x, s) \<leftarrow> (if success then do {
                        dd \<leftarrow> d;
                        entry_lookup dd part True s }
                     else Some (None, s));
           case x of
             Some (entry, ofs) \<Rightarrow> do {
               (d, s) \<leftarrow> enter_dir entry d s;
               Some (d, cd, s) }
           | None \<Rightarrow> do {
               s \<leftarrow> dir_close d s;
               Some (None, cd, s) } } } }"

definition filesys_remove ::
    "byte list \<Rightarrow> dir_entry \<Rightarrow> dir_s option \<Rightarrow> byte list \<Rightarrow> fsstate
     \<Rightarrow> (bool \<times> dir_s option \<times> fsstate) option" where
  "filesys_remove part0 ent0 cd name s = do {
     (st, cd, s) \<leftarrow> start_dir cd name s;
     case st of
       None \<Rightarrow> Some (False, cd, s)
     | Some d \<Rightarrow> do {
         part \<leftarrow> arr_set part0 0 0;
         (success, part, entry, d, s) \<leftarrow> walk part name ent0 d s;
         (success, cd, s) \<leftarrow>
           (if success then
              (case d of None \<Rightarrow> Some (False, cd, s) | Some dd \<Rightarrow> dir_remove cd dd part s)
            else Some (False, cd, s));
         s \<leftarrow> dir_close d s;
         Some (success, cd, s) } }"

section \<open>Starting and stopping\<close>

definition do_format :: "fsstate \<Rightarrow> fsstate option" where
  "do_format s = do {
     s \<leftarrow> free_map_create s;
     (ok, s) \<leftarrow> dir_create 1 16 s;
     kassert ok;
     free_map_close s }"

text \<open>
  \<open>dev\<close> is the device with the file system role, \<open>mem\<close> the memory that \<open>malloc\<close> returns
  for the bits of the free map.
\<close>

definition filesys_init :: "nat option \<Rightarrow> u32 list option \<Rightarrow> bool \<Rightarrow> fsstate \<Rightarrow> fsstate option" where
  "filesys_init dev mem format s = do {
     dev \<leftarrow> dev;
     let s = s\<lparr>fs_device := dev\<rparr>;
     let (m1, s) = calloc_fs s;
     let (m2, s) = (if m1 then calloc_fs s else (False, s));
     let s = s\<lparr>bc := snd (buffer_init m1 m2 (bc s))\<rparr>;
     let s = inode_init s;
     s \<leftarrow> free_map_init mem s;
     s \<leftarrow> (if format then do_format s else Some s);
     free_map_open s }"

definition filesys_done :: "fsstate \<Rightarrow> fsstate option" where
  "filesys_done s = do {
     b \<leftarrow> buffer_update_disk (bc s);
     free_map_close (s\<lparr>bc := b\<rparr>) }"

section \<open>The parts of a path\<close>

lemma skip_slashes_eq:
  "terminated src \<Longrightarrow> \<exists>ys. src = takeWhile (\<lambda>c. c = 47) (cstr src) @ ys \<and> skip_slashes src = Some ys \<and>
     terminated ys \<and> cstr ys = dropWhile (\<lambda>c. c = 47) (cstr src)"
  by (induction src) auto

lemma copy_part_eq:
  assumes "terminated src" "length part = 15"
  shows "if i + length (takeWhile (\<lambda>c. c \<noteq> 47) (cstr src)) \<le> NAME_MAX
    then \<exists>ys. copy_part src i part = Some (buf_put i (takeWhile (\<lambda>c. c \<noteq> 47) (cstr src)) part,
           Some (i + length (takeWhile (\<lambda>c. c \<noteq> 47) (cstr src)), ys)) \<and>
         terminated ys \<and> cstr ys = dropWhile (\<lambda>c. c \<noteq> 47) (cstr src)
    else i \<le> NAME_MAX \<longrightarrow> (\<exists>part'. copy_part src i part = Some (part', None))"
  using assms
proof (induction src arbitrary: i part)
  case (Cons c src)
  show ?case
  proof (cases "c \<noteq> 47 \<and> c \<noteq> 0")
    case True
    then have t: "terminated src" using Cons.prems by simp
    show ?thesis
    proof (cases "i < NAME_MAX")
      case i: True
      then have set: "arr_set part (int i) c = Some (part[i := c])"
        using Cons.prems(2) by (simp add: arr_set_ok NAME_MAX_def)
      have put: "buf_put (Suc i) w (part[i := c]) = buf_put i (c # w) part" for w
        using i Cons.prems(2) by (simp add: buf_put_def take_Suc_conv_app_nth NAME_MAX_def)
      show ?thesis
        using Cons.IH [OF t, of "part[i := c]" "Suc i"] Cons.prems(2) True i set put
        by (simp split: if_splits)
    next
      case False
      then show ?thesis using True by auto
    qed
  next
    case False
    then show ?thesis using Cons.prems(1) by (auto simp: buf_put_def)
  qed
qed simp

text \<open>
  One step along a path: the next part is copied and ended with a null byte; the result is
  1 if a slash follows it, 0 if the path ends with it or has no more part, and -1 if it is
  too long.
\<close>

lemma get_next_part_none:
  assumes "terminated src" "dropWhile (\<lambda>c. c = 47) (cstr src) = []"
  shows "get_next_part part src = Some (0, part, src)"
proof -
  obtain ys where "skip_slashes src = Some ys" "terminated ys" "cstr ys = []"
    using skip_slashes_eq [OF assms(1)] assms(2) by auto
  then show ?thesis by (cases ys) (auto simp: get_next_part_def arr_get_def split: if_splits)
qed

lemma get_next_part_some:
  assumes "terminated src" "dropWhile (\<lambda>c. c = 47) (cstr src) = y" "y \<noteq> []" "length part = 15"
    "length (takeWhile (\<lambda>c. c \<noteq> 47) y) \<le> NAME_MAX"
  obtains part' src' where
    "get_next_part part src = Some (if dropWhile (\<lambda>c. c \<noteq> 47) y = [] then 0 else 1, part', src')"
    "length part' = 15" "terminated part'" "cstr part' = takeWhile (\<lambda>c. c \<noteq> 47) y"
    "terminated src'" "cstr src' = dropWhile (\<lambda>c. c \<noteq> 47) y"
proof -
  let ?w = "takeWhile (\<lambda>c. c \<noteq> 47) y"
  obtain ys where ys: "skip_slashes src = Some ys" "terminated ys" "cstr ys = y"
    using skip_slashes_eq [OF assms(1)] assms(2) by auto
  then obtain c where c: "arr_get ys 0 = Some c" "c \<noteq> 0"
    using assms(3) by (cases ys) (auto simp: arr_get_def split: if_splits)
  obtain zs where zs: "copy_part ys 0 part = Some (buf_put 0 ?w part, Some (length ?w, zs))" "terminated zs"
    "cstr zs = dropWhile (\<lambda>c. c \<noteq> 47) y"
    using copy_part_eq [OF ys(2) assms(4), of 0] ys(3) assms(5) by auto
  obtain x where "arr_get zs 0 = Some x" "x = 0 \<longleftrightarrow> cstr zs = []"
    using zs(2) by (cases zs) (auto simp: arr_get_def split: if_splits)
  then have x: "arr_get zs 0 = Some x" "x = 0 \<longleftrightarrow> dropWhile (\<lambda>c. c \<noteq> 47) y = []" using zs(3) by simp_all
  define part' where "part' = ?w @ 0 # drop (Suc (length ?w)) part"
  have set: "arr_set (buf_put 0 ?w part) (int (length ?w)) 0 = Some part'"
    using assms(4,5) by (simp add: arr_set_def buf_put_def part'_def NAME_MAX_def list_update_append flip: Cons_nth_drop_Suc)
  have "0 \<notin> set y" using ys(3) cstr_no_zero [of ys] by simp
  then have "0 \<notin> set ?w" by (auto dest: set_takeWhileD)
  then have "terminated part'" "cstr part' = ?w" by (simp_all add: part'_def cstr_append)
  moreover have "length part' = 15" using assms(4,5) by (simp add: part'_def NAME_MAX_def)
  moreover have "get_next_part part src = Some (if dropWhile (\<lambda>c. c \<noteq> 47) y = [] then 0 else 1, part', zs)"
    using ys(1) c zs(1) set x by (simp add: get_next_part_def)
  ultimately show ?thesis using that zs(2,3) by blast
qed

end
