(* ===== verification/Path.thy ===== *)
theory Path
  imports Filesys
begin

text \<open>
  Path resolution.  The tree of directories is read off the contents of the sectors: the
  subdirectory of a name is the sector in the first entry for it that is a directory.
  Walking down a path with the operations of \<open>filesys.c\<close>, which open and close inodes on
  the way, arrives at the directory that this tree has for the path.
\<close>

section \<open>The tree of directories\<close>

definition subdir :: "(u32 \<Rightarrow> byte list) \<Rightarrow> u32 \<Rightarrow> byte list \<Rightarrow> u32 option" where
  "subdir v x n = map_option inode_sector
     (find (\<lambda>e. is_dir e \<and> has_name n e) (dents v (bytes_inode_disk (v x))))"

fun resolve :: "(u32 \<Rightarrow> byte list) \<Rightarrow> u32 \<Rightarrow> byte list list \<Rightarrow> u32 option" where
  "resolve v x [] = Some x"
| "resolve v x (n # ns) = do { y \<leftarrow> subdir v x n; resolve v y ns }"

lemma resolve_append: "resolve v x (ns @ ms) = do { y \<leftarrow> resolve v x ns; resolve v y ms }"
  by (induction ns arbitrary: x) (simp_all split: bind_split)

definition dir_sec_ok :: "fsstate \<Rightarrow> u32 \<Rightarrow> bool" where
  "dir_sec_ok s x \<longleftrightarrow> sec_ok s x \<and> inode_ok s (fresh_inode s x) \<and>
     (\<forall>e \<in> set (dents (fsview s) (bytes_inode_disk (fsview s x))). in_use e \<longrightarrow> terminated (ename e))"

text \<open>
  \<open>D\<close> is a set of sectors of well-formed directories that is closed under subdirectories;
  the directories among them that are open agree with their sectors and are not removed.
\<close>

definition walk_ok :: "fsstate \<Rightarrow> u32 set \<Rightarrow> bool" where
  "walk_ok s D \<longleftrightarrow> open_ok s \<and> fs_ok s \<and>
     (\<forall>x \<in> D. dir_sec_ok s x \<and> (\<forall>n y. subdir (fsview s) x n = Some y \<longrightarrow> y \<in> D)) \<and>
     (\<forall>p ino. inodes s p = Some ino \<longrightarrow> sector ino \<in> D \<longrightarrow>
        data ino = bytes_inode_disk (fsview s (sector ino)) \<and> \<not> removed ino)"

definition at_dir :: "fsstate \<Rightarrow> dir_s \<Rightarrow> u32 \<Rightarrow> bool" where
  "at_dir s d x \<longleftrightarrow> (\<exists>ino. inodes s (dinode d) = Some ino \<and> sector ino = x)"

lemma walk_ok_frame:
  assumes "walk_ok s D" "open_ok s'" "fs_ok s'" "fsview s' = fsview s" "sec_ok s' = sec_ok s"
    "\<And>p ino. inodes s' p = Some ino \<Longrightarrow> sector ino \<in> D \<Longrightarrow>
       data ino = bytes_inode_disk (fsview s (sector ino)) \<and> \<not> removed ino"
  shows "walk_ok s' D"
proof -
  have "fresh_inode s' = fresh_inode s" using assms(4) by (simp add: fresh_inode_def fun_eq_iff)
  then have "dir_sec_ok s' = dir_sec_ok s"
    using assms(4,5) by (intro ext) (simp add: dir_sec_ok_def inode_ok_def layout_ok_def)
  with assms show ?thesis by (simp add: walk_ok_def)
qed

lemma walk_ok_reads: "walk_ok s D \<Longrightarrow> reads s s' \<Longrightarrow> walk_ok s' D"
  by (rule walk_ok_frame [of s]) (auto simp: reads_simps walk_ok_def open_ok_def)

section \<open>Opening and closing on the way\<close>

lemma open_step:
  assumes w: "walk_ok s D" and y: "y \<in> D"
  obtains p s' i where "inode_open y s = Some (p, s')" "walk_ok s' D" "fsview s' = fsview s" "p \<noteq> 0"
    "inodes s' p = Some i" "sector i = y"
    "\<And>q ino. inodes s q = Some ino \<Longrightarrow>
       \<exists>ino'. inodes s' q = Some ino' \<and> sector ino' = sector ino \<and> (q = p \<longrightarrow> open_cnt ino' > 1)"
proof -
  have ok: "open_ok s" "fs_ok s" "sec_ok s y" using w y by (simp_all add: walk_ok_def dir_sec_ok_def)
  show ?thesis
  proof (cases rule: inode_open_cases [OF ok])
    case (1 p ino)
    let ?s = "s\<lparr>inodes := (inodes s)(p \<mapsto> ino\<lparr>open_cnt := open_cnt ino + 1\<rparr>)\<rparr>"
    have v: "fsview ?s = fsview s" "fs_ok ?s" "sec_ok ?s = sec_ok s"
      using ok(2) by (simp_all add: fsview_def fs_ok_def sec_ok_def)
    have "walk_ok ?s D"
      using w 1(1) open_ok_open [OF ok 1(4)] v
      by (intro walk_ok_frame [OF w]) (auto simp: walk_ok_def split: if_splits)
    moreover have "open_cnt ino > 0" using ok(1) 1(1) by (auto simp: open_ok_def)
    then have "\<exists>i. inodes ?s q = Some i \<and> sector i = sector j \<and> (q = p \<longrightarrow> open_cnt i > 1)"
      if "inodes s q = Some j" for q j
      using that 1(1) by auto
    ultimately show ?thesis using that [OF 1(4) _ v(1) 1(3)] 1(1,2) by simp
  next
    case (2 t)
    have "0 < next_ptr s" using ok(1) by (simp add: open_ok_def)
    moreover have "walk_ok t D"
      using w 2 open_ok_open [OF ok 2(3)]
      by (intro walk_ok_frame [OF w]) (auto simp: walk_ok_def fresh_inode_def split: if_splits)
    moreover have "\<exists>i. inodes t q = Some i \<and> sector i = sector j \<and> (q = next_ptr s \<longrightarrow> open_cnt i > 1)"
      if "inodes s q = Some j" for q j
      using that 2(2,6) by auto
    ultimately show ?thesis
      using that [OF 2(3) _ 2(4), of "fresh_inode s y"] 2(6) by (simp add: fresh_inode_def)
  qed
qed

lemma close_step_ok:
  assumes w: "walk_ok s D" and p: "inodes s p = Some ino" "sector ino \<in> D"
  obtains s' where "inode_close u p s = Some s'" "walk_ok s' D" "fsview s' = fsview s"
    "inodes s' = (inodes s)(p := if open_cnt ino = 1 then None else Some (ino\<lparr>open_cnt := open_cnt ino - 1\<rparr>))"
proof -
  have ok: "open_ok s" "fs_ok s" using w by (simp_all add: walk_ok_def)
  have rm: "\<not> removed ino" using w p by (simp add: walk_ok_def)
  have pos: "p \<noteq> 0" "open_cnt ino > 0" "p \<in> set (open_inodes s)" "distinct (open_inodes s)"
    using ok(1) p(1) by (auto simp: open_ok_def)
  define m where "m = (inodes s)(p := if open_cnt ino = 1 then None else Some (ino\<lparr>open_cnt := open_cnt ino - 1\<rparr>))"
  define s' where "s' = s\<lparr>inodes := m, open_inodes := (if open_cnt ino = 1 then remove1 p (open_inodes s) else open_inodes s)\<rparr>"
  have run: "inode_close u p s = Some s'"
    using p(1) pos(1) rm by (simp add: inode_close_def upd_inode_def s'_def m_def)
  have v: "fsview s' = fsview s" "fs_ok s'" "sec_ok s' = sec_ok s"
    using ok(2) by (simp_all add: s'_def fsview_def fs_ok_def sec_ok_def)
  have "open_ok s'"
  proof (cases "open_cnt ino = 1")
    case True
    then have m: "m = (inodes s)(p := None)" "open_inodes s' = remove1 p (open_inodes s)"
      by (simp_all add: m_def s'_def)
    show ?thesis
      using ok(1) pos(4) unfolding open_ok_def m(2) by (auto simp: s'_def m(1))
  next
    case False
    then have m: "m = (inodes s)(p \<mapsto> ino\<lparr>open_cnt := open_cnt ino - 1\<rparr>)" "open_inodes s' = open_inodes s"
      by (simp_all add: m_def s'_def)
    have "open_cnt ino > 1" using pos(2) False by simp
    then show ?thesis
      using ok(1) pos p(1) unfolding open_ok_def m(2) by (auto simp: s'_def m(1) split: if_splits)
  qed
  moreover have "data i = bytes_inode_disk (fsview s (sector i)) \<and> \<not> removed i"
    if "inodes s' q = Some i" "sector i \<in> D" for q i
    using that w p by (auto simp: s'_def m_def walk_ok_def split: if_splits)
  ultimately have "walk_ok s' D" using walk_ok_frame [OF w _ v(2,1,3)] by blast
  with that run v(1) show ?thesis by (simp add: s'_def m_def)
qed

lemma dir_open_ok:
  assumes "walk_ok s D" "p \<noteq> 0"
  obtains s' where "dir_open p s = Some (Some \<lparr>dinode = p, dpos = 0, is_remove = False\<rparr>, s')" "reads s s'"
proof -
  have "fs_ok s" using assms(1) by (simp add: walk_ok_def)
  then obtain s' where "calloc_fs s = (True, s')" "reads s s'" using calloc_fs_ok by metis
  with that assms(2) show ?thesis by (simp add: dir_open_def)
qed

lemma enter_dir_ok:
  assumes w: "walk_ok s D" and d: "at_dir s d x" "x \<in> D" and e: "inode_sector e \<in> D"
  obtains d' s' where "enter_dir e (Some d) s = Some (Some d', s')" "walk_ok s' D" "fsview s' = fsview s"
    "at_dir s' d' (inode_sector e)"
proof -
  obtain p s1 i where s1: "inode_open (inode_sector e) s = Some (p, s1)" "walk_ok s1 D" "fsview s1 = fsview s"
    "p \<noteq> 0" "inodes s1 p = Some i" "sector i = inode_sector e"
    and old: "\<And>q ino. inodes s q = Some ino \<Longrightarrow>
       \<exists>ino'. inodes s1 q = Some ino' \<and> sector ino' = sector ino \<and> (q = p \<longrightarrow> open_cnt ino' > 1)"
    using open_step [OF w e] by metis
  obtain ino where ino: "inodes s1 (dinode d) = Some ino" "sector ino = x" "dinode d = p \<longrightarrow> open_cnt ino > 1"
    using d(1) old unfolding at_dir_def by metis
  obtain s2 where s2: "inode_close inode_write_at (dinode d) s1 = Some s2" "walk_ok s2 D" "fsview s2 = fsview s1"
    "inodes s2 = (inodes s1)(dinode d := if open_cnt ino = 1 then None else Some (ino\<lparr>open_cnt := open_cnt ino - 1\<rparr>))"
    using close_step_ok [OF s1(2) ino(1)] ino(2) d(2) by metis
  obtain s3 where s3: "dir_open p s2 = Some (Some \<lparr>dinode = p, dpos = 0, is_remove = False\<rparr>, s3)" "reads s2 s3"
    using dir_open_ok [OF s2(2) s1(4)] .
  have "enter_dir e (Some d) s = Some (Some \<lparr>dinode = p, dpos = 0, is_remove = False\<rparr>, s3)"
    using s1(1) s2(1) s3(1) by (simp add: enter_dir_def dir_close_def)
  moreover have "at_dir s3 \<lparr>dinode = p, dpos = 0, is_remove = False\<rparr> (inode_sector e)"
    using s2(4) ino s1(5,6) reads_simps(4) [OF s3(2)] by (auto simp: at_dir_def)
  moreover have "walk_ok s3 D" using walk_ok_reads [OF s2(2) s3(2)] .
  moreover have "fsview s3 = fsview s" using reads_simps(2) [OF s3(2)] s2(3) s1(3) by simp
  ultimately show ?thesis using that by blast
qed

lemma entry_lookup_ok:
  assumes w: "walk_ok s D" and d: "at_dir s d x" "x \<in> D" and name: "terminated name"
  obtains r s' where "entry_lookup d name True s = Some (r, s')" "reads s s'"
    "map_option (\<lambda>r. inode_sector (fst r)) r = subdir (fsview s) x (cstr name)"
proof -
  obtain ino where ino: "inodes s (dinode d) = Some ino" "sector ino = x" using d(1) by (auto simp: at_dir_def)
  have data: "data ino = bytes_inode_disk (fsview s x)" using w ino d(2) by (simp add: walk_ok_def)
  let ?es = "dents (fsview s) (data ino)" and ?P = "\<lambda>e. is_dir e \<and> has_name (cstr name) e"
  have ds: "dir_sec_ok s x" "fs_ok s" using w d(2) by (simp_all add: walk_ok_def)
  then have io: "inode_ok s ino"
    using ino(2) data by (simp add: dir_sec_ok_def inode_ok_def fresh_inode_def)
  have "(if is_dir e \<noteq> True then Some False else name_test name e) = Some (?P e)" if "e \<in> set ?es" for e
    using ds(1) data that name_test_ok [OF name, of e] by (simp add: dir_sec_ok_def)
  then obtain s' where s': "entry_lookup d name True s =
      Some (map_option (\<lambda>j. (?es ! j, int (48 * j))) (first_entry ?P ?es 0), s')" "reads s s'"
    using scan_entries_ok [OF ds(2) ino(1) io, of 0 "\<lambda>e. if is_dir e \<noteq> True then Some False else name_test name e" ?P]
    unfolding entry_lookup_def by auto
  have "subdir (fsview s) x (cstr name) = map_option inode_sector (map_option ((!) ?es) (first_entry ?P ?es 0))"
    unfolding subdir_def data [symmetric] first_entry_find ..
  with that s' show ?thesis by (simp add: option.map_comp comp_def)
qed

section \<open>Walking\<close>

text \<open>The parts of a path that are followed by a slash: the directories to enter.\<close>

function dir_parts :: "byte list \<Rightarrow> byte list list" where
  "dir_parts s = (let y = dropWhile (\<lambda>c. c = 47) s; z = dropWhile (\<lambda>c. c \<noteq> 47) y in
     if y = [] \<or> z = [] then [] else takeWhile (\<lambda>c. c \<noteq> 47) y # dir_parts z)"
  by pat_completeness auto
termination
proof (relation "measure length")
  fix s y z :: "byte list"
  assume y: "y = dropWhile (\<lambda>c. c = 47) s" and z: "z = dropWhile (\<lambda>c. c \<noteq> 47) y" "\<not> (y = [] \<or> z = [])"
  obtain c cs where c: "y = c # cs" using z(2) by (cases y) auto
  then have "c \<noteq> 47" using hd_dropWhile [of "\<lambda>c. c = 47" s] y by simp
  then have "length z < length y" using c z(1) by (simp add: le_imp_less_Suc length_dropWhile_le)
  also have "length y \<le> length s" using y by (simp add: length_dropWhile_le)
  finally show "(z, s) \<in> measure length" by simp
qed simp

declare dir_parts.simps [simp del]

lemma dir_parts_end:
  "dropWhile (\<lambda>c. c \<noteq> 47) (dropWhile (\<lambda>c. c = 47) s) = [] \<Longrightarrow> dir_parts s = []"
  by (subst dir_parts.simps) (simp only: Let_def simp_thms if_True)

lemma dir_parts_step:
  assumes "dropWhile (\<lambda>c. c = 47) s = y" "dropWhile (\<lambda>c. c \<noteq> 47) y = z" "z \<noteq> []"
  shows "dir_parts s = takeWhile (\<lambda>c. c \<noteq> 47) y # dir_parts z"
proof -
  have "y \<noteq> []" using assms(2,3) by auto
  with assms show ?thesis by (subst dir_parts.simps) (simp only: Let_def simp_thms if_False)
qed

lemma words_step:
  assumes "dropWhile (\<lambda>c. c = 47) p = y" "y \<noteq> []"
  shows "words {47} p = takeWhile (\<lambda>c. c \<noteq> 47) y # words {47} (dropWhile (\<lambda>c. c \<noteq> 47) y)"
  using assms by (subst words.simps) (simp add: Let_def del: dropWhile_eq_Nil_conv)

lemma words_end: "dropWhile (\<lambda>c. c = 47) p = [] \<Longrightarrow> words {47} p = []"
  by (subst words.simps) (simp add: Let_def del: dropWhile_eq_Nil_conv)

text \<open>The parts of a path are those of its words; the last one is not entered.\<close>

lemma words_dir_parts:
  assumes "p \<noteq> []" "last p \<noteq> 47"
  shows "\<exists>w. words {47} p = dir_parts p @ [w]"
  using assms
proof (induction p rule: dir_parts.induct)
  case (1 p)
  define y where "y = dropWhile (\<lambda>c. c = 47) p"
  define z where "z = dropWhile (\<lambda>c. c \<noteq> 47) y"
  have ne: "y \<noteq> []"
  proof
    assume "y = []"
    then have "\<forall>c \<in> set p. c = 47" by (simp add: y_def)
    with 1(2,3) show False by auto
  qed
  have w: "words {47} p = takeWhile (\<lambda>c. c \<noteq> 47) y # words {47} z"
    unfolding z_def using words_step [OF y_def [symmetric] ne] .
  show ?case
  proof (cases "z = []")
    case True
    then have "dir_parts p = []" unfolding z_def y_def by (rule dir_parts_end)
    with True w show ?thesis by simp
  next
    case False
    have "last z = last p"
      using False ne unfolding z_def y_def by (metis last_appendR takeWhile_dropWhile_id)
    then obtain u where "words {47} z = dir_parts z @ [u]"
      using 1(1) [OF y_def z_def] ne False 1(3) by auto
    moreover have "dir_parts p = takeWhile (\<lambda>c. c \<noteq> 47) y # dir_parts z"
      using dir_parts_step [OF y_def [symmetric] z_def [symmetric] False] .
    ultimately show ?thesis using w by simp
  qed
qed

definition parts_ok :: "byte list \<Rightarrow> bool" where
  "parts_ok p \<longleftrightarrow> (\<forall>w \<in> set (words {47} p). length w \<le> NAME_MAX)"

lemma parts_ok_step:
  assumes "parts_ok p" "dropWhile (\<lambda>c. c = 47) p = y" "y \<noteq> []"
  shows "length (takeWhile (\<lambda>c. c \<noteq> 47) y) \<le> NAME_MAX" "parts_ok (dropWhile (\<lambda>c. c \<noteq> 47) y)"
proof -
  have "words {47} p = takeWhile (\<lambda>c. c \<noteq> 47) y # words {47} (dropWhile (\<lambda>c. c \<noteq> 47) y)"
    using words_step [OF assms(2,3)] .
  with assms(1) show "length (takeWhile (\<lambda>c. c \<noteq> 47) y) \<le> NAME_MAX" "parts_ok (dropWhile (\<lambda>c. c \<noteq> 47) y)"
    by (simp_all add: parts_ok_def)
qed

lemma last_word_step:
  assumes "dropWhile (\<lambda>c. c = 47) p = y" "y \<noteq> []"
  shows "last (words {47} p) = (if words {47} (dropWhile (\<lambda>c. c \<noteq> 47) y) = []
    then takeWhile (\<lambda>c. c \<noteq> 47) y else last (words {47} (dropWhile (\<lambda>c. c \<noteq> 47) y)))" "words {47} p \<noteq> []"
proof -
  have "words {47} p = takeWhile (\<lambda>c. c \<noteq> 47) y # words {47} (dropWhile (\<lambda>c. c \<noteq> 47) y)"
    using words_step [OF assms] .
  then show "last (words {47} p) = (if words {47} (dropWhile (\<lambda>c. c \<noteq> 47) y) = []
    then takeWhile (\<lambda>c. c \<noteq> 47) y else last (words {47} (dropWhile (\<lambda>c. c \<noteq> 47) y)))" "words {47} p \<noteq> []"
    by simp_all
qed

definition walked :: "fsstate \<Rightarrow> u32 set \<Rightarrow> (u32 \<Rightarrow> byte list) \<Rightarrow> u32 option \<Rightarrow> bool \<Rightarrow> dir_s option \<Rightarrow> bool" where
  "walked s D v r ok d \<longleftrightarrow> walk_ok s D \<and> fsview s = v \<and> (ok \<longleftrightarrow> r \<noteq> None) \<and>
     (\<exists>dd x. d = Some dd \<and> at_dir s dd x \<and> x \<in> D \<and> (r \<noteq> None \<longrightarrow> r = Some x))"

lemma walk_resolves:
  assumes "walk_ok s D" "at_dir s d x" "x \<in> D" "terminated name" "length part = 15" "parts_ok (cstr name)"
  shows "\<exists>ok part' e' d' s'. walk part name ent (Some d) s = Some (ok, part', e', d', s') \<and>
    walked s' D (fsview s) (resolve (fsview s) x (dir_parts (cstr name))) ok d' \<and>
    (ok \<longrightarrow> (if words {47} (cstr name) = [] then part' = part
      else terminated part' \<and> cstr part' = last (words {47} (cstr name))))"
  using assms
proof (induction "length (cstr name)" arbitrary: name part ent d x s rule: less_induct)
  case less
  define y where "y = dropWhile (\<lambda>c. c = 47) (cstr name)"
  define z where "z = dropWhile (\<lambda>c. c \<noteq> 47) y"
  show ?case
  proof (cases "y = []")
    case True
    then have "get_next_part part name = Some (0, part, name)"
      using get_next_part_none [OF less.prems(4)] by (simp add: y_def)
    moreover have "dir_parts (cstr name) = []" using True by (intro dir_parts_end) (simp only: dropWhile.simps flip: y_def)
    moreover have "words {47} (cstr name) = []" using True unfolding y_def by (rule words_end)
    ultimately show ?thesis
      using less.prems by (subst walk.simps) (auto simp: walked_def)
  next
    case False
    note ps = parts_ok_step [OF less.prems(6) y_def [symmetric] False]
    note lw = last_word_step [OF y_def [symmetric] False]
    obtain part1 name1 where g: "get_next_part part name = Some (if z = [] then 0 else 1, part1, name1)"
      "length part1 = 15" "terminated part1" "cstr part1 = takeWhile (\<lambda>c. c \<noteq> 47) y"
      "terminated name1" "cstr name1 = z"
      using get_next_part_some [OF less.prems(4) y_def [symmetric] False less.prems(5) ps(1)] unfolding z_def .
    show ?thesis
    proof (cases "z = []")
      case True
      then have "dir_parts (cstr name) = []" unfolding z_def y_def by (rule dir_parts_end)
      moreover have "last (words {47} (cstr name)) = cstr part1"
        using lw(1) True g(4) unfolding z_def [symmetric] by simp
      ultimately show ?thesis
        using less.prems g True lw(2) by (subst walk.simps) (auto simp: walked_def)
    next
      case nz: False
      have dp: "dir_parts (cstr name) = cstr part1 # dir_parts z"
        using dir_parts_step [OF y_def [symmetric] z_def [symmetric] nz] g(4) by simp
      obtain r s1 where r: "entry_lookup d part1 True s = Some (r, s1)" "reads s s1"
        "map_option (\<lambda>r. inode_sector (fst r)) r = subdir (fsview s) x (cstr part1)"
        using entry_lookup_ok [OF less.prems(1-3) g(3)] .
      have w1: "walk_ok s1 D" "at_dir s1 d x" "fsview s1 = fsview s"
        using walk_ok_reads [OF less.prems(1) r(2)] less.prems(2) reads_simps(2,4) [OF r(2)]
        by (simp_all add: at_dir_def)
      show ?thesis
      proof (cases r)
        case None
        then have "resolve (fsview s) x (dir_parts (cstr name)) = None" using r(3) dp by simp
        moreover have "walk part name ent (Some d) s = Some (False, part1, ent, Some d, s1)"
          using g(1) nz r(1) None by (subst walk.simps) simp
        ultimately show ?thesis using w1 less.prems(3) by (auto simp: walked_def)
      next
        case (Some eo)
        obtain e ofs where eo: "eo = (e, ofs)" by fastforce
        have sub: "subdir (fsview s) x (cstr part1) = Some (inode_sector e)" using r(3) Some eo by simp
        then have eD: "inode_sector e \<in> D" using less.prems(1,3) by (auto simp: walk_ok_def)
        obtain d2 s2 where s2: "enter_dir e (Some d) s1 = Some (Some d2, s2)" "walk_ok s2 D"
          "fsview s2 = fsview s1" "at_dir s2 d2 (inode_sector e)"
          using enter_dir_ok [OF w1(1,2) less.prems(3) eD] .
        have "length (cstr name1) < length (cstr name)"
        proof -
          obtain c cs where c: "y = c # cs" using False by (cases y) auto
          then have "c \<noteq> 47" using hd_dropWhile [of "\<lambda>c. c = 47" "cstr name"] by (simp add: y_def)
          then have "length z < length y" using c by (simp add: z_def le_imp_less_Suc length_dropWhile_le)
          also have "length y \<le> length (cstr name)" by (simp add: y_def length_dropWhile_le)
          finally show ?thesis using g(6) by simp
        qed
        moreover have "parts_ok (cstr name1)" using ps(2) unfolding g(6) z_def .
        ultimately obtain ok part' e' d' s' where IH:
          "walk part1 name1 e (Some d2) s2 = Some (ok, part', e', d', s')"
          "walked s' D (fsview s2) (resolve (fsview s2) (inode_sector e) (dir_parts (cstr name1))) ok d'"
          "ok \<longrightarrow> (if words {47} (cstr name1) = [] then part' = part1
             else terminated part' \<and> cstr part' = last (words {47} (cstr name1)))"
          using less.hyps [OF _ s2(2,4) eD g(5,2)] by blast
        have "walk part name ent (Some d) s = Some (ok, part', e', d', s')"
          using g(1) nz r(1) Some eo s2(1) IH(1) by (subst walk.simps) simp
        moreover have "resolve (fsview s) x (dir_parts (cstr name)) = resolve (fsview s) (inode_sector e) (dir_parts z)"
          using dp sub by simp
        ultimately show ?thesis
          using IH(2,3) s2(3) w1(3) g(3,4,6) lw unfolding z_def [symmetric] by auto
      qed
    qed
  qed
qed

section \<open>Opening a directory by its absolute path\<close>

lemma dir_open_root_ok:
  assumes "walk_ok s D" "1 \<in> D"
  obtains d s' where "dir_open_root s = Some (Some d, s')" "walk_ok s' D" "fsview s' = fsview s" "at_dir s' d 1"
proof -
  obtain p s1 i where s1: "inode_open 1 s = Some (p, s1)" "walk_ok s1 D" "fsview s1 = fsview s" "p \<noteq> 0"
    "inodes s1 p = Some i" "sector i = 1"
    using open_step [OF assms] by metis
  obtain s2 where s2: "dir_open p s1 = Some (Some \<lparr>dinode = p, dpos = 0, is_remove = False\<rparr>, s2)" "reads s1 s2"
    using dir_open_ok [OF s1(2,4)] .
  show ?thesis
    using that [of "\<lparr>dinode = p, dpos = 0, is_remove = False\<rparr>" s2] s1 s2 walk_ok_reads [OF s1(2) s2(2)]
      reads_simps(2,4) [OF s2(2)]
    by (simp add: dir_open_root_def at_dir_def)
qed

lemma dir_close_ok:
  assumes "walk_ok s D" "at_dir s d x" "x \<in> D"
  obtains s' where "dir_close (Some d) s = Some s'" "walk_ok s' D" "fsview s' = fsview s"
proof -
  obtain ino where "inodes s (dinode d) = Some ino" "sector ino \<in> D" using assms(2,3) by (auto simp: at_dir_def)
  then obtain s' where "inode_close inode_write_at (dinode d) s = Some s'" "walk_ok s' D" "fsview s' = fsview s"
    using close_step_ok [OF assms(1)] by metis
  with that show ?thesis by (simp add: dir_close_def)
qed

lemma open_directory_ok:
  assumes w: "walk_ok s D" "1 \<in> D" and name: "terminated name" "cstr name = 47 # rest" "last (cstr name) \<noteq> 47"
    "parts_ok (cstr name)" and part: "length part0 = 15"
  obtains r s' where "filesys_open_directory part0 ent0 (Some c) name s = Some (r, Some c, s')"
    "walk_ok s' D" "fsview s' = fsview s"
    "case resolve (fsview s) 1 (words {47} (cstr name)) of
       Some y \<Rightarrow> \<exists>d. r = Some d \<and> at_dir s' d y | None \<Rightarrow> r = None"
proof -
  let ?v = "fsview s"
  obtain w' where wd: "words {47} (cstr name) = dir_parts (cstr name) @ [w']"
    using words_dir_parts [of "cstr name"] name(2,3) by auto
  obtain d0 s0 where s0: "dir_open_root s = Some (Some d0, s0)" "walk_ok s0 D" "fsview s0 = ?v" "at_dir s0 d0 1"
    using dir_open_root_ok [OF w] .
  have "arr_get name 0 = Some 47" using name(2) by (cases name) (auto simp: arr_get_def split: if_splits)
  then have st: "start_dir (Some c) name s = Some (Some (Some d0), Some c, s0)"
    using s0(1) by (simp add: start_dir_def filesys_curr_dir_def)
  have "cstr slash \<noteq> cstr name" using name(2,3) by (auto simp: slash_def)
  then obtain n where n: "strcmp slash name = Some n" "n \<noteq> 0"
    using strcmp_eq [OF _ name(1), of slash] by (auto simp: slash_def)
  obtain ok part' e' d' s1 where k: "walk part0 name ent0 (Some d0) s0 = Some (ok, part', e', d', s1)"
    "walked s1 D ?v (resolve ?v 1 (dir_parts (cstr name))) ok d'"
    "ok \<longrightarrow> terminated part' \<and> cstr part' = w'"
    using walk_resolves [OF s0(2,4) w(2) name(1) part name(4), of ent0] wd s0(3) by auto
  then obtain dd x where dd: "d' = Some dd" "at_dir s1 dd x" "x \<in> D" "walk_ok s1 D" "fsview s1 = ?v"
    "resolve ?v 1 (dir_parts (cstr name)) = (if ok then Some x else None)"
    unfolding walked_def by (cases ok) auto
  have res: "resolve ?v 1 (words {47} (cstr name)) = (if ok then subdir ?v x w' else None)"
    unfolding wd resolve_append dd(6) by (simp split: bind_split)
  obtain y s2 where y: "(if ok then entry_lookup dd part' True s1 else Some (None, s1)) = Some (y, s2)"
    "walk_ok s2 D" "fsview s2 = ?v" "at_dir s2 dd x"
    "map_option (\<lambda>r. inode_sector (fst r)) y = resolve ?v 1 (words {47} (cstr name))"
  proof (cases ok)
    case True
    obtain y s2 where y: "entry_lookup dd part' True s1 = Some (y, s2)" "reads s1 s2"
      "map_option (\<lambda>r. inode_sector (fst r)) y = subdir (fsview s1) x (cstr part')"
      using entry_lookup_ok [OF dd(4,2,3)] k(3) True by metis
    with that True dd res k(3) walk_ok_reads [OF dd(4) y(2)] reads_simps(2,4) [OF y(2)] show ?thesis
      by (simp add: at_dir_def)
  next
    case False
    with that dd res show ?thesis by simp
  qed
  show ?thesis
  proof (cases y)
    case None
    obtain s3 where s3: "dir_close (Some dd) s2 = Some s3" "walk_ok s3 D" "fsview s3 = fsview s2"
      using dir_close_ok [OF y(2,4) dd(3)] .
    have "filesys_open_directory part0 ent0 (Some c) name s = Some (None, Some c, s3)"
      using st n k(1) dd(1) y(1) None s3(1) by (cases ok) (simp_all add: filesys_open_directory_def)
    with that [OF _ s3(2)] s3(3) y(3,5) None show ?thesis by auto
  next
    case (Some eo)
    obtain e ofs where eo: "eo = (e, ofs)" by fastforce
    then have r: "resolve ?v 1 (words {47} (cstr name)) = Some (inode_sector e)" using y(5) Some by simp
    then have "subdir ?v x w' = Some (inode_sector e)" using res by (simp split: if_splits)
    then have eD: "inode_sector e \<in> D" using dd(3,4,5) by (auto simp: walk_ok_def)
    obtain d3 s3 where s3: "enter_dir e (Some dd) s2 = Some (Some d3, s3)" "walk_ok s3 D" "fsview s3 = fsview s2"
      "at_dir s3 d3 (inode_sector e)"
      using enter_dir_ok [OF y(2,4) dd(3) eD] .
    have "filesys_open_directory part0 ent0 (Some c) name s = Some (Some d3, Some c, s3)"
      using st n k(1) dd(1) y(1) Some eo s3(1) by (cases ok) (simp_all add: filesys_open_directory_def)
    with that [OF _ s3(2)] s3(3,4) y(3) r show ?thesis by auto
  qed
qed

section \<open>A sample tree\<close>

text \<open>A root directory with one subdirectory \<open>a\<close> in sector 2, which is empty.\<close>

definition tree_dent :: dir_entry where
  "tree_dent = \<lparr>inode_sector = 2, ename = 97 # replicate 14 0, in_use = True, is_dir = True, e_rest = replicate 27 0\<rparr>"

definition tree_di :: "int \<Rightarrow> u32 \<Rightarrow> inode_disk" where
  "tree_di len x = \<lparr>i_length = len, magic = INODE_MAGIC, dir = x # replicate 122 0, single_indir = [0, 0],
     double_indir = 0\<rparr>"

definition tree_disk :: "u32 \<Rightarrow> byte list" where
  "tree_disk x = (if x = 1 then inode_disk_bytes (tree_di 48 10) else if x = 2 then inode_disk_bytes (tree_di 0 11)
     else if x = 10 then dir_entry_bytes tree_dent @ replicate 464 0 else replicate 512 0)"

definition tree_fs :: fsstate where
  "tree_fs = sample_fs\<lparr>bc := sample_buf\<lparr>devs := (\<lambda>_. sample_dev\<lparr>disk := tree_disk\<rparr>)\<rparr>,
     inodes := Map.empty, open_inodes := []\<rparr>"

lemma tree_di_len: "i_length (tree_di len x) = len"
  by (simp add: tree_di_def)

lemma tree_di_ok: "0 \<le> len \<Longrightarrow> len \<le> 48 \<Longrightarrow> di_ok (tree_di len x)"
  by (simp add: di_ok_def tree_di_def DIR_LEN_def MAX_LEN_eq)

lemma tree_disk_length: "length (tree_disk x) = 512"
  using length_inode_disk_bytes [OF tree_di_ok, of 48 10] length_inode_disk_bytes [OF tree_di_ok, of 0 11]
  by (simp add: tree_disk_def BLOCK_SECTOR_SIZE_def length_dir_entry_bytes tree_dent_def)

lemma tree_fs_ok: "fs_ok tree_fs" "x < 100 \<Longrightarrow> sec_ok tree_fs x" "fsview tree_fs = tree_disk" "open_ok tree_fs"
proof -
  show "x < 100 \<Longrightarrow> sec_ok tree_fs x"
    by (simp add: sec_ok_def tree_fs_def sample_fs_def sector_ok_def dev_ok_def sample_dev_def BLOCK_SECTOR_SIZE_def
        tree_disk_length)
  show "fs_ok tree_fs"
    by (simp add: fs_ok_def tree_fs_def sample_fs_def buf_ok_def sample_entries packed_invalid entry_ok_def
        BLOCK_SECTOR_SIZE_def)
  have "cached (open_sectors sample_buf) = Map.empty" by (simp add: sample_entries)
  then show "fsview tree_fs = tree_disk"
    by (simp add: fun_eq_iff fsview_def view_def tree_fs_def sample_fs_def sample_dev_def)
  show "open_ok tree_fs" by (simp add: open_ok_def tree_fs_def sample_fs_def)
qed

lemma tree_inodes:
  "bytes_inode_disk (tree_disk 1) = tree_di 48 10" "bytes_inode_disk (tree_disk 2) = tree_di 0 11"
  by (simp_all add: tree_disk_def bytes_inode_disk_bytes tree_di_ok)

lemma tree_dents: "dents tree_disk (tree_di 48 10) = [tree_dent]" "dents tree_disk (tree_di 0 11) = []"
proof -
  have l: "length (dir_entry_bytes tree_dent) = 48" by (simp add: length_dir_entry_bytes tree_dent_def)
  have "fbytes tree_disk (tree_di 48 10) = dir_entry_bytes tree_dent"
  proof (rule nth_equalityI)
    fix p
    assume "p < length (fbytes tree_disk (tree_di 48 10))"
    then show "fbytes tree_disk (tree_di 48 10) ! p = dir_entry_bytes tree_dent ! p"
      using l by (simp add: fbytes_def tree_di_def file_byte_def index_sector_def tree_disk_def nth_append)
  qed (simp add: l tree_di_def)
  moreover have "bytes_dir_entry (dir_entry_bytes tree_dent) = tree_dent"
    by (simp add: bytes_dir_entry_bytes tree_dent_def)
  ultimately show "dents tree_disk (tree_di 48 10) = [tree_dent]"
    using l by (simp add: dents_def tree_di_len buf_get_full)
  show "dents tree_disk (tree_di 0 11) = []" by (simp add: dents_def tree_di_len)
qed

lemma tree_walk_ok: "walk_ok tree_fs {1, 2}"
proof -
  have n: "sectors_of 48 = 1" "sectors_of 0 = 0" by (simp_all add: sectors_of_def)
  have idx: "index_sector v (tree_di l x) 0 = x" "index_blocks v (tree_di l x) 0 = []" for v l x
    by (simp_all add: index_sector_def index_blocks_def tree_di_def)
  have "inode_ok tree_fs (fresh_inode tree_fs 1)" "inode_ok tree_fs (fresh_inode tree_fs 2)"
    by (simp_all add: inode_ok_def fresh_inode_def tree_fs_ok tree_inodes tree_di_ok tree_di_len n layout_ok_def
        sep_def MAX_SECTORS_def idx lessThan_Suc)
  moreover have "terminated (ename tree_dent)" by (simp add: tree_dent_def terminated_def)
  ultimately have "dir_sec_ok tree_fs x" if "x \<in> {1, 2}" for x
    using that by (elim insertE emptyE) (simp_all add: dir_sec_ok_def tree_fs_ok tree_inodes tree_dents)
  moreover have "inode_sector tree_dent = 2" by (simp add: tree_dent_def)
  then have "y \<in> {1, 2}" if "x \<in> {1, 2}" "subdir tree_disk x n = Some y" for x n y
    using that by (elim insertE emptyE) (simp_all add: subdir_def tree_inodes tree_dents split: if_splits)
  ultimately show ?thesis
    by (auto simp: walk_ok_def tree_fs_ok) (simp_all add: tree_fs_def)
qed

section \<open>Claims\<close>



text \<open>
  C29: the loop that all path operations share enters exactly the parts of a path that are
  followed by a slash, and stops with the last part of the path.  It says whether all the
  directories exist, and if so it ends in the directory that the tree has for them.  For a
  path that ends in a slash this is the named directory itself, with its own name as the
  last part.
\<close>

theorem walk_enters_directories:
  assumes "walk_ok s D" "at_dir s d x" "x \<in> D" "terminated name" "length part = 15" "parts_ok (cstr name)"
    "words {47} (cstr name) \<noteq> []"
  shows "\<exists>ok part' e' d' s'. walk part name ent (Some d) s = Some (ok, part', e', Some d', s') \<and>
    fsview s' = fsview s \<and> ok = (resolve (fsview s) x (dir_parts (cstr name)) \<noteq> None) \<and>
    (ok \<longrightarrow> cstr part' = last (words {47} (cstr name)) \<and>
       (\<exists>y. resolve (fsview s) x (dir_parts (cstr name)) = Some y \<and> at_dir s' d' y))"
proof -
  obtain ok part' e' d' s' where k: "walk part name ent (Some d) s = Some (ok, part', e', d', s')"
    "walked s' D (fsview s) (resolve (fsview s) x (dir_parts (cstr name))) ok d'"
    "ok \<longrightarrow> cstr part' = last (words {47} (cstr name))"
    using walk_resolves [OF assms(1-6), of ent] assms(7) by auto
  then show ?thesis by (auto simp: walked_def)
qed

theorem walk_enters_directories_witness:
  "\<exists>d s part' e' d' s'. at_dir s d 1 \<and> walk (replicate 15 0) [97, 47, 0] tree_dent (Some d) s =
     Some (True, part', e', Some d', s') \<and> cstr part' = [97] \<and> at_dir s' d' 2"
proof -
  obtain d s where d: "walk_ok s {1, 2}" "fsview s = tree_disk" "at_dir s d 1"
    using dir_open_root_ok [OF tree_walk_ok] tree_fs_ok(3) by (metis insertI1)
  have w: "words {47} [97, 47] = [[97]]"
    using words_step [of "[97, 47]" "[97, 47]"] words_end [of "[47]"] by simp
  have p: "dir_parts [97, 47] = [[97]]"
    using dir_parts_step [of "[97, 47]" "[97, 47]" "[47]"] dir_parts_end [of "[47]"] by simp
  have "subdir tree_disk 1 [97] = Some 2"
    by (simp add: subdir_def tree_inodes tree_dents tree_dent_def has_name_def)
  then have "resolve (fsview s) 1 (dir_parts (cstr [97, 47, 0])) = Some 2" using p d(2) by simp
  moreover have "parts_ok (cstr [97, 47, 0])" using w by (simp add: parts_ok_def NAME_MAX_def)
  ultimately show ?thesis
    using walk_enters_directories [OF d(1,3), of "[97, 47, 0]" "replicate 15 0" tree_dent] w d(3) by fastforce
qed

end
