(* ===== verification/Palloc.thy ===== *)
theory Palloc
  imports Vaddr Slot_Pool
begin

text \<open>
  The page allocator, \<open>threads/palloc.c\<close>: two pools of pages, each with a bitmap of its
  pages in use.  The contents of memory are 32-bit cells by address, so that zeroing and
  scribbling over pages can be seen.  The pool lock makes each operation atomic.
\<close>

section \<open>Definitions\<close>

record pool =
  used_map :: bitmap
  base :: nat

record memory =
  kernel_pool :: pool
  user_pool :: pool
  cells :: "nat \<Rightarrow> u32"
  cr3 :: nat
  init_page_dir :: nat
  init_ram_pages :: nat

definition PAL_ASSERT :: nat where "PAL_ASSERT = 1"

definition PAL_ZERO :: nat where "PAL_ZERO = 2"

definition PAL_USER :: nat where "PAL_USER = 4"

text \<open>\<open>memset\<close> of whole pages, on the cells.\<close>

definition fill_pages :: "nat \<Rightarrow> nat \<Rightarrow> u32 \<Rightarrow> memory \<Rightarrow> memory" where
  "fill_pages p cnt v m = m\<lparr>cells := \<lambda>a. if p \<le> a \<and> a < p + PGSIZE * cnt then v else cells m a\<rparr>"

definition init_pool :: "nat \<Rightarrow> nat \<Rightarrow> u32 list \<Rightarrow> pool option" where
  "init_pool start page_cnt junk = do {
     let bm_pages = DIV_ROUND_UP (bitmap_buf_size page_cnt) PGSIZE;
     kassert (bm_pages \<le> page_cnt);
     let page_cnt = page_cnt - bm_pages;
     b \<leftarrow> bitmap_create_in_buf page_cnt junk (szt (bm_pages * PGSIZE));
     Some \<lparr>used_map = b, base = szt (start + bm_pages * PGSIZE)\<rparr> }"

text \<open>\<open>junk\<close> is what memory holds where the bitmaps are placed.\<close>

definition palloc_init :: "nat \<Rightarrow> u32 list \<Rightarrow> u32 list \<Rightarrow> memory \<Rightarrow> memory option" where
  "palloc_init user_page_limit junk1 junk2 m = do {
     free_start \<leftarrow> ptov (1024 * 1024);
     free_end \<leftarrow> ptov (szt (init_ram_pages m * PGSIZE));
     let free_pages = (free_end - free_start) div PGSIZE;
     let user_pages = free_pages div 2;
     let user_pages = (if user_pages > user_page_limit then user_page_limit else user_pages);
     let kernel_pages = free_pages - user_pages;
     k \<leftarrow> init_pool free_start kernel_pages junk1;
     u \<leftarrow> init_pool (szt (free_start + kernel_pages * PGSIZE)) user_pages junk2;
     Some (m\<lparr>kernel_pool := k, user_pool := u\<rparr>) }"

definition palloc_get_multiple :: "nat \<Rightarrow> nat \<Rightarrow> memory \<Rightarrow> (nat \<times> memory) option" where
  "palloc_get_multiple flags page_cnt m =
     (if page_cnt = 0 then Some (0, m)
      else do {
        let user = (flags AND PAL_USER \<noteq> 0);
        let p = (if user then user_pool m else kernel_pool m);
        (page_idx, b) \<leftarrow> bitmap_scan_and_flip (used_map p) 0 page_cnt False;
        let p' = p\<lparr>used_map := b\<rparr>;
        let m = (if user then m\<lparr>user_pool := p'\<rparr> else m\<lparr>kernel_pool := p'\<rparr>);
        let pages = (if page_idx \<noteq> BITMAP_ERROR then szt (base p + PGSIZE * page_idx) else 0);
        if pages \<noteq> 0
        then Some (pages, if flags AND PAL_ZERO \<noteq> 0 then fill_pages pages page_cnt 0 m else m)
        else do {
          kassert (flags AND PAL_ASSERT = 0);
          Some (pages, m) } })"

definition palloc_get_page :: "nat \<Rightarrow> memory \<Rightarrow> (nat \<times> memory) option" where
  "palloc_get_page flags = palloc_get_multiple flags 1"

definition page_from_pool :: "pool \<Rightarrow> nat \<Rightarrow> bool" where
  "page_from_pool p page = (let page_no = pg_no page; start_page = pg_no (base p);
       end_page = start_page + bitmap_size (used_map p)
     in page_no \<ge> start_page \<and> page_no < end_page)"

definition palloc_free_multiple :: "nat \<Rightarrow> nat \<Rightarrow> memory \<Rightarrow> memory option" where
  "palloc_free_multiple pages page_cnt m = do {
     kassert (pg_ofs pages = 0);
     if pages = 0 \<or> page_cnt = 0 then Some m
     else do {
       let kern = page_from_pool (kernel_pool m) pages;
       kassert (kern \<or> page_from_pool (user_pool m) pages);
       let p = (if kern then kernel_pool m else user_pool m);
       let page_idx = pg_no pages - pg_no (base p);
       let m = fill_pages pages page_cnt 0xcccccccc m;
       all \<leftarrow> bitmap_all (used_map p) page_idx page_cnt;
       kassert all;
       b \<leftarrow> bitmap_set_multiple (used_map p) page_idx page_cnt False;
       let p' = p\<lparr>used_map := b\<rparr>;
       Some (if kern then m\<lparr>kernel_pool := p'\<rparr> else m\<lparr>user_pool := p'\<rparr>) } }"

definition palloc_free_page :: "nat \<Rightarrow> memory \<Rightarrow> memory option" where
  "palloc_free_page page = palloc_free_multiple page 1"

section \<open>Well-formed pools\<close>

definition pool_ok :: "pool \<Rightarrow> bool" where
  "pool_ok p \<longleftrightarrow> bm_ok (used_map p) \<and> base p mod 4096 = 0 \<and> PHYS_BASE \<le> base p \<and>
     base p + 4096 * bit_cnt (used_map p) \<le> 2 ^ 32"

text \<open>The addresses of pool pages, and those in use.\<close>

definition page_at :: "pool \<Rightarrow> nat \<Rightarrow> nat" where
  "page_at p i = base p + 4096 * i"

definition pool_used :: "pool \<Rightarrow> nat set" where
  "pool_used p = {i. i < bit_cnt (used_map p) \<and> marked (used_map p) i}"

definition memory_ok :: "memory \<Rightarrow> bool" where
  "memory_ok m \<longleftrightarrow> pool_ok (kernel_pool m) \<and> pool_ok (user_pool m) \<and>
     page_at (kernel_pool m) (bit_cnt (used_map (kernel_pool m))) \<le> base (user_pool m)"

text \<open>Either pool, and its replacement.\<close>

definition the_pool :: "bool \<Rightarrow> memory \<Rightarrow> pool" where
  "the_pool u m = (if u then user_pool m else kernel_pool m)"

definition set_pool :: "bool \<Rightarrow> pool \<Rightarrow> memory \<Rightarrow> memory" where
  "set_pool u p m = (if u then m\<lparr>user_pool := p\<rparr> else m\<lparr>kernel_pool := p\<rparr>)"

lemma the_pool_set [simp]:
  "the_pool u (set_pool v p m) = (if u = v then p else the_pool u m)"
  "cells (set_pool v p m) = cells m" "the_pool u (fill_pages a n w m) = the_pool u m"
  "cr3 (set_pool v p m) = cr3 m" "init_page_dir (set_pool v p m) = init_page_dir m"
  "init_ram_pages (set_pool v p m) = init_ram_pages m"
  "cr3 (fill_pages a n w m) = cr3 m" "init_page_dir (fill_pages a n w m) = init_page_dir m"
  "init_ram_pages (fill_pages a n w m) = init_ram_pages m"
  by (auto simp: the_pool_def set_pool_def fill_pages_def)

lemma memory_ok_pools:
  "memory_ok m \<longleftrightarrow> pool_ok (the_pool False m) \<and> pool_ok (the_pool True m) \<and>
     page_at (the_pool False m) (bit_cnt (used_map (the_pool False m))) \<le> base (the_pool True m)"
  by (simp add: memory_ok_def the_pool_def)

text \<open>A pool with another bitmap of the same size stays well formed.\<close>

lemma memory_ok_set_pool:
  assumes "memory_ok m" "bm_ok b" "bit_cnt b = bit_cnt (used_map (the_pool u m))"
  shows "memory_ok (set_pool u ((the_pool u m)\<lparr>used_map := b\<rparr>) m)"
  using assms unfolding memory_ok_pools by (cases u) (simp_all add: pool_ok_def page_at_def)

lemma memory_ok_fill [simp]: "memory_ok (fill_pages a n w m) = memory_ok m"
  by (simp add: memory_ok_pools)

lemma page_at_range:
  assumes "memory_ok m" "i < bit_cnt (used_map (the_pool u m))"
  shows "PHYS_BASE \<le> page_at (the_pool u m) i" "page_at (the_pool u m) i + 4096 \<le> 2 ^ 32"
    "page_at (the_pool u m) i mod 4096 = 0" "page_at (the_pool u m) i \<noteq> 0"
proof -
  have p: "pool_ok (the_pool u m)" using assms(1) by (cases u) (simp_all add: memory_ok_pools)
  then show "PHYS_BASE \<le> page_at (the_pool u m) i" "page_at (the_pool u m) i + 4096 \<le> 2 ^ 32"
    "page_at (the_pool u m) i mod 4096 = 0"
    using assms(2) by (auto simp: pool_ok_def page_at_def mod_add_eq [symmetric])
  then show "page_at (the_pool u m) i \<noteq> 0" by (auto simp: PHYS_BASE_def)
qed

lemma flag_bits: "flags AND PAL_USER = 0 \<longleftrightarrow> \<not> bit flags 2" "flags AND PAL_ZERO = 0 \<longleftrightarrow> \<not> bit flags 1"
  "flags AND PAL_ASSERT = 0 \<longleftrightarrow> \<not> bit flags 0" for flags :: nat
  using bit_iff_and_push_bit_not_eq_0 [of flags 2] bit_iff_and_push_bit_not_eq_0 [of flags 1]
    bit_iff_and_push_bit_not_eq_0 [of flags 0]
  by (simp_all add: PAL_USER_def PAL_ZERO_def PAL_ASSERT_def)

section \<open>Specifications\<close>

lemma palloc_get_multiple_ok:
  assumes ok: "memory_ok m" and n: "0 < n" and fl: "\<not> bit flags 0"
  defines "u \<equiv> bit flags 2"
  obtains (full) "palloc_get_multiple flags n m = Some (0, m)" "\<forall>k. \<not> run_of (used_map (the_pool u m)) k n False"
  | (got) i m' where "palloc_get_multiple flags n m = Some (page_at (the_pool u m) i, m')" "memory_ok m'"
    "i + n \<le> bit_cnt (used_map (the_pool u m))" "{i..<i + n} \<inter> pool_used (the_pool u m) = {}"
    "pool_used (the_pool u m') = pool_used (the_pool u m) \<union> {i..<i + n}"
    "base (the_pool u m') = base (the_pool u m)" "bit_cnt (used_map (the_pool u m')) = bit_cnt (used_map (the_pool u m))"
    "the_pool (\<not> u) m' = the_pool (\<not> u) m"
    "cells m' = (if bit flags 1 then cells (fill_pages (page_at (the_pool u m) i) n 0 m) else cells m)"
    "cr3 m' = cr3 m" "init_page_dir m' = init_page_dir m" "init_ram_pages m' = init_ram_pages m"
proof -
  let ?p = "the_pool u m"
  have pk: "pool_ok ?p" using ok by (cases u) (simp_all add: memory_ok_pools)
  obtain r b' where r: "bitmap_scan_and_flip (used_map ?p) 0 n False = Some (r, b')"
    "flips_run (used_map ?p) 0 n False r b'"
    using bitmap_scan_and_flip_ok [of "used_map ?p" 0 n False] pk by (auto simp: pool_ok_def)
  have ub: "flags AND PAL_USER = 0 \<longleftrightarrow> \<not> u" by (simp add: flag_bits u_def)
  have up: "user_pool m = the_pool True m" "kernel_pool m = the_pool False m" by (simp_all add: the_pool_def)
  have eq: "palloc_get_multiple flags n m =
     (let m1 = set_pool u (?p\<lparr>used_map := b'\<rparr>) m;
          pages = (if r \<noteq> BITMAP_ERROR then szt (base ?p + PGSIZE * r) else 0)
      in if pages \<noteq> 0 then Some (pages, if bit flags 1 then fill_pages pages n 0 m1 else m1)
         else Some (pages, m1))"
    using n r(1) fl unfolding palloc_get_multiple_def ub up
    by (cases u) (simp_all add: flag_bits(2,3) set_pool_def Let_def)
  show ?thesis
  proof (cases "r = BITMAP_ERROR")
    case True
    then have "b' = used_map ?p" "\<forall>k. \<not> run_of (used_map ?p) k n False" using r(2) by (auto simp: flips_run_def)
    moreover from this(1) have "set_pool u (?p\<lparr>used_map := b'\<rparr>) m = m" by (simp add: set_pool_def the_pool_def)
    ultimately show ?thesis using full eq True by (simp add: Let_def)
  next
    case False
    then have f: "bm_ok b'" "bit_cnt b' = bit_cnt (used_map ?p)" "run_of (used_map ?p) r n False"
      "\<forall>j < bit_cnt (used_map ?p). marked b' j = (if r \<le> j \<and> j < r + n then True else marked (used_map ?p) j)"
      using r(2) by (auto simp: flips_run_def)
    then have rn: "r + n \<le> bit_cnt (used_map ?p)" "\<forall>j \<in> {r..<r + n}. \<not> marked (used_map ?p) j"
      by (auto simp: run_of_def)
    note a = page_at_range [OF ok, of r u]
    have pa: "szt (base ?p + PGSIZE * r) = page_at ?p r" "page_at ?p r \<noteq> 0"
      using a rn(1) n by (simp_all add: page_at_def PGSIZE_def szt_def)
    let ?m1 = "set_pool u (?p\<lparr>used_map := b'\<rparr>) m"
    let ?m' = "if bit flags 1 then fill_pages (page_at ?p r) n 0 ?m1 else ?m1"
    have "palloc_get_multiple flags n m = Some (page_at ?p r, ?m')" using eq False pa by (simp add: Let_def)
    moreover have "memory_ok ?m'" using memory_ok_set_pool [OF ok f(1,2)] by simp
    moreover have "{r..<r + n} \<inter> pool_used ?p = {}" using rn(2) by (auto simp: pool_used_def)
    moreover have "pool_used (the_pool u ?m') = pool_used ?p \<union> {r..<r + n}"
      using f(2,4) rn(1) by (auto simp: pool_used_def)
    moreover have "cells ?m' = (if bit flags 1 then cells (fill_pages (page_at ?p r) n 0 m) else cells m)"
      by (simp add: fill_pages_def fun_eq_iff)
    ultimately show ?thesis using got [of r ?m'] rn(1) f(2) by simp
  qed
qed

lemma pool_of_page:
  assumes "memory_ok m" "i < bit_cnt (used_map (the_pool u m))"
  shows "page_from_pool (kernel_pool m) (page_at (the_pool u m) i) \<longleftrightarrow> \<not> u"
    "page_from_pool (user_pool m) (page_at (the_pool u m) i) \<longleftrightarrow> u"
    "pg_no (page_at (the_pool u m) i) - pg_no (base (the_pool u m)) = i"
proof -
  let ?k = "kernel_pool m" and ?u = "user_pool m"
  obtain a b where ab: "base ?k = 4096 * a" "base ?u = 4096 * b"
    using assms(1) by (auto simp: memory_ok_def pool_ok_def mod_eq_0_iff_dvd elim!: dvdE)
  have le: "a + bit_cnt (used_map ?k) \<le> b" using assms(1) ab by (simp add: memory_ok_def page_at_def)
  have no: "pg_no (4096 * x + 4096 * y) = x + y" "pg_no (4096 * x) = x" for x y
    unfolding pg_no_div distrib_left [symmetric] by simp_all
  show "page_from_pool ?k (page_at (the_pool u m) i) \<longleftrightarrow> \<not> u"
    "page_from_pool ?u (page_at (the_pool u m) i) \<longleftrightarrow> u"
    "pg_no (page_at (the_pool u m) i) - pg_no (base (the_pool u m)) = i"
    using assms(2) le by (cases u; force simp: page_from_pool_def the_pool_def page_at_def ab no bitmap_size_def Let_def)+
qed

lemma palloc_free_multiple_ok:
  assumes ok: "memory_ok m" and n: "0 < n" and rng: "i + n \<le> bit_cnt (used_map (the_pool u m))"
    and used: "{i..<i + n} \<subseteq> pool_used (the_pool u m)"
  obtains m' where "palloc_free_multiple (page_at (the_pool u m) i) n m = Some m'" "memory_ok m'"
    "pool_used (the_pool u m') = pool_used (the_pool u m) - {i..<i + n}"
    "base (the_pool u m') = base (the_pool u m)" "bit_cnt (used_map (the_pool u m')) = bit_cnt (used_map (the_pool u m))"
    "the_pool (\<not> u) m' = the_pool (\<not> u) m"
    "cells m' = cells (fill_pages (page_at (the_pool u m) i) n 0xcccccccc m)"
    "cr3 m' = cr3 m" "init_page_dir m' = init_page_dir m" "init_ram_pages m' = init_ram_pages m"
proof -
  let ?p = "the_pool u m"
  have pk: "pool_ok ?p" using ok by (cases u) (simp_all add: memory_ok_pools)
  have i: "i < bit_cnt (used_map ?p)" using rng n by simp
  note pg = pool_of_page [OF ok i] page_at_range(3,4) [OF ok i]
  have all: "bitmap_all (used_map ?p) i n = Some True"
    using bitmap_all_spec [of "used_map ?p" i n] pk rng used by (auto simp: pool_ok_def pool_used_def)
  obtain b where b: "bitmap_set_multiple (used_map ?p) i n False = Some b" "bm_ok b" "bit_cnt b = bit_cnt (used_map ?p)"
    "\<forall>j < bit_cnt (used_map ?p). marked b j = (if i \<le> j \<and> j < i + n then False else marked (used_map ?p) j)"
    using bitmap_set_multiple_spec [of "used_map ?p" i n False] pk rng by (auto simp: pool_ok_def)
  let ?m' = "set_pool u (?p\<lparr>used_map := b\<rparr>) (fill_pages (page_at ?p i) n 0xcccccccc m)"
  have up: "user_pool m = the_pool True m" "kernel_pool m = the_pool False m" by (simp_all add: the_pool_def)
  have "palloc_free_multiple (page_at ?p i) n m = Some ?m'"
    using n pg all b(1) unfolding palloc_free_multiple_def
    by (cases u) (simp_all add: pg_ofs_mod Let_def up set_pool_def)
  moreover have "memory_ok ?m'"
    using memory_ok_set_pool [of "fill_pages (page_at ?p i) n 0xcccccccc m" b u] ok b(2,3) by simp
  moreover have "pool_used (the_pool u ?m') = pool_used ?p - {i..<i + n}"
    using b(3,4) by (auto simp: pool_used_def split: if_splits)
  ultimately show ?thesis using that [of ?m'] b(3) by simp
qed

section \<open>Both pools are allocators of runs\<close>

definition pg_cap :: "bool \<Rightarrow> memory \<Rightarrow> nat" where
  "pg_cap u m = bit_cnt (used_map (the_pool u m))"

definition pg_used :: "bool \<Rightarrow> memory \<Rightarrow> nat set" where
  "pg_used u m = pool_used (the_pool u m)"

definition pg_take :: "bool \<Rightarrow> nat \<Rightarrow> memory \<Rightarrow> (nat option \<times> memory) option" where
  "pg_take u n m = (if n = 0 then Some (Some 0, m) else do {
     (p, m') \<leftarrow> palloc_get_multiple (if u then PAL_USER else 0) n m;
     Some (if p = 0 then None else Some ((p - base (the_pool u m)) div PGSIZE), m') })"

definition pg_give :: "bool \<Rightarrow> nat \<Rightarrow> nat \<Rightarrow> memory \<Rightarrow> memory option" where
  "pg_give u i n m = palloc_free_multiple (page_at (the_pool u m) i) n m"

interpretation pg: slot_pool memory_ok "pg_cap u" "pg_used u" "pg_take u" "pg_give u" for u
proof
  fix m n
  assume ok: "memory_ok m"
  define fl where "fl = (if u then PAL_USER else 0)"
  have f: "\<not> bit fl 0" "bit fl 2 = u" "\<not> bit fl 1" by (simp_all add: fl_def PAL_USER_def bit_iff_odd)
  show "\<exists>r m'. pg_take u n m = Some (r, m') \<and> memory_ok m' \<and> pg_cap u m' = pg_cap u m \<and>
      (case r of
         None \<Rightarrow> pg_used u m' = pg_used u m \<and> (\<forall>i. i + n \<le> pg_cap u m \<longrightarrow> {i..<i + n} \<inter> pg_used u m \<noteq> {})
       | Some i \<Rightarrow> i + n \<le> pg_cap u m \<and> {i..<i + n} \<inter> pg_used u m = {} \<and> pg_used u m' = pg_used u m \<union> {i..<i + n})"
  proof (cases "n = 0")
    case False
    then have n: "0 < n" by simp
    show ?thesis
    proof (cases rule: palloc_get_multiple_ok [OF ok n f(1), unfolded f(2)])
      case 1
      have "{i..<i + n} \<inter> pg_used u m \<noteq> {}" if fits: "i + n \<le> pg_cap u m" for i
      proof -
        obtain x where "x \<in> {i..<i + n}" "marked (used_map (the_pool u m)) x"
          using 1(2) fits unfolding run_of_def pg_cap_def by blast
        then have "x \<in> {i..<i + n} \<inter> pg_used u m" using fits by (simp add: pg_used_def pool_used_def pg_cap_def)
        then show ?thesis by blast
      qed
      then show ?thesis using 1 False ok by (simp add: pg_take_def fl_def [symmetric])
    next
      case (2 i m')
      have "page_at (the_pool u m) i \<noteq> 0" using page_at_range(4) [OF ok, of i u] 2(3) False by simp
      moreover have "(page_at (the_pool u m) i - base (the_pool u m)) div PGSIZE = i"
        by (simp add: page_at_def PGSIZE_def)
      ultimately show ?thesis using False 2 by (simp add: pg_take_def fl_def [symmetric] pg_cap_def pg_used_def)
    qed
  qed (use ok in \<open>simp add: pg_take_def\<close>)
next
  fix m i n
  assume ok: "memory_ok m" and rng: "i + n \<le> pg_cap u m" and used: "{i..<i + n} \<subseteq> pg_used u m"
  show "\<exists>m'. pg_give u i n m = Some m' \<and> memory_ok m' \<and> pg_cap u m' = pg_cap u m \<and>
      pg_used u m' = pg_used u m - {i..<i + n}"
  proof (cases "n = 0")
    case True
    have "pool_ok (the_pool u m)" using ok by (cases u) (simp_all add: memory_ok_pools)
    then have "pg_ofs (page_at (the_pool u m) i) = 0"
      by (simp add: pool_ok_def page_at_def pg_ofs_mod mod_add_eq [symmetric])
    then show ?thesis using True ok by (simp add: pg_give_def palloc_free_multiple_def)
  next
    case False
    then have n: "0 < n" by simp
    obtain m' where "palloc_free_multiple (page_at (the_pool u m) i) n m = Some m'" "memory_ok m'"
      "pool_used (the_pool u m') = pool_used (the_pool u m) - {i..<i + n}"
      "bit_cnt (used_map (the_pool u m')) = bit_cnt (used_map (the_pool u m))"
      using palloc_free_multiple_ok [OF ok n rng [unfolded pg_cap_def] used [unfolded pg_used_def]] by blast
    then show ?thesis by (simp add: pg_give_def pg_cap_def pg_used_def)
  qed
qed

end
