(* ===== verification/Pagedir.thy ===== *)
theory Pagedir
  imports Palloc
begin

text \<open>
  Page directories, \<open>userprog/pagedir.c\<close>, on the cells of memory.  A directory entry or
  page-table entry is the cell at its address; the loops of \<open>pagedir_destroy\<close> run over the
  user part of the directory.
\<close>

section \<open>Definitions\<close>

definition store :: "nat \<Rightarrow> u32 \<Rightarrow> memory \<Rightarrow> memory" where
  "store a v m = m\<lparr>cells := (cells m)(a := v)\<rparr>"

definition pagedir_create :: "memory \<Rightarrow> (nat \<times> memory) option" where
  "pagedir_create m = do {
     (pd, m) \<leftarrow> palloc_get_page 0 m;
     Some (pd, if pd \<noteq> 0
       then m\<lparr>cells := \<lambda>a. if pd \<le> a \<and> a < pd + PGSIZE then cells m (init_page_dir m + (a - pd)) else cells m a\<rparr>
       else m) }"

definition destroy_pte :: "nat \<Rightarrow> nat \<Rightarrow> memory \<Rightarrow> memory option" where
  "destroy_pte pt i m = (let pte = cells m (pt + 4 * i) in
     if pte AND PTE_P \<noteq> 0 then do {
       page \<leftarrow> pte_get_page pte;
       palloc_free_page page m }
     else Some m)"

definition destroy_pde :: "nat \<Rightarrow> nat \<Rightarrow> memory \<Rightarrow> memory option" where
  "destroy_pde pd i m = (let pde = cells m (pd + 4 * i) in
     if pde AND PTE_P \<noteq> 0 then do {
       pt \<leftarrow> pde_get_pt pde;
       m \<leftarrow> mfold (destroy_pte pt) [0..<PGSIZE div 4] m;
       palloc_free_page pt m }
     else Some m)"

definition pagedir_destroy :: "nat \<Rightarrow> memory \<Rightarrow> memory option" where
  "pagedir_destroy pd m =
     (if pd = 0 then Some m
      else do {
        kassert (pd \<noteq> init_page_dir m);
        m \<leftarrow> mfold (destroy_pde pd) [0..<pd_no PHYS_BASE] m;
        palloc_free_page pd m })"

text \<open>The address of the entry, 0 for a null pointer.\<close>

definition lookup_page :: "nat \<Rightarrow> nat \<Rightarrow> bool \<Rightarrow> memory \<Rightarrow> (nat \<times> memory) option" where
  "lookup_page pd vaddr create m = do {
     kassert (pd \<noteq> 0);
     kassert (\<not> create \<or> is_user_vaddr vaddr);
     let pde = pd + 4 * pd_no vaddr;
     (found, m) \<leftarrow>
       (if cells m pde = 0 then
          (if create then do {
             (pt, m) \<leftarrow> palloc_get_page PAL_ZERO m;
             if pt = 0 then Some (False, m)
             else do {
               e \<leftarrow> pde_create pt;
               Some (True, store pde e m) } }
           else Some (False, m))
        else Some (True, m));
     if \<not> found then Some (0, m)
     else do {
       pt \<leftarrow> pde_get_pt (cells m pde);
       Some (pt + 4 * pt_no vaddr, m) } }"

definition pagedir_set_page :: "nat \<Rightarrow> nat \<Rightarrow> nat \<Rightarrow> bool \<Rightarrow> memory \<Rightarrow> (bool \<times> memory) option" where
  "pagedir_set_page pd upage kpage writable m = do {
     kassert (pg_ofs upage = 0);
     kassert (pg_ofs kpage = 0);
     kassert (is_user_vaddr upage);
     p \<leftarrow> vtop kpage;
     kassert (drop_bit PTSHIFT p < init_ram_pages m);
     kassert (pd \<noteq> init_page_dir m);
     (pte, m) \<leftarrow> lookup_page pd upage True m;
     if pte \<noteq> 0 then do {
       kassert (cells m pte AND PTE_P = 0);
       e \<leftarrow> pte_create_user kpage writable;
       Some (True, store pte e m) }
     else Some (False, m) }"

definition pagedir_get_page :: "nat \<Rightarrow> nat \<Rightarrow> memory \<Rightarrow> nat option" where
  "pagedir_get_page pd uaddr m = do {
     kassert (is_user_vaddr uaddr);
     (pte, m) \<leftarrow> lookup_page pd uaddr False m;
     if pte \<noteq> 0 \<and> cells m pte AND PTE_P \<noteq> 0 then do {
       page \<leftarrow> pte_get_page (cells m pte);
       Some (page + pg_ofs uaddr) }
     else Some 0 }"

definition pagedir_activate :: "nat \<Rightarrow> memory \<Rightarrow> memory option" where
  "pagedir_activate pd m = do {
     p \<leftarrow> vtop (if pd = 0 then init_page_dir m else pd);
     Some (m\<lparr>cr3 := p\<rparr>) }"

definition active_pd :: "memory \<Rightarrow> nat option" where
  "active_pd m = ptov (cr3 m)"

definition invalidate_pagedir :: "nat \<Rightarrow> memory \<Rightarrow> memory option" where
  "invalidate_pagedir pd m = do {
     a \<leftarrow> active_pd m;
     if a = pd then pagedir_activate pd m else Some m }"

definition pagedir_clear_page :: "nat \<Rightarrow> nat \<Rightarrow> memory \<Rightarrow> memory option" where
  "pagedir_clear_page pd upage m = do {
     kassert (pg_ofs upage = 0);
     kassert (is_user_vaddr upage);
     (pte, m) \<leftarrow> lookup_page pd upage False m;
     if pte \<noteq> 0 \<and> cells m pte AND PTE_P \<noteq> 0
     then invalidate_pagedir pd (store pte (cells m pte AND NOT PTE_P) m)
     else Some m }"

definition pagedir_is_dirty :: "nat \<Rightarrow> nat \<Rightarrow> memory \<Rightarrow> bool option" where
  "pagedir_is_dirty pd vpage m = do {
     (pte, m) \<leftarrow> lookup_page pd vpage False m;
     Some (pte \<noteq> 0 \<and> cells m pte AND PTE_D \<noteq> 0) }"

definition pagedir_set_dirty :: "nat \<Rightarrow> nat \<Rightarrow> bool \<Rightarrow> memory \<Rightarrow> memory option" where
  "pagedir_set_dirty pd vpage dirty m = do {
     (pte, m) \<leftarrow> lookup_page pd vpage False m;
     if pte \<noteq> 0 then
       (if dirty then Some (store pte (cells m pte OR PTE_D) m)
        else invalidate_pagedir pd (store pte (cells m pte AND NOT PTE_D) m))
     else Some m }"

definition pagedir_is_accessed :: "nat \<Rightarrow> nat \<Rightarrow> memory \<Rightarrow> bool option" where
  "pagedir_is_accessed pd vpage m = do {
     (pte, m) \<leftarrow> lookup_page pd vpage False m;
     Some (pte \<noteq> 0 \<and> cells m pte AND PTE_A \<noteq> 0) }"

definition pagedir_set_accessed :: "nat \<Rightarrow> nat \<Rightarrow> bool \<Rightarrow> memory \<Rightarrow> memory option" where
  "pagedir_set_accessed pd vpage accessed m = do {
     (pte, m) \<leftarrow> lookup_page pd vpage False m;
     if pte \<noteq> 0 then
       (if accessed then Some (store pte (cells m pte OR PTE_A) m)
        else invalidate_pagedir pd (store pte (cells m pte AND NOT PTE_A) m))
     else Some m }"

section \<open>Entries\<close>

lemma phys_page:
  assumes "p mod 4096 = 0" "PHYS_BASE \<le> p" "p < 2 ^ 32"
  shows "(p - PHYS_BASE) mod 4096 = 0 \<and> p - PHYS_BASE < 2 ^ 32 \<and> p - PHYS_BASE < PHYS_BASE \<and>
    szt (p - PHYS_BASE + PHYS_BASE) = p"
proof -
  obtain k where k: "p = 4096 * k" using assms(1) by (auto simp: mod_eq_0_iff_dvd elim!: dvdE)
  have "p - PHYS_BASE = 4096 * (k - 786432)" unfolding k PHYS_BASE_def by simp
  then have "(p - PHYS_BASE) mod 4096 = 0" by simp
  moreover have "p - PHYS_BASE < 1073741824" using assms(2,3) unfolding PHYS_BASE_def by simp
  ultimately show ?thesis using assms(2,3) by (simp add: PHYS_BASE_def szt_def)
qed

lemma pde_create_get:
  assumes "p mod 4096 = 0" "PHYS_BASE \<le> p" "p < 2 ^ 32"
  obtains e where "pde_create p = Some e" "e \<noteq> 0" "pde_get_pt e = Some p"
proof -
  let ?q = "p - PHYS_BASE"
  let ?e = "of_nat ?q OR (PTE_U OR PTE_P OR PTE_W) :: u32"
  have q: "?q mod 4096 = 0" "?q < 2 ^ 32" "?q < PHYS_BASE" "szt (?q + PHYS_BASE) = p"
    using phys_page [OF assms] by blast+
  have f: "(PTE_U OR PTE_P OR PTE_W) AND mask 12 = PTE_U OR PTE_P OR PTE_W"
    "PTE_P AND mask 12 = PTE_P" "(PTE_U OR PTE_P OR PTE_W) AND PTE_P \<noteq> 0"
    by (simp_all add: PTE_U_def PTE_P_def PTE_W_def mask_eq_exp_minus_1)
  have a: "?e AND PTE_ADDR = of_nat ?q" "?e AND PTE_P = (PTE_U OR PTE_P OR PTE_W) AND PTE_P"
    using entry_bits [OF q(1,2) f(1)] f(2) by blast+
  then have "?e \<noteq> 0" using f(3) by auto
  moreover have "pde_create p = Some ?e"
    using assms by (simp add: pde_create_def pg_ofs_mod vtop_def is_kernel_vaddr_def)
  moreover have "pde_get_pt ?e = Some p"
    using q(2-4) a f(3) by (simp add: pde_get_pt_def ptov_def unat_of_nat32)
  ultimately show ?thesis using that by blast
qed

lemma pte_create_get:
  assumes "p mod 4096 = 0" "PHYS_BASE \<le> p" "p < 2 ^ 32"
  obtains e where "pte_create_user p w = Some e" "e AND PTE_P \<noteq> 0" "pte_get_page e = Some p"
proof -
  let ?q = "p - PHYS_BASE"
  let ?f = "PTE_P OR (if w then PTE_W else 0) OR PTE_U"
  have q: "?q mod 4096 = 0" "?q < 2 ^ 32" "?q < PHYS_BASE" "szt (?q + PHYS_BASE) = p"
    using phys_page [OF assms] by blast+
  have f: "?f AND mask 12 = ?f" "PTE_P AND mask 12 = PTE_P" "?f AND PTE_P \<noteq> 0"
    by (simp_all add: PTE_U_def PTE_P_def PTE_W_def mask_eq_exp_minus_1)
  have a: "(of_nat ?q OR ?f) AND PTE_ADDR = of_nat ?q" "(of_nat ?q OR ?f) AND PTE_P = ?f AND PTE_P"
    using entry_bits [OF q(1,2) f(1)] f(2) by blast+
  moreover have "pte_create_user p w = Some (of_nat ?q OR ?f)"
    using assms by (simp add: pte_create_user_def pte_create_kernel_def pg_ofs_mod vtop_def is_kernel_vaddr_def or.assoc)
  moreover have "pte_get_page (of_nat ?q OR ?f) = Some p"
    using q(2-4) a(1) by (simp add: pte_get_page_def ptov_def unat_of_nat32)
  ultimately show ?thesis using that f(3) by metis
qed

section \<open>Well-formed directories\<close>

text \<open>
  \<open>pd_wf m d T\<close>: kernel page \<open>d\<close> holds a directory whose user part has page table
  \<open>T i\<close>, another kernel page, behind entry \<open>i\<close>.  Distinct entries have distinct tables.
\<close>

definition kpage_at :: "memory \<Rightarrow> nat \<Rightarrow> nat" where
  "kpage_at m j = page_at (the_pool False m) j"

definition pd_wf :: "memory \<Rightarrow> nat \<Rightarrow> (nat \<rightharpoonup> nat) \<Rightarrow> bool" where
  "pd_wf m d T \<longleftrightarrow> memory_ok m \<and> d \<in> pool_used (the_pool False m) \<and>
     (\<forall>i < 768. case T i of
        None \<Rightarrow> cells m (kpage_at m d + 4 * i) = 0
      | Some j \<Rightarrow> j \<in> pool_used (the_pool False m) \<and> j \<noteq> d \<and>
          pde_get_pt (cells m (kpage_at m d + 4 * i)) = Some (kpage_at m j)) \<and>
     (\<forall>i < 768. \<forall>i' < 768. \<forall>j. T i = Some j \<longrightarrow> T i' = Some j \<longrightarrow> i = i')"

text \<open>The page-table entry of an address is marked present.\<close>

definition present :: "memory \<Rightarrow> (nat \<rightharpoonup> nat) \<Rightarrow> nat \<Rightarrow> bool" where
  "present m T va \<longleftrightarrow> (case T (pd_no va) of
     None \<Rightarrow> False | Some j \<Rightarrow> cells m (kpage_at m j + 4 * pt_no va) AND PTE_P \<noteq> 0)"

text \<open>Cells of different pages, or at different places of a page, are different.\<close>

lemma kpage_cell_eq:
  assumes "k < 1024" "k' < 1024"
  shows "kpage_at m j + 4 * k = kpage_at m j' + 4 * k' \<longleftrightarrow> j = j' \<and> k = k'"
proof -
  have "(4 * k + 4096 * j) div 4096 = j" "(4 * k' + 4096 * j') div 4096 = j'"
    using assms by (simp_all add: div_add1_eq)
  moreover have "(kpage_at m j + 4 * k = kpage_at m j' + 4 * k') = (4 * k + 4096 * j = 4 * k' + 4096 * j')"
    by (simp add: kpage_at_def page_at_def) linarith
  ultimately show ?thesis by (metis add_left_cancel add_right_cancel mult_left_cancel zero_neq_numeral)
qed

lemma pde_get_pt_nonzero: "pde_get_pt e = Some p \<Longrightarrow> e \<noteq> 0"
  by (auto simp: pde_get_pt_def)

lemma used_page:
  assumes "memory_ok m" "j \<in> pool_used (the_pool False m)"
  shows "PHYS_BASE \<le> kpage_at m j" "kpage_at m j < 2 ^ 32" "kpage_at m j mod 4096 = 0" "kpage_at m j \<noteq> 0"
proof -
  have j: "j < bit_cnt (used_map (the_pool False m))" using assms(2) by (simp add: pool_used_def)
  show "PHYS_BASE \<le> kpage_at m j" "kpage_at m j mod 4096 = 0" "kpage_at m j \<noteq> 0"
    using page_at_range [OF assms(1) j] by (simp_all add: kpage_at_def)
  show "kpage_at m j < 2 ^ 32" using page_at_range(2) [OF assms(1) j] unfolding kpage_at_def by linarith
qed

lemma pd_wf_entry:
  assumes "pd_wf m d T" "i < 768"
  shows "T i = None \<Longrightarrow> cells m (kpage_at m d + 4 * i) = 0"
    "T i = Some j \<Longrightarrow> j \<in> pool_used (the_pool False m) \<and> j \<noteq> d \<and>
       pde_get_pt (cells m (kpage_at m d + 4 * i)) = Some (kpage_at m j)"
proof -
  have "case T i of None \<Rightarrow> cells m (kpage_at m d + 4 * i) = 0
      | Some j \<Rightarrow> j \<in> pool_used (the_pool False m) \<and> j \<noteq> d \<and>
          pde_get_pt (cells m (kpage_at m d + 4 * i)) = Some (kpage_at m j)"
    using assms unfolding pd_wf_def by blast
  then show "T i = None \<Longrightarrow> cells m (kpage_at m d + 4 * i) = 0"
    "T i = Some j \<Longrightarrow> j \<in> pool_used (the_pool False m) \<and> j \<noteq> d \<and>
       pde_get_pt (cells m (kpage_at m d + 4 * i)) = Some (kpage_at m j)"
    by simp_all
qed

lemma pd_wf_inj: "pd_wf m d T \<Longrightarrow> i < 768 \<Longrightarrow> i' < 768 \<Longrightarrow> T i = Some j \<Longrightarrow> T i' = Some j \<Longrightarrow> i = i'"
  unfolding pd_wf_def by blast

text \<open>Looking up an entry without creating a table only reads.\<close>

lemma lookup_page_read:
  assumes wf: "pd_wf m d T" and u: "is_user_vaddr va"
  shows "lookup_page (kpage_at m d) va False m =
    Some (case T (pd_no va) of None \<Rightarrow> 0 | Some j \<Rightarrow> kpage_at m j + 4 * pt_no va, m)"
proof -
  have i: "pd_no va < 768" using pd_no_user [OF u] .
  have d: "kpage_at m d \<noteq> 0" using used_page(4) wf by (simp add: pd_wf_def)
  show ?thesis
  proof (cases "T (pd_no va)")
    case None
    then show ?thesis using pd_wf_entry(1) [OF wf i] d by (simp add: lookup_page_def)
  next
    case (Some j)
    note e = pd_wf_entry(2) [OF wf i Some]
    then show ?thesis using Some d pde_get_pt_nonzero [of "cells m (kpage_at m d + 4 * pd_no va)"]
      by (simp add: lookup_page_def)
  qed
qed

text \<open>What a directory maps an address to.\<close>

lemma pagedir_get_page_eq:
  assumes wf: "pd_wf m d T" and u: "is_user_vaddr va"
  shows "pagedir_get_page (kpage_at m d) va m =
    (case T (pd_no va) of
       None \<Rightarrow> Some 0
     | Some j \<Rightarrow> (let e = cells m (kpage_at m j + 4 * pt_no va) in
         if e AND PTE_P \<noteq> 0 then do { page \<leftarrow> pte_get_page e; Some (page + pg_ofs va) } else Some 0))"
proof (cases "T (pd_no va)")
  case None
  then show ?thesis using u lookup_page_read [OF wf u] by (simp add: pagedir_get_page_def)
next
  case (Some j)
  then have "kpage_at m j \<noteq> 0"
    using pd_wf_entry(2) [OF wf pd_no_user [OF u] Some] used_page(4) wf by (simp add: pd_wf_def)
  then show ?thesis using u lookup_page_read [OF wf u] Some by (simp add: pagedir_get_page_def)
qed

lemma store_simps [simp]:
  "the_pool u (store a v m) = the_pool u m" "memory_ok (store a v m) = memory_ok m"
  "kpage_at (store a v m) = kpage_at m" "cells (store a v m) = (cells m)(a := v)"
  "init_page_dir (store a v m) = init_page_dir m" "init_ram_pages (store a v m) = init_ram_pages m"
  by (simp_all add: store_def the_pool_def memory_ok_pools kpage_at_def [abs_def])

text \<open>Writing into a page table keeps the directory well formed.\<close>

lemma pd_wf_store:
  assumes wf: "pd_wf m d T" and j: "T i = Some j" "i < 768" and k: "k < 1024"
  shows "pd_wf (store (kpage_at m j + 4 * k) v m) d T"
proof -
  have "kpage_at m d + 4 * i' \<noteq> kpage_at m j + 4 * k" if "i' < 768" for i'
    using pd_wf_entry(2) [OF wf j(2,1)] kpage_cell_eq [of i' k m d j] that k by auto
  then show ?thesis using wf unfolding pd_wf_def by (auto split: option.splits)
qed

lemma get_page_store:
  assumes wf: "pd_wf m d T" and j: "T i = Some j" "i < 768" and k: "k < 1024" and u: "is_user_vaddr va"
    and other: "\<not> (pd_no va = i \<and> pt_no va = k)"
  shows "pagedir_get_page (kpage_at m d) va (store (kpage_at m j + 4 * k) v m) = pagedir_get_page (kpage_at m d) va m"
proof -
  have w': "pd_wf (store (kpage_at m j + 4 * k) v m) d T" by (rule pd_wf_store [OF wf j k])
  show ?thesis
  proof (cases "T (pd_no va)")
    case None
    then show ?thesis using pagedir_get_page_eq [OF wf u] pagedir_get_page_eq [OF w' u] by simp
  next
    case (Some j')
    have "kpage_at m j' + 4 * pt_no va \<noteq> kpage_at m j + 4 * k"
      using other Some j pd_wf_inj [OF wf pd_no_user [OF u] j(2)] kpage_cell_eq [OF pt_no_less k] by metis
    then show ?thesis using pagedir_get_page_eq [OF wf u] pagedir_get_page_eq [OF w' u] Some by simp
  qed
qed

lemma lookup_page_create:
  assumes wf: "pd_wf m d T" and u: "is_user_vaddr va"
  obtains (full) "lookup_page (kpage_at m d) va True m = Some (0, m)" "T (pd_no va) = None"
    "\<forall>k. \<not> run_of (used_map (the_pool False m)) k 1 False"
  | (entry) j m' where "lookup_page (kpage_at m d) va True m = Some (kpage_at m j + 4 * pt_no va, m')"
    "pd_wf m' d (T(pd_no va \<mapsto> j))" "kpage_at m' = kpage_at m" "init_ram_pages m' = init_ram_pages m"
    "\<forall>a. is_user_vaddr a \<longrightarrow> pagedir_get_page (kpage_at m d) a m' = pagedir_get_page (kpage_at m d) a m"
    "cells m' (kpage_at m j + 4 * pt_no va) =
       (if T (pd_no va) = None then 0 else cells m (kpage_at m j + 4 * pt_no va))"
    "T (pd_no va) = None \<or> T (pd_no va) = Some j"
proof (cases "T (pd_no va)")
  case (Some j)
  have i: "pd_no va < 768" using pd_no_user [OF u] .
  have d: "kpage_at m d \<noteq> 0" using used_page(4) wf by (simp add: pd_wf_def)
  note e = pd_wf_entry(2) [OF wf i Some]
  have "lookup_page (kpage_at m d) va True m = Some (kpage_at m j + 4 * pt_no va, m)"
    using Some d u e pde_get_pt_nonzero [of "cells m (kpage_at m d + 4 * pd_no va)"] by (simp add: lookup_page_def)
  moreover have "T(pd_no va \<mapsto> j) = T" using Some by (simp add: map_upd_triv)
  ultimately show ?thesis using entry [of j m] wf Some by simp
next
  case None
  have i: "pd_no va < 768" using pd_no_user [OF u] .
  have ok: "memory_ok m" and du: "d \<in> pool_used (the_pool False m)" using wf by (simp_all add: pd_wf_def)
  have d: "kpage_at m d \<noteq> 0" using used_page(4) [OF ok du] .
  have z: "cells m (kpage_at m d + 4 * pd_no va) = 0" using pd_wf_entry(1) [OF wf i None] .
  have fl: "\<not> bit PAL_ZERO 0" "bit PAL_ZERO 1" "\<not> bit PAL_ZERO 2" by (simp_all add: PAL_ZERO_def bit_iff_odd)
  have one: "(0::nat) < 1" by simp
  show ?thesis
  proof (cases rule: palloc_get_multiple_ok [OF ok one fl(1)])
    case 1
    then show ?thesis using full None d u z fl(3) by (simp add: lookup_page_def palloc_get_page_def)
  next
    case (2 j m1)
    have ju: "j \<notin> pool_used (the_pool False m)" "j \<in> pool_used (the_pool False m1)"
      "pool_used (the_pool False m) \<subseteq> pool_used (the_pool False m1)"
      using 2(4,5) fl(3) by auto
    have kp: "kpage_at m1 = kpage_at m" using 2(6) fl(3) by (simp add: kpage_at_def [abs_def] page_at_def)
    have jp: "kpage_at m j mod 4096 = 0" "PHYS_BASE \<le> kpage_at m j" "kpage_at m j < 2 ^ 32" "kpage_at m j \<noteq> 0"
      using used_page [OF 2(2) ju(2)] kp by simp_all
    obtain e where e: "pde_create (kpage_at m j) = Some e" "e \<noteq> 0" "pde_get_pt e = Some (kpage_at m j)"
      using pde_create_get [OF jp(1-3)] .
    let ?pde = "kpage_at m d + 4 * pd_no va" and ?T = "T(pd_no va \<mapsto> j)"
    define m' where "m' = store ?pde e m1"
    have dj: "d \<noteq> j" using du ju(1) by blast
    have c1: "cells m1 a = (if kpage_at m j \<le> a \<and> a < kpage_at m j + 4096 then 0 else cells m a)" for a
      using 2(9) fl by (simp add: fill_pages_def kpage_at_def PGSIZE_def)
    have in_page: "kpage_at m x + 4 * k \<in> {kpage_at m j..<kpage_at m j + 4096} \<longleftrightarrow> x = j" if "k < 1024" for x k
    proof
      assume "kpage_at m x + 4 * k \<in> {kpage_at m j..<kpage_at m j + 4096}"
      then have "4096 * j \<le> 4096 * x + 4 * k" "4096 * x + 4 * k < 4096 * j + 4096"
        by (simp_all add: kpage_at_def page_at_def)
      then show "x = j" using that by linarith
    qed (use that in auto)
    have pre: "palloc_get_page PAL_ZERO m = Some (kpage_at m j, m1)"
      using 2(1) fl(3) by (simp add: palloc_get_page_def kpage_at_def)
    have run: "lookup_page (kpage_at m d) va True m = Some (kpage_at m j + 4 * pt_no va, m')"
      using d u z pre jp(4) e by (simp add: lookup_page_def m'_def)
    have cell: "cells m' (kpage_at m x + 4 * k) =
        (if x = d \<and> k = pd_no va then e else if x = j then 0 else cells m (kpage_at m x + 4 * k))"
      if "k < 1024" for x k
      using in_page [OF that, of x] kpage_cell_eq [OF that, of "pd_no va" m x d] i that by (simp add: m'_def c1)
    have wf': "pd_wf m' d ?T"
      unfolding pd_wf_def
    proof (intro conjI allI impI)
      fix x :: nat assume x: "x < 768"
      show "case ?T x of None \<Rightarrow> cells m' (kpage_at m' d + 4 * x) = 0
        | Some y \<Rightarrow> y \<in> pool_used (the_pool False m') \<and> y \<noteq> d \<and>
            pde_get_pt (cells m' (kpage_at m' d + 4 * x)) = Some (kpage_at m' y)"
      proof (cases "x = pd_no va")
        case True
        then show ?thesis using cell [of "pd_no va" d] i e(3) dj ju(2) kp by (simp add: m'_def)
      next
        case False
        have "cells m' (kpage_at m d + 4 * x) = cells m (kpage_at m d + 4 * x)" using cell [of x d] x False dj by simp
        then show ?thesis using pd_wf_entry [OF wf x] False ju(3) kp by (cases "T x") (auto simp: m'_def)
      qed
    next
      fix x y t :: nat assume a: "x < 768" "y < 768" "?T x = Some t" "?T y = Some t"
      have "T z \<noteq> Some j" if "z < 768" for z using pd_wf_entry(2) [OF wf that] ju(1) by blast
      then show "x = y" using a pd_wf_inj [OF wf a(1,2), of t] by (auto split: if_splits)
    qed (use 2(2) du ju(3) in \<open>auto simp: m'_def\<close>)
    have get: "pagedir_get_page (kpage_at m d) a m' = pagedir_get_page (kpage_at m d) a m" if a: "is_user_vaddr a" for a
    proof -
      have k: "kpage_at m' = kpage_at m" using kp by (simp add: m'_def)
      note g' = pagedir_get_page_eq [OF wf' a, unfolded k] and g = pagedir_get_page_eq [OF wf a]
      show ?thesis
      proof (cases "pd_no a = pd_no va")
        case True
        then show ?thesis using g g' None cell [OF pt_no_less, of j a] dj by simp
      next
        case False
        show ?thesis
        proof (cases "T (pd_no a)")
          case (Some t)
          then have "t \<noteq> j" "t \<noteq> d" using pd_wf_entry(2) [OF wf pd_no_user [OF a] Some] ju(1) by blast+
          then show ?thesis using g g' False Some cell [OF pt_no_less, of t a] by simp
        qed (use g g' False in simp)
      qed
    qed
    have "cells m' (kpage_at m j + 4 * pt_no va) = 0" using cell [OF pt_no_less, of j va] dj by simp
    moreover have "kpage_at m' = kpage_at m" "init_ram_pages m' = init_ram_pages m" using kp 2(12) by (simp_all add: m'_def)
    ultimately show ?thesis using entry [OF run wf'] get None by simp
  qed
qed

section \<open>Claims\<close>

text \<open>
  C32: \<open>pagedir_set_page\<close> installs exactly one mapping.  On a well-formed directory and an
  unmapped user page it returns; either it reports that no page table could be allocated
  and nothing changed, or afterwards \<open>pagedir_get_page\<close> translates every address of the page
  into the given frame, every other user address as before, and the directory is still well
  formed.
\<close>

theorem pagedir_set_get_page:
  assumes wf: "pd_wf m d T" and pd: "kpage_at m d \<noteq> init_page_dir m"
    and up: "is_user_vaddr upage" "upage mod 4096 = 0"
    and kp: "kpage mod 4096 = 0" "PHYS_BASE \<le> kpage" "kpage < 2 ^ 32" "(kpage - PHYS_BASE) div 4096 < init_ram_pages m"
    and free: "\<not> present m T upage"
  shows "\<exists>ok m'. pagedir_set_page (kpage_at m d) upage kpage w m = Some (ok, m') \<and>
    (if ok then (\<exists>T'. pd_wf m' d T') \<and>
       (\<forall>a. is_user_vaddr a \<longrightarrow> pagedir_get_page (kpage_at m d) a m' =
          (if a div 4096 = upage div 4096 then Some (kpage + a mod 4096) else pagedir_get_page (kpage_at m d) a m))
     else m' = m)"
proof -
  have pre: "pagedir_set_page (kpage_at m d) upage kpage w m = do {
       (pte, m) \<leftarrow> lookup_page (kpage_at m d) upage True m;
       if pte \<noteq> 0 then do {
         kassert (cells m pte AND PTE_P = 0);
         e \<leftarrow> pte_create_user kpage w;
         Some (True, store pte e m) }
       else Some (False, m) }"
    using up kp pd by (simp add: pagedir_set_page_def pg_ofs_mod vtop_def is_kernel_vaddr_def PTSHIFT_def PGBITS_def drop_bit_eq_div)
  show ?thesis
  proof (cases rule: lookup_page_create [OF wf up(1)])
    case 1
    then show ?thesis using pre by auto
  next
    case (2 j m')
    let ?pte = "kpage_at m j + 4 * pt_no upage" and ?T = "T(pd_no upage \<mapsto> j)"
    obtain e where e: "pte_create_user kpage w = Some e" "e AND PTE_P \<noteq> 0" "pte_get_page e = Some kpage"
      using pte_create_get [OF kp(1-3)] .
    have i: "pd_no upage < 768" using pd_no_user [OF up(1)] .
    have j: "?T (pd_no upage) = Some j" by simp
    have "kpage_at m j \<noteq> 0" using used_page(4) [of m' j] pd_wf_entry(2) [OF 2(2) i j] 2(2,3) by (simp add: pd_wf_def)
    moreover have "cells m' ?pte AND PTE_P = 0" using free 2(6,7) by (auto simp: present_def)
    ultimately have run: "pagedir_set_page (kpage_at m d) upage kpage w m = Some (True, store ?pte e m')"
      using pre 2(1) e(1) by simp
    note wf' = pd_wf_store [OF 2(2) j i pt_no_less, of upage e, unfolded 2(3)]
    have "pagedir_get_page (kpage_at m d) a (store ?pte e m') =
          (if a div 4096 = upage div 4096 then Some (kpage + a mod 4096) else pagedir_get_page (kpage_at m d) a m)"
      if a: "is_user_vaddr a" for a
    proof (cases "a div 4096 = upage div 4096")
      case True
      then have "pd_no a = pd_no upage" "pt_no a = pt_no upage" using same_page [of a upage] by simp_all
      then show ?thesis using pagedir_get_page_eq [OF wf' a] e True 2(3) by (simp add: pg_ofs_mod)
    next
      case False
      then have "\<not> (pd_no a = pd_no upage \<and> pt_no a = pt_no upage)" using same_page [of a upage] by simp
      then show ?thesis
        using get_page_store [OF 2(2) j i pt_no_less a, of upage e] 2(3,5) a False by simp
    qed
    then show ?thesis using run wf' by auto
  qed
qed

text \<open>A small machine: four kernel pages, the first holding an empty directory.\<close>

definition sample_memory :: memory where
  "sample_memory = \<lparr>kernel_pool = \<lparr>used_map = \<lparr>bit_cnt = 4, bits = [1]\<rparr>, base = 0xc0200000\<rparr>,
     user_pool = \<lparr>used_map = \<lparr>bit_cnt = 4, bits = [0]\<rparr>, base = 0xc0300000\<rparr>,
     cells = \<lambda>_. 0, cr3 = 0, init_page_dir = 0xc0100000, init_ram_pages = 1024\<rparr>"

lemma sample_memory_wf: "pd_wf sample_memory 0 Map.empty" "kpage_at sample_memory 0 = 0xc0200000"
proof -
  have "elem_cnt 4 = 1" by (simp add: elem_cnt_exact)
  then show "pd_wf sample_memory 0 Map.empty"
    by (simp add: pd_wf_def memory_ok_def pool_ok_def bm_ok_def page_at_def PHYS_BASE_def sample_memory_def
        pool_used_def the_pool_def marked_def)
  show "kpage_at sample_memory 0 = 0xc0200000"
    by (simp add: kpage_at_def page_at_def the_pool_def sample_memory_def)
qed

theorem pagedir_set_get_page_witness:
  "\<exists>ok m'. pagedir_set_page 0xc0200000 0x8048000 0xc0300000 True sample_memory = Some (ok, m') \<and>
    (ok \<longrightarrow> pagedir_get_page 0xc0200000 0x8048123 m' = Some 0xc0300123)"
proof -
  note w = sample_memory_wf
  have i: "0xc0200000 \<noteq> init_page_dir sample_memory" by (simp add: sample_memory_def)
  have u: "is_user_vaddr 0x8048000" "is_user_vaddr 0x8048123" by (simp_all add: is_user_vaddr_def PHYS_BASE_def)
  have p: "\<not> present sample_memory Map.empty 0x8048000" by (simp add: present_def)
  have k: "(0xc0300000 - PHYS_BASE) div 4096 < init_ram_pages sample_memory" "PHYS_BASE \<le> 0xc0300000"
    by (simp_all add: PHYS_BASE_def sample_memory_def)
  have al: "(0x8048000 :: nat) mod 4096 = 0" "(0xc0300000 :: nat) mod 4096 = 0" "(0xc0300000 :: nat) < 2 ^ 32" by simp_all
  obtain ok m' where r: "pagedir_set_page 0xc0200000 0x8048000 0xc0300000 True sample_memory = Some (ok, m')"
    "if ok then (\<exists>T'. pd_wf m' 0 T') \<and> (\<forall>a. is_user_vaddr a \<longrightarrow> pagedir_get_page 0xc0200000 a m' =
       (if a div 4096 = 0x8048000 div 4096 then Some (0xc0300000 + a mod 4096) else pagedir_get_page 0xc0200000 a sample_memory))
     else m' = sample_memory"
    using pagedir_set_get_page [OF w(1) i [folded w(2)] u(1) al(1,2) k(2) al(3) k(1) p, of True, unfolded w(2)] by blast
  then have "ok \<longrightarrow> pagedir_get_page 0xc0200000 0x8048123 m' = Some 0xc0300123" using u(2) by simp
  then show ?thesis using r(1) by blast
qed

end
