(* ===== verification/Fixed.thy ===== *)
theory Fixed
  imports Prelude
begin

text \<open>
  Fixed-point numbers (\<open>threads/fixed-point.h\<close>): 16 integer and 16 fractional bits in an
  \<open>int\<close>.  The structure is its only member; products and quotients are computed in 64 bits
  and converted back.
\<close>

section \<open>Definitions\<close>

definition FIX_F :: int where "FIX_F = 2 ^ 16"

definition FIX_MAX_INT :: int where "FIX_MAX_INT = 2 ^ 16 - 1"

definition FIX_MIN_INT :: int where "FIX_MIN_INT = - FIX_MAX_INT"

definition fix_int :: "int \<Rightarrow> int option" where
  "fix_int n = do {
     kassert (n \<ge> FIX_MIN_INT \<and> n \<le> FIX_MAX_INT);
     Some (i32 (n * FIX_F)) }"

definition fix_frac :: "int \<Rightarrow> int \<Rightarrow> int option" where
  "fix_frac n d = do {
     kassert (d \<noteq> 0);
     kassert (cdiv n d \<ge> FIX_MIN_INT \<and> cdiv n d \<le> FIX_MAX_INT);
     Some (i32 (cdiv (n * FIX_F) d)) }"

definition fix_round :: "int \<Rightarrow> int" where
  "fix_round x = cdiv (i32 (x + cdiv FIX_F 2)) FIX_F"

definition fix_trunc :: "int \<Rightarrow> int" where
  "fix_trunc x = cdiv x FIX_F"

definition fix_add :: "int \<Rightarrow> int \<Rightarrow> int" where
  "fix_add x y = i32 (x + y)"

definition fix_sub :: "int \<Rightarrow> int \<Rightarrow> int" where
  "fix_sub x y = i32 (x - y)"

definition fix_mul :: "int \<Rightarrow> int \<Rightarrow> int" where
  "fix_mul x y = i32 (cdiv (x * y) FIX_F)"

definition fix_scale :: "int \<Rightarrow> int \<Rightarrow> int option" where
  "fix_scale x n = do {
     kassert (n \<ge> 0);
     Some (i32 (x * n)) }"

text \<open>Division by zero is a processor exception.\<close>

definition fix_div :: "int \<Rightarrow> int \<Rightarrow> int option" where
  "fix_div x y = do {
     kassert (y \<noteq> 0);
     Some (i32 (cdiv (x * FIX_F) y)) }"

definition fix_unscale :: "int \<Rightarrow> int \<Rightarrow> int option" where
  "fix_unscale x n = do {
     kassert (n > 0);
     Some (cdiv x n) }"

definition fix_inv :: "int \<Rightarrow> int option" where
  "fix_inv x = do {
     one \<leftarrow> fix_int 1;
     fix_div one x }"

definition fix_compare :: "int \<Rightarrow> int \<Rightarrow> int" where
  "fix_compare x y = (if x < y then - 1 else of_bool (x > y))"

section \<open>Round trips and errors\<close>

text \<open>An integer comes back from its fixed-point number if it has 16 bits with its sign.\<close>

lemma fix_int_round:
  assumes "- (2 ^ 15) \<le> n" "n < 2 ^ 15"
  shows "\<exists>x. fix_int n = Some x \<and> fix_trunc x = n"
proof -
  have i: "i32 (n * FIX_F) = n * FIX_F"
    using assms by (intro i32_id) (simp_all add: FIX_F_def)
  have "cdiv (n * FIX_F) FIX_F = n"
    by (simp add: cdiv_def FIX_F_def sgn_mult abs_mult mult_sgn_abs)
  then show ?thesis
    using assms i by (simp add: fix_int_def fix_trunc_def FIX_MIN_INT_def FIX_MAX_INT_def)
qed

text \<open>
  The assertion in \<open>fix_int\<close> admits integers twice as large, which do not fit: the fixed-point
  number of 32768 is negative.
\<close>

lemma fix_int_wraps: "fix_int 32768 = Some (- (2 ^ 31))"
  by (simp add: fix_int_def FIX_MIN_INT_def FIX_MAX_INT_def FIX_F_def i32_def)

text \<open>Rounding a negative number towards its nearest integer fails: -1.75 becomes -1.\<close>

lemma fix_round_negative: "fix_round (- (7 * 2 ^ 14)) = - 1"
  by (simp add: fix_round_def FIX_F_def cdiv_def i32_def)

lemma fix_round_nonneg:
  assumes "0 \<le> x" "x + 2 ^ 15 < 2 ^ 31"
  shows "fix_round x = (x + 2 ^ 15) div 2 ^ 16"
  using assms i32_id [of "x + 2 ^ 15"] cdiv_nonneg [of "x + 2 ^ 15" "2 ^ 16"]
  by (simp add: fix_round_def FIX_F_def cdiv_def)

end
