(* ===== verification/Syscall.thy ===== *)
theory Syscall
  imports Path Pagedir Synch Fixed
begin

text \<open>
  System calls (\<open>userprog/syscall.c\<close>): the checks of user pointers, the table of open
  descriptors, the calls on files and directories, and the dispatcher.

  The state is that of the calling process: memory with its page tables, the file system, and
  the fields \<open>pagedir\<close>, \<open>fd_list\<close> and \<open>curr_dir\<close> of its thread.  User memory is read and
  written through the page tables, as the processor does; an access to an address that is
  not mapped is a page fault in the kernel, and the model stops.  Calls that involve other
  threads end in a call of the machine of theory \<open>Synch\<close>.  What \<open>printf\<close> prints about the end
  of a process is left out.
\<close>

section \<open>State\<close>

record fd_pair =
  fp_f :: "file_s option"
  fp_d :: "dir_s option"
  fp_is_dir :: bool
  fp_fd :: int

record sys =
  sy_mem :: memory
  sy_fs :: fsstate
  sy_pagedir :: nat
  sy_fds :: "fd_pair list"
  sy_dir :: "dir_s option"
  sy_out :: "byte list"
  sy_in :: "byte list"
  sy_eax :: u32

text \<open>
  How a call goes on: it returns to the process, or the process ends with a status, starts
  another process or waits for one.
\<close>

datatype sys_result = Done | Exits int | Executes "byte list" | Waits int

text \<open>Local arrays and variables of the file system functions, which start with arbitrary contents.\<close>

record locals =
  lo_part :: "byte list"
  lo_entry :: dir_entry
  lo_slot :: "byte list"

definition set_eax32 :: "int \<Rightarrow> sys \<Rightarrow> sys" where
  "set_eax32 v s = s\<lparr>sy_eax := word_of_int v\<rparr>"

section \<open>User memory\<close>

definition mem_byte :: "memory \<Rightarrow> nat \<Rightarrow> byte" where
  "mem_byte m a = ucast (drop_bit (8 * (a mod 4)) (cells m (a - a mod 4)))"

definition set_mem_byte :: "nat \<Rightarrow> byte \<Rightarrow> memory \<Rightarrow> memory" where
  "set_mem_byte a b m = (let w = cells m (a - a mod 4); k = 8 * (a mod 4) in
     store (a - a mod 4) ((w AND NOT (push_bit k 0xff)) OR push_bit k (ucast b)) m)"

text \<open>The translation of an address by the processor, for reading or writing in kernel mode.\<close>

definition translate :: "nat \<Rightarrow> bool \<Rightarrow> nat \<Rightarrow> memory \<Rightarrow> nat option" where
  "translate pd write a m = do {
     (pte, m) \<leftarrow> lookup_page pd a False m;
     kassert (pte \<noteq> 0);
     kassert (cells m pte AND PTE_P \<noteq> 0);
     kassert (\<not> write \<or> cells m pte AND PTE_W \<noteq> 0);
     page \<leftarrow> pte_get_page (cells m pte);
     Some (page + pg_ofs a) }"

definition user_byte :: "nat \<Rightarrow> nat \<Rightarrow> memory \<Rightarrow> byte option" where
  "user_byte pd a m = do {
     k \<leftarrow> translate pd False (szt a) m;
     Some (mem_byte m k) }"

definition user_word :: "nat \<Rightarrow> nat \<Rightarrow> memory \<Rightarrow> u32 option" where
  "user_word pd a m = do {
     b0 \<leftarrow> user_byte pd a m;
     b1 \<leftarrow> user_byte pd (a + 1) m;
     b2 \<leftarrow> user_byte pd (a + 2) m;
     b3 \<leftarrow> user_byte pd (a + 3) m;
     Some (hd (bytes_u32s [b0, b1, b2, b3])) }"

text \<open>
  A string: its bytes up to the null byte or to the first address that is not mapped.
\<close>

partial_function (option) user_string :: "nat \<Rightarrow> nat \<Rightarrow> memory \<Rightarrow> byte list option" where
  "user_string pd a m = (case user_byte pd a m of
       None \<Rightarrow> Some []
     | Some b \<Rightarrow> if b = 0 then Some [0] else do { bs \<leftarrow> user_string pd (szt (a + 1)) m; Some (b # bs) })"

text \<open>
  A buffer of \<open>n\<close> bytes, with 0 in place of bytes that are not mapped; \<open>mapped\<close> says whether
  the first bytes of it, which were used, are.
\<close>

definition user_buffer :: "nat \<Rightarrow> nat \<Rightarrow> nat \<Rightarrow> memory \<Rightarrow> byte list" where
  "user_buffer pd a n m = map (\<lambda>i. case user_byte pd (a + i) m of Some b \<Rightarrow> b | None \<Rightarrow> 0) [0..<n]"

definition mapped :: "nat \<Rightarrow> nat \<Rightarrow> nat \<Rightarrow> memory \<Rightarrow> bool" where
  "mapped pd a n m \<longleftrightarrow> list_all (\<lambda>i. user_byte pd (a + i) m \<noteq> None) [0..<n]"

fun user_put :: "nat \<Rightarrow> nat \<Rightarrow> byte list \<Rightarrow> memory \<Rightarrow> memory option" where
  "user_put pd a [] m = Some m"
| "user_put pd a (b # bs) m = do {
     k \<leftarrow> translate pd True (szt a) m;
     user_put pd (a + 1) bs (set_mem_byte k b m) }"

section \<open>Checking pointers\<close>

fun valid_loop :: "nat \<Rightarrow> nat \<Rightarrow> int list \<Rightarrow> memory \<Rightarrow> bool option" where
  "valid_loop pd buffer [] m = Some True"
| "valid_loop pd buffer (i # is) m = (let add = szt (buffer + nat (i * 4000)) in
     if \<not> is_user_vaddr add then Some False
     else do {
       tmp \<leftarrow> pagedir_get_page pd add m;
       if tmp = 0 then Some False else valid_loop pd buffer is m })"

definition is_valid_pointer :: "nat \<Rightarrow> nat \<Rightarrow> int \<Rightarrow> memory \<Rightarrow> bool option" where
  "is_valid_pointer pd buffer sz m =
     (if buffer = 0 then Some False else valid_loop pd buffer [0..cdiv sz 4000] m)"

fun args_loop :: "nat \<Rightarrow> nat \<Rightarrow> nat list \<Rightarrow> memory \<Rightarrow> bool option" where
  "args_loop pd args [] m = Some True"
| "args_loop pd args (i # is) m = do {
     ok \<leftarrow> is_valid_pointer pd (szt (args + 4 * i)) 0 m;
     if ok then args_loop pd args is m else Some False }"

definition is_args_valid :: "nat \<Rightarrow> nat \<Rightarrow> sys \<Rightarrow> bool option" where
  "is_args_valid num_args args s = args_loop (sy_pagedir s) args [0..<num_args] (sy_mem s)"

definition arg :: "nat \<Rightarrow> nat \<Rightarrow> sys \<Rightarrow> u32 option" where
  "arg args i s = user_word (sy_pagedir s) (args + 4 * i) (sy_mem s)"

section \<open>Descriptors\<close>

fun get_file_pair :: "int \<Rightarrow> fd_pair list \<Rightarrow> fd_pair option" where
  "get_file_pair fd [] = None"
| "get_file_pair fd (p # ps) = (if fp_fd p = fd then Some p else get_file_pair fd ps)"

text \<open>
  The loop of \<open>find_free_fd\<close>; \<open>before\<close> are the elements in front of \<open>e\<close>, the last of which
  is \<open>prev_elem\<close>.
\<close>

fun fd_loop :: "fd_pair \<Rightarrow> int \<Rightarrow> fd_pair list \<Rightarrow> fd_pair list \<Rightarrow> (int \<times> fd_pair list) option" where
  "fd_loop new fd_prev before [] = (let n = (if fd_prev \<noteq> - 1 then i32 (fd_prev + 1) else 2) in
     Some (n, before @ [new\<lparr>fp_fd := n\<rparr>]))"
| "fd_loop new fd_prev before (p # ps) =
     (if fd_prev = - 1 \<and> fp_fd p = 2 then fd_loop new (fp_fd p) (before @ [p]) ps
      else if fd_prev = - 1 \<and> fp_fd p > 2 then Some (2, new\<lparr>fp_fd := 2\<rparr> # before @ p # ps)
      else if fp_fd p > i32 (fd_prev + 1) then do {
        kassert (before \<noteq> []);
        let n = i32 (fd_prev + 1);
        Some (n, butlast before @ [new\<lparr>fp_fd := n\<rparr>, last before] @ p # ps) }
      else fd_loop new (fp_fd p) (before @ [p]) ps)"

definition find_free_fd :: "file_s option \<Rightarrow> dir_s option \<Rightarrow> bool \<Rightarrow> sys \<Rightarrow> (int \<times> sys) option" where
  "find_free_fd f d isd s = do {
     let (ok, fs) = calloc_fs (sy_fs s);
     kassert ok;
     let new = (if isd then \<lparr>fp_f = None, fp_d = d, fp_is_dir = True, fp_fd = 0\<rparr>
                else \<lparr>fp_f = f, fp_d = None, fp_is_dir = False, fp_fd = 0\<rparr>);
     (n, fds) \<leftarrow> fd_loop new (- 1) [] (sy_fds s);
     Some (n, s\<lparr>sy_fs := fs, sy_fds := fds\<rparr>) }"

text \<open>Storing a changed \<open>struct file\<close> or \<open>struct dir\<close> back into its pair.\<close>

fun put_pair :: "int \<Rightarrow> fd_pair \<Rightarrow> fd_pair list \<Rightarrow> fd_pair list" where
  "put_pair fd q [] = []"
| "put_pair fd q (p # ps) = (if fp_fd p = fd then q # ps else p # put_pair fd q ps)"

fun remove_pair :: "int \<Rightarrow> fd_pair list \<Rightarrow> fd_pair list" where
  "remove_pair fd [] = []"
| "remove_pair fd (p # ps) = (if fp_fd p = fd then ps else p # remove_pair fd ps)"

section \<open>Ending a process\<close>

fun close_pairs :: "fd_pair list \<Rightarrow> fsstate \<Rightarrow> fsstate option" where
  "close_pairs [] s = Some s"
| "close_pairs (p # ps) s = do { s \<leftarrow> file_close (fp_f p) s; close_pairs ps s }"

definition sys_exit_handler :: "int \<Rightarrow> sys \<Rightarrow> (sys_result \<times> sys) option" where
  "sys_exit_handler status s = do {
     fs \<leftarrow> close_pairs (sy_fds s) (sy_fs s);
     Some (Exits status, s\<lparr>sy_fs := fs, sy_fds := []\<rparr>) }"

definition exit_bad :: "sys \<Rightarrow> (sys_result \<times> sys) option" where
  "exit_bad s = sys_exit_handler (- 1) (set_eax32 (- 1) s)"

section \<open>System call numbers\<close>

definition SYS_HALT :: u32 where "SYS_HALT = 0"

definition SYS_EXIT :: u32 where "SYS_EXIT = 1"

definition SYS_EXEC :: u32 where "SYS_EXEC = 2"

definition SYS_WAIT :: u32 where "SYS_WAIT = 3"

definition SYS_CREATE :: u32 where "SYS_CREATE = 4"

definition SYS_REMOVE :: u32 where "SYS_REMOVE = 5"

definition SYS_OPEN :: u32 where "SYS_OPEN = 6"

definition SYS_FILESIZE :: u32 where "SYS_FILESIZE = 7"

definition SYS_READ :: u32 where "SYS_READ = 8"

definition SYS_WRITE :: u32 where "SYS_WRITE = 9"

definition SYS_SEEK :: u32 where "SYS_SEEK = 10"

definition SYS_TELL :: u32 where "SYS_TELL = 11"

definition SYS_CLOSE :: u32 where "SYS_CLOSE = 12"

definition SYS_PRACTICE :: u32 where "SYS_PRACTICE = 13"

definition SYS_MMAP :: u32 where "SYS_MMAP = 14"

definition SYS_MUNMAP :: u32 where "SYS_MUNMAP = 15"

definition SYS_CHDIR :: u32 where "SYS_CHDIR = 16"

definition SYS_MKDIR :: u32 where "SYS_MKDIR = 17"

definition SYS_READDIR :: u32 where "SYS_READDIR = 18"

definition SYS_ISDIR :: u32 where "SYS_ISDIR = 19"

definition SYS_INUMBER :: u32 where "SYS_INUMBER = 20"

definition SYS_BUFFER_CLEAN :: u32 where "SYS_BUFFER_CLEAN = 21"

definition SYS_BUFFER_HIT_RATE :: u32 where "SYS_BUFFER_HIT_RATE = 22"

definition SYS_BUFFER_READ_NUM :: u32 where "SYS_BUFFER_READ_NUM = 23"

definition SYS_BUFFER_WRITE_NUM :: u32 where "SYS_BUFFER_WRITE_NUM = 24"

text \<open>In the order of \<open>lib/syscall-nr.h\<close>.\<close>

lemmas sys_numbers = SYS_HALT_def SYS_EXIT_def SYS_EXEC_def SYS_WAIT_def SYS_CREATE_def SYS_REMOVE_def SYS_OPEN_def SYS_FILESIZE_def SYS_READ_def SYS_WRITE_def SYS_SEEK_def SYS_TELL_def SYS_CLOSE_def SYS_PRACTICE_def SYS_MMAP_def SYS_MUNMAP_def SYS_CHDIR_def SYS_MKDIR_def SYS_READDIR_def SYS_ISDIR_def SYS_INUMBER_def SYS_BUFFER_CLEAN_def SYS_BUFFER_HIT_RATE_def SYS_BUFFER_READ_NUM_def SYS_BUFFER_WRITE_NUM_def

section \<open>Reading, writing and opening\<close>

text \<open>Keyboard input that has not arrived is waited for; the model has no result then.\<close>

definition sys_read_handler :: "int \<Rightarrow> nat \<Rightarrow> int \<Rightarrow> sys \<Rightarrow> (int \<times> sys) option" where
  "sys_read_handler fd buffer sz s = do {
     is_valid \<leftarrow> is_valid_pointer (sy_pagedir s) buffer sz (sy_mem s);
     if is_valid then
       (if fd = 0 then do {
          kassert (nat sz \<le> length (sy_in s));
          m \<leftarrow> user_put (sy_pagedir s) buffer (take (nat sz) (sy_in s)) (sy_mem s);
          Some (0, s\<lparr>sy_mem := m, sy_in := drop (nat sz) (sy_in s)\<rparr>) }
        else do {
          p \<leftarrow> get_file_pair fd (sy_fds s);
          if fp_is_dir p then Some (- 1, s)
          else do {
            f \<leftarrow> fp_f p;
            (bs, f, fs) \<leftarrow> file_read f sz (sy_fs s);
            m \<leftarrow> user_put (sy_pagedir s) buffer bs (sy_mem s);
            Some (int (length bs),
              s\<lparr>sy_mem := m, sy_fs := fs, sy_fds := put_pair fd (p\<lparr>fp_f := Some f\<rparr>) (sy_fds s)\<rparr>) } })
     else Some (- 1, s) }"

definition sys_write_handler :: "int \<Rightarrow> nat \<Rightarrow> int \<Rightarrow> sys \<Rightarrow> (int \<times> sys) option" where
  "sys_write_handler fd buffer sz s = do {
     is_valid \<leftarrow> is_valid_pointer (sy_pagedir s) buffer sz (sy_mem s);
     if \<not> is_valid then Some (- 1, s)
     else if fd = 1 then do {
       let n = nat (sz mod 2 ^ 32);
       kassert (mapped (sy_pagedir s) buffer n (sy_mem s));
       Some (sz, s\<lparr>sy_out := sy_out s @ user_buffer (sy_pagedir s) buffer n (sy_mem s)\<rparr>) }
     else do {
       p \<leftarrow> get_file_pair fd (sy_fds s);
       if fp_is_dir p then Some (- 1, s)
       else do {
         f \<leftarrow> fp_f p;
         (n, f, fs) \<leftarrow> file_write f (user_buffer (sy_pagedir s) buffer (nat sz) (sy_mem s)) sz (sy_fs s);
         kassert (mapped (sy_pagedir s) buffer (nat n) (sy_mem s));
         Some (n, s\<lparr>sy_fs := fs, sy_fds := put_pair fd (p\<lparr>fp_f := Some f\<rparr>) (sy_fds s)\<rparr>) } } }"

definition sys_open_handler :: "locals \<Rightarrow> locals \<Rightarrow> nat \<Rightarrow> sys \<Rightarrow> (int \<times> sys) option" where
  "sys_open_handler u u' name s = do {
     is_valid \<leftarrow> is_valid_pointer (sy_pagedir s) name 0 (sy_mem s);
     if is_valid then do {
       str \<leftarrow> user_string (sy_pagedir s) name (sy_mem s);
       (f, cd, fs) \<leftarrow> filesys_open (lo_part u) (lo_entry u) (sy_dir s) str (sy_fs s);
       let s = s\<lparr>sy_fs := fs, sy_dir := cd\<rparr>;
       case f of
         None \<Rightarrow> do {
           (d, cd, fs) \<leftarrow> filesys_open_directory (lo_part u') (lo_entry u') (sy_dir s) str (sy_fs s);
           let s = s\<lparr>sy_fs := fs, sy_dir := cd\<rparr>;
           case d of
             None \<Rightarrow> Some (- 2, s)
           | Some d \<Rightarrow> find_free_fd None (Some d) True s }
       | Some f \<Rightarrow> find_free_fd (Some f) None False s }
     else Some (- 1, s) }"

section \<open>The dispatcher\<close>

text \<open>A branch of the dispatcher that checks \<open>n\<close> words of arguments first.\<close>

definition with_args :: "nat \<Rightarrow> nat \<Rightarrow> (sys \<Rightarrow> (sys_result \<times> sys) option) \<Rightarrow> sys \<Rightarrow> (sys_result \<times> sys) option" where
  "with_args n args body s = do {
     ok \<leftarrow> is_args_valid n args s;
     if ok then body s else exit_bad s }"

text \<open>A branch that goes on only if the string argument passes the check.\<close>

definition with_string :: "nat \<Rightarrow> (byte list \<Rightarrow> sys \<Rightarrow> (sys_result \<times> sys) option) \<Rightarrow> sys \<Rightarrow> (sys_result \<times> sys) option" where
  "with_string name body s = do {
     ok \<leftarrow> is_valid_pointer (sy_pagedir s) name 0 (sy_mem s);
     if ok then do {
       str \<leftarrow> user_string (sy_pagedir s) name (sy_mem s);
       body str s }
     else exit_bad s }"

definition returns :: "int \<Rightarrow> sys \<Rightarrow> (sys_result \<times> sys) option" where
  "returns v s = Some (Done, set_eax32 v s)"

definition call_practice :: "nat \<Rightarrow> sys \<Rightarrow> (sys_result \<times> sys) option" where
  "call_practice args = with_args 2 args (\<lambda>s. do {
     a1 \<leftarrow> arg args 1 s;
     Some (Done, s\<lparr>sy_eax := a1 + 1\<rparr>) })"

definition call_exit :: "nat \<Rightarrow> sys \<Rightarrow> (sys_result \<times> sys) option" where
  "call_exit args = with_args 2 args (\<lambda>s. do {
     a1 \<leftarrow> arg args 1 s;
     sys_exit_handler (sint a1) (s\<lparr>sy_eax := a1\<rparr>) })"

text \<open>The end of the branches for reading and writing.\<close>

definition transferred :: "int \<times> sys \<Rightarrow> (sys_result \<times> sys) option" where
  "transferred r = (case r of (n, s) \<Rightarrow>
     let s = set_eax32 n s in if n = - 1 then sys_exit_handler (- 1) s else Some (Done, s))"

definition call_read :: "nat \<Rightarrow> sys \<Rightarrow> (sys_result \<times> sys) option" where
  "call_read args = with_args 4 args (\<lambda>s. do {
     fd \<leftarrow> arg args 1 s;
     buffer \<leftarrow> arg args 2 s;
     sz \<leftarrow> arg args 3 s;
     r \<leftarrow> sys_read_handler (sint fd) (unat buffer) (sint sz) s;
     transferred r })"

definition call_write :: "nat \<Rightarrow> sys \<Rightarrow> (sys_result \<times> sys) option" where
  "call_write args = with_args 4 args (\<lambda>s. do {
     fd \<leftarrow> arg args 1 s;
     buffer \<leftarrow> arg args 2 s;
     sz \<leftarrow> arg args 3 s;
     r \<leftarrow> sys_write_handler (sint fd) (unat buffer) (sint sz) s;
     transferred r })"

definition call_create :: "locals \<Rightarrow> nat \<Rightarrow> sys \<Rightarrow> (sys_result \<times> sys) option" where
  "call_create u args = with_args 3 args (\<lambda>s. do {
     file \<leftarrow> arg args 1 s;
     sz \<leftarrow> arg args 2 s;
     with_string (unat file) (\<lambda>str s. do {
       (ok, cd, fs) \<leftarrow> filesys_create (lo_part u) (lo_entry u) (lo_slot u) (sy_dir s) str (sint sz) (sy_fs s);
       returns (of_bool ok) (s\<lparr>sy_dir := cd, sy_fs := fs\<rparr>) }) s })"

definition call_open :: "locals \<Rightarrow> locals \<Rightarrow> nat \<Rightarrow> sys \<Rightarrow> (sys_result \<times> sys) option" where
  "call_open u u' args = with_args 2 args (\<lambda>s. do {
     name \<leftarrow> arg args 1 s;
     (fd, s) \<leftarrow> sys_open_handler u u' (unat name) s;
     let s = set_eax32 fd s;
     if fd = - 1 then sys_exit_handler (- 1) s
     else if fd = - 2 then returns (- 1) s
     else Some (Done, s) })"

definition call_filesize :: "nat \<Rightarrow> sys \<Rightarrow> (sys_result \<times> sys) option" where
  "call_filesize args = with_args 2 args (\<lambda>s. do {
     fd \<leftarrow> arg args 1 s;
     case get_file_pair (sint fd) (sy_fds s) of
       None \<Rightarrow> returns (- 1) s
     | Some p \<Rightarrow> do {
         f \<leftarrow> fp_f p;
         n \<leftarrow> file_length f (sy_fs s);
         returns n s } })"

definition call_seek :: "nat \<Rightarrow> sys \<Rightarrow> (sys_result \<times> sys) option" where
  "call_seek args = with_args 3 args (\<lambda>s. do {
     fd \<leftarrow> arg args 1 s;
     position \<leftarrow> arg args 2 s;
     case get_file_pair (sint fd) (sy_fds s) of
       None \<Rightarrow> Some (Done, s)
     | Some p \<Rightarrow> do {
         f \<leftarrow> fp_f p;
         f \<leftarrow> file_seek f (sint position);
         Some (Done, s\<lparr>sy_fds := put_pair (sint fd) (p\<lparr>fp_f := Some f\<rparr>) (sy_fds s)\<rparr>) } })"

definition call_tell :: "nat \<Rightarrow> sys \<Rightarrow> (sys_result \<times> sys) option" where
  "call_tell args = with_args 2 args (\<lambda>s. do {
     fd \<leftarrow> arg args 1 s;
     case get_file_pair (sint fd) (sy_fds s) of
       None \<Rightarrow> returns (- 1) s
     | Some p \<Rightarrow> do {
         f \<leftarrow> fp_f p;
         returns (file_tell f) s } })"

definition call_close :: "nat \<Rightarrow> sys \<Rightarrow> (sys_result \<times> sys) option" where
  "call_close args = with_args 2 args (\<lambda>s. do {
     fd \<leftarrow> arg args 1 s;
     case get_file_pair (sint fd) (sy_fds s) of
       None \<Rightarrow> Some (Done, s)
     | Some p \<Rightarrow> do {
         fs \<leftarrow> file_close (fp_f p) (sy_fs s);
         Some (Done, s\<lparr>sy_fs := fs, sy_fds := remove_pair (sint fd) (sy_fds s)\<rparr>) } })"

definition call_remove :: "locals \<Rightarrow> nat \<Rightarrow> sys \<Rightarrow> (sys_result \<times> sys) option" where
  "call_remove u args = with_args 2 args (\<lambda>s. do {
     name \<leftarrow> arg args 1 s;
     with_string (unat name) (\<lambda>str s. do {
       (ok, cd, fs) \<leftarrow> filesys_remove (lo_part u) (lo_entry u) (sy_dir s) str (sy_fs s);
       returns (of_bool ok) (s\<lparr>sy_dir := cd, sy_fs := fs\<rparr>) }) s })"

text \<open>The check of the command line is \<open>pagedir_get_page\<close> itself, which takes user addresses only.\<close>

definition call_exec :: "nat \<Rightarrow> sys \<Rightarrow> (sys_result \<times> sys) option" where
  "call_exec args = with_args 2 args (\<lambda>s. do {
     cmd_line \<leftarrow> arg args 1 s;
     tmp \<leftarrow> pagedir_get_page (sy_pagedir s) (unat cmd_line) (sy_mem s);
     if tmp \<noteq> 0 then do {
       str \<leftarrow> user_string (sy_pagedir s) (unat cmd_line) (sy_mem s);
       Some (Executes str, s) }
     else returns (- 1) s })"

text \<open>What \<open>SYS_EXEC\<close> returns once \<open>process_execute\<close> has returned \<open>tid\<close>.\<close>

definition exec_result :: "int \<Rightarrow> kst \<Rightarrow> int option" where
  "exec_result tid k = do {
     parent \<leftarrow> thread_current k;
     w \<leftarrow> get_child_by_tid parent tid k;
     x \<leftarrow> wstats k w;
     Some (if ws_load_code x = - 1 then - 1 else tid) }"

definition call_wait :: "nat \<Rightarrow> sys \<Rightarrow> (sys_result \<times> sys) option" where
  "call_wait args = with_args 2 args (\<lambda>s. do {
     tid \<leftarrow> arg args 1 s;
     Some (Waits (sint tid), s) })"

definition call_mkdir :: "locals \<Rightarrow> nat \<Rightarrow> sys \<Rightarrow> (sys_result \<times> sys) option" where
  "call_mkdir u args = with_args 2 args (\<lambda>s. do {
     name \<leftarrow> arg args 1 s;
     with_string (unat name) (\<lambda>str s. do {
       (ok, cd, fs) \<leftarrow> filesys_create_dir (lo_part u) (lo_entry u) (lo_slot u) (sy_dir s) str (sy_fs s);
       returns (of_bool ok) (s\<lparr>sy_dir := cd, sy_fs := fs\<rparr>) }) s })"

definition call_chdir :: "locals \<Rightarrow> nat \<Rightarrow> sys \<Rightarrow> (sys_result \<times> sys) option" where
  "call_chdir u args = with_args 2 args (\<lambda>s. do {
     name \<leftarrow> arg args 1 s;
     with_string (unat name) (\<lambda>str s. do {
       (d, cd, fs) \<leftarrow> filesys_open_directory (lo_part u) (lo_entry u) (sy_dir s) str (sy_fs s);
       let s = s\<lparr>sy_dir := cd, sy_fs := fs\<rparr>;
       case d of
         None \<Rightarrow> returns 0 s
       | Some d \<Rightarrow> (case sy_dir s of
           None \<Rightarrow> Some (Done, s)
         | Some c \<Rightarrow> do {
             fs \<leftarrow> dir_close (Some c) (sy_fs s);
             returns 1 (s\<lparr>sy_fs := fs, sy_dir := Some d\<rparr>) }) }) s })"

text \<open>The name is written into 15 bytes of user memory, of which only the used ones are changed.\<close>

definition call_readdir :: "nat \<Rightarrow> sys \<Rightarrow> (sys_result \<times> sys) option" where
  "call_readdir args = with_args 3 args (\<lambda>s. do {
     fd \<leftarrow> arg args 1 s;
     name \<leftarrow> arg args 2 s;
     ok \<leftarrow> is_valid_pointer (sy_pagedir s) (unat name) 0 (sy_mem s);
     if ok then do {
       p \<leftarrow> get_file_pair (sint fd) (sy_fds s);
       if fp_is_dir p then do {
         d \<leftarrow> fp_d p;
         let old = user_buffer (sy_pagedir s) (unat name) 15 (sy_mem s);
         (ok, buf, d, fs) \<leftarrow> dir_readdir d old (sy_fs s);
         n \<leftarrow> (if ok then strlen buf else Some 0);
         m \<leftarrow> (if ok then user_put (sy_pagedir s) (unat name) (take (n + 1) buf) (sy_mem s) else Some (sy_mem s));
         returns (of_bool ok) (s\<lparr>sy_mem := m, sy_fs := fs, sy_fds := put_pair (sint fd) (p\<lparr>fp_d := Some d\<rparr>) (sy_fds s)\<rparr>) }
       else returns 0 s }
     else exit_bad s })"

definition call_isdir :: "nat \<Rightarrow> sys \<Rightarrow> (sys_result \<times> sys) option" where
  "call_isdir args = with_args 2 args (\<lambda>s. do {
     fd \<leftarrow> arg args 1 s;
     p \<leftarrow> get_file_pair (sint fd) (sy_fds s);
     returns (of_bool (fp_is_dir p)) s })"

definition call_inumber :: "nat \<Rightarrow> sys \<Rightarrow> (sys_result \<times> sys) option" where
  "call_inumber args = with_args 2 args (\<lambda>s. do {
     fd \<leftarrow> arg args 1 s;
     p \<leftarrow> get_file_pair (sint fd) (sy_fds s);
     ip \<leftarrow> (if fp_is_dir p then map_option dinode (fp_d p) else map_option finode (fp_f p));
     n \<leftarrow> inode_get_inumber ip (sy_fs s);
     Some (Done, s\<lparr>sy_eax := n\<rparr>) })"

definition call_buffer_clean :: "sys \<Rightarrow> (sys_result \<times> sys) option" where
  "call_buffer_clean s = do {
     b \<leftarrow> buffer_clean (bc (sy_fs s));
     Some (Done, s\<lparr>sy_fs := (sy_fs s)\<lparr>bc := b\<rparr>\<rparr>) }"

definition call_hit_rate :: "sys \<Rightarrow> (sys_result \<times> sys) option" where
  "call_hit_rate s = do {
     let (access, hit, b) = buffer_performance (bc (sy_fs s));
     h \<leftarrow> fix_int (sint hit);
     a \<leftarrow> fix_int (sint access);
     q \<leftarrow> fix_div h a;
     t \<leftarrow> fix_int 10000;
     returns (fix_round (fix_mul q t)) (s\<lparr>sy_fs := (sy_fs s)\<lparr>bc := b\<rparr>\<rparr>) }"

definition call_read_num :: "sys \<Rightarrow> (sys_result \<times> sys) option" where
  "call_read_num s = Some (Done, s\<lparr>sy_eax := ucast (get_fs_device_read_cnt (devs (bc (sy_fs s)) (fs_device (sy_fs s))))\<rparr>)"

definition call_write_num :: "sys \<Rightarrow> (sys_result \<times> sys) option" where
  "call_write_num s = Some (Done, s\<lparr>sy_eax := ucast (get_fs_device_write_cnt (devs (bc (sy_fs s)) (fs_device (sy_fs s))))\<rparr>)"

text \<open>Numbers without a branch, among them \<open>SYS_HALT\<close>, do nothing.\<close>

definition syscall_handler :: "locals \<Rightarrow> locals \<Rightarrow> nat \<Rightarrow> sys \<Rightarrow> (sys_result \<times> sys) option" where
  "syscall_handler u u' esp = with_args 1 esp (\<lambda>s. do {
     n \<leftarrow> arg esp 0 s;
     if n = SYS_PRACTICE then call_practice esp s
     else if n = SYS_EXIT then call_exit esp s
     else if n = SYS_READ then call_read esp s
     else if n = SYS_WRITE then call_write esp s
     else if n = SYS_CREATE then call_create u esp s
     else if n = SYS_OPEN then call_open u u' esp s
     else if n = SYS_FILESIZE then call_filesize esp s
     else if n = SYS_SEEK then call_seek esp s
     else if n = SYS_TELL then call_tell esp s
     else if n = SYS_CLOSE then call_close esp s
     else if n = SYS_REMOVE then call_remove u esp s
     else if n = SYS_EXEC then call_exec esp s
     else if n = SYS_WAIT then call_wait esp s
     else if n = SYS_MKDIR then call_mkdir u esp s
     else if n = SYS_CHDIR then call_chdir u esp s
     else if n = SYS_READDIR then call_readdir esp s
     else if n = SYS_ISDIR then call_isdir esp s
     else if n = SYS_INUMBER then call_inumber esp s
     else if n = SYS_BUFFER_CLEAN then call_buffer_clean s
     else if n = SYS_BUFFER_HIT_RATE then call_hit_rate s
     else if n = SYS_BUFFER_READ_NUM then call_read_num s
     else if n = SYS_BUFFER_WRITE_NUM then call_write_num s
     else Some (Done, s) })"

section \<open>The table of descriptors\<close>

definition fd_numbers :: "fd_pair list \<Rightarrow> int list" where
  "fd_numbers ps = map fp_fd ps"

text \<open>The table in the order in which descriptors are first given out.\<close>

definition fds_sorted :: "fd_pair list \<Rightarrow> bool" where
  "fds_sorted ps \<longleftrightarrow> sorted_wrt (<) (fd_numbers ps) \<and> (\<forall>n \<in> set (fd_numbers ps). 2 \<le> n \<and> n < 2 ^ 31 - 1)"

definition smallest_free :: "int \<Rightarrow> fd_pair list \<Rightarrow> bool" where
  "smallest_free n ps \<longleftrightarrow> 2 \<le> n \<and> n \<notin> set (fd_numbers ps) \<and> (\<forall>j. 2 \<le> j \<and> j < n \<longrightarrow> j \<in> set (fd_numbers ps))"

lemma smallest_free_unique: "smallest_free n ps \<Longrightarrow> smallest_free n' ps \<Longrightarrow> n = n'"
  unfolding smallest_free_def by (meson linorder_less_linear)

lemma get_file_pair_None: "get_file_pair fd ps = None \<longleftrightarrow> fd \<notin> set (fd_numbers ps)"
  by (induction ps) (auto simp: fd_numbers_def)

lemma get_file_pair_append:
  "get_file_pair fd (ps @ qs) = (case get_file_pair fd ps of Some p \<Rightarrow> Some p | None \<Rightarrow> get_file_pair fd qs)"
  by (induction ps) auto

lemma upto_Cons:
  assumes "x # xs = [i..j]"
  shows "i \<le> j" "x = i" "xs = [i + 1..j]"
  using assms upto_rec1 [of i j] by (cases "i \<le> j"; simp)+

text \<open>
  One round of opening behind a run of used descriptors.  The new pair ends up in front of
  the last one of the run, unless the table has no larger descriptor.
\<close>

lemma fd_loop_run:
  assumes "before \<noteq> []" "2 \<le> prev" "prev < 2 ^ 31 - 1" "sorted_wrt (<) (prev # fd_numbers ps)"
    "\<forall>n \<in> set (fd_numbers ps). n < 2 ^ 31 - 1"
  shows "\<exists>n ps1 ps2. fd_loop new prev before ps = Some (n, if ps2 = [] then before @ ps1 @ [new\<lparr>fp_fd := n\<rparr>]
       else butlast (before @ ps1) @ [new\<lparr>fp_fd := n\<rparr>, last (before @ ps1)] @ ps2)
     \<and> ps = ps1 @ ps2 \<and> fd_numbers ps1 = [prev + 1..n - 1] \<and> prev < n \<and> n < 2 ^ 31 \<and> (\<forall>j \<in> set (fd_numbers ps2). n < j)"
  using assms
proof (induction ps arbitrary: prev before)
  case Nil
  then have "i32 (prev + 1) = prev + 1"
    by (intro i32_id) auto
  then show ?case
    using Nil by (intro exI [of _ "prev + 1"] exI [of _ "[]"]) (auto simp: fd_numbers_def Let_def)
next
  case (Cons p ps)
  have i: "i32 (prev + 1) = prev + 1"
    using Cons.prems by (intro i32_id) auto
  have p: "prev < fp_fd p" "\<forall>j \<in> set (fd_numbers ps). fp_fd p < j" "sorted_wrt (<) (fp_fd p # fd_numbers ps)" "fp_fd p < 2 ^ 31 - 1"
    using Cons.prems by (auto simp: fd_numbers_def)
  show ?case
  proof (cases "fp_fd p = prev + 1")
    case False
    then have "fp_fd p > prev + 1"
      using p(1) by simp
    then show ?thesis
      using Cons.prems p i by (intro exI [of _ "prev + 1"] exI [of _ "[]"] exI [of _ "p # ps"]) (auto simp: fd_numbers_def Let_def)
  next
    case True
    then have step: "fd_loop new prev before (p # ps) = fd_loop new (prev + 1) (before @ [p]) ps"
      using Cons.prems(2) i by simp
    have "\<exists>n ps1 ps2. fd_loop new (prev + 1) (before @ [p]) ps = Some (n, if ps2 = [] then (before @ [p]) @ ps1 @ [new\<lparr>fp_fd := n\<rparr>]
         else butlast ((before @ [p]) @ ps1) @ [new\<lparr>fp_fd := n\<rparr>, last ((before @ [p]) @ ps1)] @ ps2)
       \<and> ps = ps1 @ ps2 \<and> fd_numbers ps1 = [prev + 1 + 1..n - 1] \<and> prev + 1 < n \<and> n < 2 ^ 31 \<and> (\<forall>j \<in> set (fd_numbers ps2). n < j)"
      by (rule Cons.IH) (use Cons.prems p True in \<open>auto simp: fd_numbers_def\<close>)
    then obtain n ps1 ps2 where r: "fd_loop new (prev + 1) (before @ [p]) ps = Some (n, if ps2 = [] then (before @ [p]) @ ps1 @ [new\<lparr>fp_fd := n\<rparr>]
         else butlast ((before @ [p]) @ ps1) @ [new\<lparr>fp_fd := n\<rparr>, last ((before @ [p]) @ ps1)] @ ps2)"
       "ps = ps1 @ ps2" "fd_numbers ps1 = [prev + 1 + 1..n - 1]" "prev + 1 < n" "n < 2 ^ 31" "\<forall>j \<in> set (fd_numbers ps2). n < j"
      by blast
    have "fd_numbers (p # ps1) = [prev + 1..n - 1]"
      using r(3,4) True upto_rec1 [of "prev + 1" "n - 1"] by (simp add: fd_numbers_def)
    then show ?thesis
      unfolding step using r(1,2,4-6) by (intro exI [of _ n] exI [of _ "p # ps1"] exI [of _ ps2]) simp
  qed
qed

text \<open>
  A table in order is a run of used descriptors \<open>2, ..., n - 1\<close> and larger ones behind it.
\<close>

lemma fd_loop_sorted:
  assumes "fds_sorted ps"
  obtains n ps1 ps2 where "ps = ps1 @ ps2" "fd_numbers ps1 = [2..n - 1]" "2 \<le> n" "n < 2 ^ 31" "\<forall>j \<in> set (fd_numbers ps2). n < j"
    "fd_loop new (- 1) [] ps = Some (n, if ps1 = [] \<or> ps2 = [] then ps1 @ [new\<lparr>fp_fd := n\<rparr>] @ ps2
       else butlast ps1 @ [new\<lparr>fp_fd := n\<rparr>, last ps1] @ ps2)"
proof (cases ps)
  case Nil
  then show ?thesis
    by (intro that [of "[]" "[]" 2]) (auto simp: fd_numbers_def)
next
  case (Cons p qs)
  have p: "2 \<le> fp_fd p" "sorted_wrt (<) (fp_fd p # fd_numbers qs)" "\<forall>j \<in> set (fd_numbers qs). fp_fd p < j \<and> j < 2 ^ 31 - 1"
    using assms by (auto simp: fds_sorted_def fd_numbers_def Cons)
  show ?thesis
  proof (cases "fp_fd p = 2")
    case True
    have "\<exists>n ps1 ps2. fd_loop new 2 [p] qs = Some (n, if ps2 = [] then [p] @ ps1 @ [new\<lparr>fp_fd := n\<rparr>]
         else butlast ([p] @ ps1) @ [new\<lparr>fp_fd := n\<rparr>, last ([p] @ ps1)] @ ps2)
       \<and> qs = ps1 @ ps2 \<and> fd_numbers ps1 = [2 + 1..n - 1] \<and> 2 < n \<and> n < 2 ^ 31 \<and> (\<forall>j \<in> set (fd_numbers ps2). n < j)"
      by (rule fd_loop_run) (use p True in auto)
    then obtain n ps1 ps2 where r: "fd_loop new 2 [p] qs = Some (n, if ps2 = [] then [p] @ ps1 @ [new\<lparr>fp_fd := n\<rparr>]
         else butlast ([p] @ ps1) @ [new\<lparr>fp_fd := n\<rparr>, last ([p] @ ps1)] @ ps2)"
      "qs = ps1 @ ps2" "fd_numbers ps1 = [2 + 1..n - 1]" "2 < n" "n < 2 ^ 31" "\<forall>j \<in> set (fd_numbers ps2). n < j"
      by blast
    have "fd_numbers (p # ps1) = [2..n - 1]"
      using r(3,4) True upto_rec1 [of 2 "n - 1"] by (simp add: fd_numbers_def)
    then show ?thesis
      using r True by (intro that [of "p # ps1" ps2 n]) (auto simp: Cons)
  next
    case False
    then show ?thesis
      using p by (intro that [of "[]" ps 2]) (auto simp: Cons fd_numbers_def)
  qed
qed

lemma smallest_free_run:
  assumes "fd_numbers ps1 = [2..n - 1]" "2 \<le> n" "\<forall>j \<in> set (fd_numbers ps2). n < j"
  shows "smallest_free n (ps1 @ ps2)"
proof -
  have "set (fd_numbers (ps1 @ ps2)) = {2..n - 1} \<union> set (fd_numbers ps2)"
    using assms(1) by (simp add: fd_numbers_def)
  then show ?thesis
    using assms(2,3) by (auto simp: smallest_free_def)
qed

lemma lookup_inserted:
  assumes "fp_fd q = n" "n \<notin> set (fd_numbers (xs @ ys))"
  shows "get_file_pair fd (xs @ q # ys) = (if fd = n then Some q else get_file_pair fd (xs @ ys))"
proof -
  have "get_file_pair n xs = None"
    using assms(2) by (simp add: get_file_pair_None fd_numbers_def)
  then show ?thesis
    using assms(1) by (auto simp: get_file_pair_append split: option.splits)
qed

definition new_pair :: "file_s option \<Rightarrow> dir_s option \<Rightarrow> bool \<Rightarrow> int \<Rightarrow> fd_pair" where
  "new_pair f d isd n = (if isd then \<lparr>fp_f = None, fp_d = d, fp_is_dir = True, fp_fd = n\<rparr>
     else \<lparr>fp_f = f, fp_d = None, fp_is_dir = False, fp_fd = n\<rparr>)"

lemma find_free_fd_eq:
  assumes "mem_ok (sy_fs s) (mem_n (sy_fs s))"
  shows "find_free_fd f d isd s = map_option (\<lambda>(n, fds). (n, s\<lparr>sy_fs := (sy_fs s)\<lparr>mem_n := Suc (mem_n (sy_fs s))\<rparr>, sy_fds := fds\<rparr>))
    (fd_loop (new_pair f d isd 0) (- 1) [] (sy_fds s))"
  using assms by (cases "fd_loop (new_pair f d isd 0) (- 1) [] (sy_fds s)")
    (auto simp: find_free_fd_def calloc_fs_def new_pair_def Let_def)

lemma new_pair_fd [simp]: "(new_pair f d isd m)\<lparr>fp_fd := n\<rparr> = new_pair f d isd n" "fp_fd (new_pair f d isd n) = n"
  by (simp_all add: new_pair_def)

text \<open>
  C35: opening gives the smallest free descriptor.  If the table of a process is in order,
  \<open>find_free_fd\<close> returns the smallest number from 2 on that is not in use.  After it the new
  descriptor names what was opened and every other descriptor names what it did before.
\<close>

theorem find_free_fd_smallest:
  assumes "fds_sorted (sy_fds s)" "mem_ok (sy_fs s) (mem_n (sy_fs s))"
  shows "\<exists>n s'. find_free_fd f d isd s = Some (n, s') \<and> smallest_free n (sy_fds s)
    \<and> get_file_pair n (sy_fds s') = Some (new_pair f d isd n)
    \<and> (\<forall>fd. fd \<noteq> n \<longrightarrow> get_file_pair fd (sy_fds s') = get_file_pair fd (sy_fds s))"
proof (cases rule: fd_loop_sorted [OF assms(1), of "new_pair f d isd 0"])
  case (1 n ps1 ps2)
  let ?q = "new_pair f d isd n"
  have free: "smallest_free n (sy_fds s)"
    unfolding 1(1) by (rule smallest_free_run [OF 1(2,3,5)])
  then have fresh: "n \<notin> set (fd_numbers (ps1 @ ps2))"
    by (simp add: smallest_free_def 1(1))
  define fds where "fds = (if ps1 = [] \<or> ps2 = [] then ps1 @ [?q] @ ps2 else butlast ps1 @ [?q, last ps1] @ ps2)"
  have look: "get_file_pair fd fds = (if fd = n then Some ?q else get_file_pair fd (sy_fds s))" for fd
  proof (cases "ps1 = [] \<or> ps2 = []")
    case True
    then show ?thesis
      using lookup_inserted [of ?q n ps1 ps2 fd] fresh 1(1) by (auto simp: fds_def)
  next
    case False
    then have eq: "butlast ps1 @ last ps1 # ps2 = ps1 @ ps2"
      by simp
    have "get_file_pair fd (butlast ps1 @ ?q # last ps1 # ps2) = (if fd = n then Some ?q else get_file_pair fd (butlast ps1 @ last ps1 # ps2))"
      by (rule lookup_inserted) (use fresh in \<open>simp_all add: eq\<close>)
    then show ?thesis
      using False 1(1) by (simp add: eq fds_def)
  qed
  have "fd_loop (new_pair f d isd 0) (- 1) [] (sy_fds s) = Some (n, fds)"
    using 1(6) by (simp add: fds_def)
  then obtain s' where "find_free_fd f d isd s = Some (n, s')" "sy_fds s' = fds"
    using find_free_fd_eq [OF assms(2), of f d isd] by simp
  then show ?thesis
    using free look by (intro exI [of _ n] exI [of _ s']) simp
qed

text \<open>A process with the descriptors 2 and 4 open.\<close>

definition sample_sys :: sys where
  "sample_sys = \<lparr>sy_mem = sample_memory, sy_fs = sample_fm\<lparr>mem_ok := \<lambda>_. True\<rparr>, sy_pagedir = 0xc0200000,
     sy_fds = [new_pair None None True 2, new_pair None None True 4], sy_dir = None, sy_out = [], sy_in = [], sy_eax = 0\<rparr>"

lemma sample_sys_fds: "fds_sorted (sy_fds sample_sys)" "smallest_free 3 (sy_fds sample_sys)"
  "fd_numbers (sy_fds sample_sys) = [2, 4]" "mem_ok (sy_fs sample_sys) n"
  by (auto simp: sample_sys_def fds_sorted_def smallest_free_def fd_numbers_def)

theorem find_free_fd_smallest_witness:
  "\<exists>s'. find_free_fd None None True sample_sys = Some (3, s') \<and> get_file_pair 3 (sy_fds s') = Some (new_pair None None True 3)
    \<and> get_file_pair 4 (sy_fds s') = Some (new_pair None None True 4)"
proof -
  obtain n s' where r: "find_free_fd None None True sample_sys = Some (n, s')" "smallest_free n (sy_fds sample_sys)"
    "get_file_pair n (sy_fds s') = Some (new_pair None None True n)"
    "\<forall>fd. fd \<noteq> n \<longrightarrow> get_file_pair fd (sy_fds s') = get_file_pair fd (sy_fds sample_sys)"
    using find_free_fd_smallest [OF sample_sys_fds(1,4), of None None True] by blast
  have "n = 3"
    using smallest_free_unique r(2) sample_sys_fds(2) by blast
  then show ?thesis
    using r by (auto simp: sample_sys_def)
qed

text \<open>
  C36: descriptors are given out twice.  Let the table be in order with a gap: descriptors
  smaller and larger than the smallest free one \<open>n\<close> are in use.  Opening a file gives \<open>n\<close>, but
  puts it at the wrong place of the table, so that opening another one gives \<open>n - 1\<close>, which
  is in use.  From then on \<open>n - 1\<close> names the second file.
\<close>

theorem find_free_fd_duplicates:
  assumes "fds_sorted (sy_fds s)" "smallest_free n (sy_fds s)" "2 < n" "\<exists>j \<in> set (fd_numbers (sy_fds s)). n < j"
    and "find_free_fd f d isd s = Some (n1, s1)" "mem_ok (sy_fs s) (mem_n (sy_fs s))" "mem_ok (sy_fs s1) (mem_n (sy_fs s1))"
  shows "\<exists>s2. find_free_fd f' d' isd' s1 = Some (n - 1, s2) \<and> get_file_pair (n - 1) (sy_fds s1) \<noteq> None
    \<and> get_file_pair (n - 1) (sy_fds s2) = Some (new_pair f' d' isd' (n - 1))"
proof (cases rule: fd_loop_sorted [OF assms(1), of "new_pair f d isd 0"])
  case (1 m ps1 ps2)
  have "m = n"
    using smallest_free_run [OF 1(2,3,5)] assms(2) smallest_free_unique unfolding 1(1) by blast
  note 1 = 1 [unfolded this]
  let ?q = "new_pair f d isd n" and ?r = "new_pair f' d' isd' 0"
  have ne: "ps1 \<noteq> []" "ps2 \<noteq> []"
    using 1(1,2) assms(3,4) by (auto simp: fd_numbers_def)
  then obtain qs p where ps1: "ps1 = qs @ [p]"
    by (metis append_butlast_last_id)
  have "[2..n - 1] = [2..n - 2] @ [n - 1]"
    using assms(3) upto_rec2 [of 2 "n - 1"] by simp
  then have qs: "fd_numbers qs = [2..n - 2]" "fp_fd p = n - 1"
    using 1(2) by (simp_all add: ps1 fd_numbers_def)
  have s1: "sy_fds s1 = qs @ ?q # p # ps2"
    using assms(5) find_free_fd_eq [OF assms(6), of f d isd] 1(6) ne by (auto simp: ps1)
  have "\<exists>fds. fd_loop ?r (- 1) [] (qs @ ?q # p # ps2) = Some (n - 1, fds) \<and> get_file_pair (n - 1) fds = Some (?r\<lparr>fp_fd := n - 1\<rparr>)"
  proof (cases qs)
    case Nil
    then have "n = 3"
      using qs(1) assms(3) by (simp add: fd_numbers_def)
    then show ?thesis
      by (simp add: Nil)
  next
    case (Cons a as)
    have a: "fp_fd a = 2" "fd_numbers as = [3..n - 2]" "2 < n - 1"
      using upto_Cons [of "fp_fd a" "fd_numbers as" 2 "n - 2"] qs(1) by (auto simp: Cons fd_numbers_def)
    have n: "n < 2 ^ 31"
      using 1(4) .
    have loop: "fd_loop ?r prev before (as' @ ?q # p # ps2) = Some (n - 1,
        butlast (before @ as') @ [?r\<lparr>fp_fd := n - 1\<rparr>, last (before @ as')] @ ?q # p # ps2)"
      if "fd_numbers as' = [prev + 1..n - 2]" "before \<noteq> []" "2 \<le> prev" "prev < n - 1" for prev before as'
      using that
    proof (induction as' arbitrary: prev before)
      case Nil
      then have "prev = n - 2"
        by (simp add: fd_numbers_def)
      moreover have "i32 (n - 1) = n - 1"
        using n assms(3) by (intro i32_id) auto
      ultimately show ?case
        using Nil.prems(2,3) by (simp add: Let_def)
    next
      case (Cons b bs)
      have b: "fp_fd b = prev + 1" "fd_numbers bs = [prev + 1 + 1..n - 2]" "prev + 1 < n - 1"
        using upto_Cons [of "fp_fd b" "fd_numbers bs" "prev + 1" "n - 2"] Cons.prems(1) by (auto simp: fd_numbers_def)
      have "i32 (prev + 1) = prev + 1"
        using n Cons.prems(3,4) by (intro i32_id) auto
      then show ?case
        using Cons.IH [OF b(2), of "before @ [b]"] b Cons.prems(3) by simp
    qed
    have notin: "n - 1 \<notin> set (fd_numbers (butlast (a # as)))"
    proof -
      have "set (fd_numbers qs) = {2..n - 2}"
        by (simp add: qs(1))
      moreover have "fd_numbers (butlast qs) = butlast (fd_numbers qs)"
        by (simp add: fd_numbers_def map_butlast)
      ultimately show ?thesis
        using in_set_butlastD [of "n - 1" "fd_numbers qs"] unfolding Cons [symmetric] by auto
    qed
    have "get_file_pair (n - 1) (butlast (a # as)) = None"
      using notin by (simp only: get_file_pair_None not_False_eq_True)
    then show ?thesis
      using loop [of as 2 "[a]"] a by (auto simp: Cons get_file_pair_append)
  qed
  then obtain fds where fds: "fd_loop ?r (- 1) [] (sy_fds s1) = Some (n - 1, fds)" "get_file_pair (n - 1) fds = Some (new_pair f' d' isd' (n - 1))"
    unfolding s1 by auto
  moreover have "get_file_pair (n - 1) (sy_fds s1) \<noteq> None"
    using qs(2) by (simp add: get_file_pair_None s1 fd_numbers_def)
  ultimately show ?thesis
    using find_free_fd_eq [OF assms(7), of f' d' isd'] by auto
qed

theorem find_free_fd_duplicates_witness:
  "\<exists>s1 s2. find_free_fd None None True sample_sys = Some (3, s1) \<and> find_free_fd None (Some \<lparr>dinode = 7, dpos = 0, is_remove = False\<rparr>) True s1 = Some (2, s2)
    \<and> get_file_pair 2 (sy_fds s2) = Some (new_pair None (Some \<lparr>dinode = 7, dpos = 0, is_remove = False\<rparr>) True 2)"
proof -
  obtain s1 where s1: "find_free_fd None None True sample_sys = Some (3, s1)" "mem_ok (sy_fs s1) (mem_n (sy_fs s1))"
    using find_free_fd_eq [OF sample_sys_fds(4), of None None True] by (simp add: sample_sys_def Let_def i32_def)
  show ?thesis
    using find_free_fd_duplicates [OF sample_sys_fds(1,2) _ _ s1(1) sample_sys_fds(4) s1(2), of None "Some \<lparr>dinode = 7, dpos = 0, is_remove = False\<rparr>" True] sample_sys_fds(3) s1(1)
    by auto
qed

section \<open>User pointers\<close>

lemma valid_loop_all:
  assumes "valid_loop pd b is m = Some True" "i \<in> set is"
  shows "is_user_vaddr (szt (b + nat (i * 4000))) \<and> (\<exists>k. pagedir_get_page pd (szt (b + nat (i * 4000))) m = Some k \<and> k \<noteq> 0)"
  using assms
  by (induction "is") (auto simp: Let_def bind_eq_Some_conv split: if_splits)

lemma get_page_translate:
  "pagedir_get_page pd a m = Some k \<Longrightarrow> k \<noteq> 0 \<Longrightarrow> \<exists>k'. translate pd False a m = Some k'"
  by (auto simp: pagedir_get_page_def translate_def bind_eq_Some_conv split: if_splits)

text \<open>Whether an address is mapped depends on its page only.\<close>

lemma translate_same:
  assumes k: "translate pd w a m = Some k" and b: "b div 4096 = a div 4096"
  shows "\<exists>k'. translate pd w b m = Some k'"
proof -
  have n: "pd_no b = pd_no a" "pt_no b = pt_no a"
    using same_page [of b a] b by simp_all
  have "lookup_page pd b False m = lookup_page pd a False m"
    unfolding lookup_page_def n by simp
  then show ?thesis
    using k by (auto simp: translate_def bind_eq_Some_conv)
qed

text \<open>
  C37: what the check of a buffer covers.  If \<open>is_valid_pointer\<close> accepts a buffer of
  \<open>sz\<close> bytes, every address up to the last multiple of 4000 in it is a user address, and is
  mapped, so that the kernel can read it.
\<close>

theorem is_valid_pointer_covers:
  assumes "is_valid_pointer pd b sz m = Some True" "0 \<le> sz" "b < 2 ^ 32" "b \<le> a" "a \<le> b + 4000 * nat (sz div 4000)"
  shows "is_user_vaddr a \<and> user_byte pd a m \<noteq> None"
proof -
  have loop: "valid_loop pd b [0..sz div 4000] m = Some True"
    using assms(1,2) by (auto simp: is_valid_pointer_def cdiv_nonneg split: if_splits)
  have at: "b + 4000 * i < PHYS_BASE \<and> (\<exists>k. translate pd False (b + 4000 * i) m = Some k)"
    if "i \<le> nat (sz div 4000)" for i
    using that
  proof (induction i)
    case 0
    have "0 \<in> set [0..sz div 4000]"
      using assms(2) by (simp add: pos_imp_zdiv_nonneg_iff)
    then obtain k where "b < PHYS_BASE" "pagedir_get_page pd b m = Some k" "k \<noteq> 0"
      using valid_loop_all [OF loop, of 0] assms(3) by (auto simp: is_user_vaddr_def)
    then show ?case
      using get_page_translate by auto
  next
    case (Suc i)
    then have "szt (b + 4000 * Suc i) = b + 4000 * Suc i"
      by (intro szt_id) (simp add: PHYS_BASE_def)
    moreover have "int (Suc i) \<in> set [0..sz div 4000]" "nat (int (Suc i) * 4000) = 4000 * Suc i"
      using Suc.prems by auto
    ultimately show ?case
      using valid_loop_all [OF loop, of "int (Suc i)"] get_page_translate unfolding is_user_vaddr_def by metis
  qed
  define x where "x = b + 4000 * ((a - b) div 4000)"
  have i: "(a - b) div 4000 \<le> nat (sz div 4000)"
    using assms(4,5) div_le_mono [of "a - b" "4000 * nat (sz div 4000)" 4000] by simp
  have x: "x \<le> a" "a < x + 4000"
    using assms(4) by (auto simp: x_def)
  have "a < PHYS_BASE \<and> (\<exists>k. translate pd False a m = Some k)"
  proof (cases "a div 4096 = x div 4096")
    case True
    have "x < 786432 * 4096"
      using at [OF i] by (simp add: x_def PHYS_BASE_def)
    then have "a div 4096 < 786432"
      unfolding True by (rule less_mult_imp_div_less)
    then have "a < PHYS_BASE"
      using dividend_less_div_times [of 4096 a] unfolding PHYS_BASE_def by linarith
    then show ?thesis
      using at [OF i] translate_same True unfolding x_def by blast
  next
    case False
    have y: "Suc ((a - b) div 4000) \<le> nat (sz div 4000)"
    proof (rule ccontr)
      assume "\<not> ?thesis"
      then have "(a - b) div 4000 = nat (sz div 4000)"
        using i by simp
      then have "a \<le> x"
        using assms(4,5) by (simp add: x_def)
      then show False
        using False x(1) by simp
    qed
    have "x div 4096 \<le> a div 4096" "a div 4096 \<le> (x + 4000) div 4096" "(x + 4000) div 4096 \<le> (x + 4096) div 4096"
      using x by (auto intro: div_le_mono)
    moreover have "(x + 4096) div 4096 = x div 4096 + 1"
      by simp
    ultimately have "a div 4096 = (x + 4000) div 4096"
      using False by linarith
    moreover have "x + 4000 < PHYS_BASE \<and> (\<exists>k. translate pd False (x + 4000) m = Some k)"
      using at [OF y] by (simp add: x_def algebra_simps)
    ultimately show ?thesis
      using x(2) translate_same by auto
  qed
  moreover from this have "szt a = a"
    by (intro szt_id) (simp add: PHYS_BASE_def)
  ultimately show ?thesis
    by (auto simp: is_user_vaddr_def user_byte_def)
qed

text \<open>One user page, at \<open>0x8048000\<close>.\<close>

definition user_memory :: memory where
  "user_memory = sample_memory\<lparr>cells := (\<lambda>_. 0)(0xc0200080 := 0x00201007, 0xc0201120 := 0x00300007)\<rparr>"

lemmas walk_eval = is_valid_pointer_def cdiv_def Let_def pagedir_get_page_def lookup_page_def translate_def user_byte_def pde_get_pt_def
  pte_get_page_def ptov_def is_user_vaddr_def PHYS_BASE_def PTE_P_def PTE_ADDR_def pd_no_div pt_no_div user_memory_def

lemma user_memory_valid: "is_valid_pointer 0xc0200000 0x8048ff0 100 user_memory = Some True"
  by (simp add: walk_eval)

theorem is_valid_pointer_covers_witness: "user_byte 0xc0200000 0x8048ff0 user_memory \<noteq> None"
  using is_valid_pointer_covers [OF user_memory_valid, of "0x8048ff0"] by simp

text \<open>
  C38: what it does not cover.  For a buffer shorter than 4000 bytes only the first byte is
  looked at, so that a buffer is accepted whose other bytes lie on a page that is not mapped
  or in the kernel; and every pointer except null is accepted if the size, taken as a signed
  number, is -4000 or less.
\<close>

theorem is_valid_pointer_unchecked:
  assumes "b \<noteq> 0"
  shows "(- 4000 < sz \<and> sz < 4000 \<longrightarrow> is_valid_pointer pd b sz m = is_valid_pointer pd b 0 m)
    \<and> (sz \<le> - 4000 \<longrightarrow> is_valid_pointer pd b sz m = Some True)"
proof (intro conjI impI)
  assume "- 4000 < sz \<and> sz < 4000"
  then have "cdiv sz 4000 = 0" "cdiv 0 4000 = 0"
    by (auto simp: cdiv_def)
  then show "is_valid_pointer pd b sz m = is_valid_pointer pd b 0 m"
    by (simp only: is_valid_pointer_def)
next
  assume sz: "sz \<le> - 4000"
  then have "1 \<le> \<bar>sz\<bar> div 4000"
    by simp
  then have "cdiv sz 4000 < 0"
    using sz by (simp add: cdiv_def)
  then show "is_valid_pointer pd b sz m = Some True"
    using assms by (simp add: is_valid_pointer_def)
qed

text \<open>A buffer that ends on a page that is not mapped, and an address in the kernel.\<close>

theorem is_valid_pointer_unchecked_witness:
  "is_valid_pointer 0xc0200000 0x8048fff 3999 user_memory = Some True \<and> user_byte 0xc0200000 0x8049000 user_memory = None
    \<and> is_valid_pointer 0xc0200000 0xc0000000 (- 4000) user_memory = Some True"
proof -
  have "is_valid_pointer 0xc0200000 0x8048fff 0 user_memory = Some True" "user_byte 0xc0200000 0x8049000 user_memory = None"
    by (simp_all add: walk_eval)
  then show ?thesis
    using is_valid_pointer_unchecked [of "0x8048fff" 3999 "0xc0200000" user_memory]
      is_valid_pointer_unchecked [of "0xc0000000" "- 4000" "0xc0200000" user_memory] by simp
qed

section \<open>Calls that end the process or stop the kernel\<close>

text \<open>A process whose stack pointer is bad ends with status -1, and its files are closed.\<close>

lemma bad_stack_exits:
  assumes "is_args_valid 1 esp s = Some False" "close_pairs (sy_fds s) (sy_fs s) = Some fs"
  shows "syscall_handler u u' esp s = Some (Exits (- 1), s\<lparr>sy_eax := - 1, sy_fs := fs, sy_fds := []\<rparr>)"
  using assms by (simp add: syscall_handler_def with_args_def exit_bad_def sys_exit_handler_def set_eax32_def)

lemma halt_returns:
  assumes "is_args_valid 1 esp s = Some True" "arg esp 0 s = Some SYS_HALT"
  shows "syscall_handler u u' esp s = Some (Done, s)"
  using assms by (simp add: syscall_handler_def with_args_def sys_numbers)

text \<open>
  Arguments with which a process stops the kernel: a command line in the kernel's part of the
  address space, a position of \<open>2 ^ 31\<close> or more, and the size of a directory.
\<close>

lemma exec_kernel_pointer_panics:
  assumes "is_args_valid 2 args s = Some True" "arg args 1 s = Some a" "PHYS_BASE \<le> unat a"
  shows "call_exec args s = None"
  using assms by (simp add: call_exec_def with_args_def pagedir_get_page_def is_user_vaddr_def)

lemma seek_large_panics:
  assumes "is_args_valid 3 args s = Some True" "arg args 1 s = Some fd" "arg args 2 s = Some position"
    and "get_file_pair (sint fd) (sy_fds s) = Some p" "sint position < 0"
  shows "call_seek args s = None"
  using assms by (cases "fp_f p") (simp_all add: call_seek_def with_args_def file_seek_def)

lemma filesize_directory_panics:
  assumes "is_args_valid 2 args s = Some True" "arg args 1 s = Some fd" "get_file_pair (sint fd) (sy_fds s) = Some p" "fp_f p = None"
  shows "call_filesize args s = None"
  using assms by (simp add: call_filesize_def with_args_def)

text \<open>Reading the keyboard reports 0 bytes whatever was read.\<close>

lemma read_keyboard_reports_zero: "sys_read_handler 0 buffer sz s = Some (n, s') \<Longrightarrow> n = 0 \<or> n = - 1"
  by (auto simp: sys_read_handler_def bind_eq_Some_conv split: if_splits)

end
